(* ===== verification/Prelude.thy ===== *)
theory Prelude
  imports Complex_Main "HOL-Library.List_Lexorder" "HOL-Library.Char_ord" "HOL-Library.Sublist"
begin

text \<open>
  Shared ground of the development: Go's byte strings and the operations of the packages
  \<open>strings\<close> and \<open>strconv\<close> that nginx-clickhouse calls, 64-bit integer wrap-around, and the
  lemmas on them that several components use.  A Go \<open>string\<close> is a sequence of bytes and is a
  \<^typ>\<open>string\<close> here (a \<^typ>\<open>char\<close> is a byte); a Go \<open>int\<close> is an \<^typ>\<open>int\<close> whose range is written
  out where it matters (\<open>wrap64\<close>, \<open>int64_range\<close>).  Order on strings is the byte-wise
  lexicographic one of \<open>sort.Strings\<close> (List_Lexorder over Char_ord).
\<close>

section \<open>Machine integers\<close>

text \<open>Two's complement wrap-around of a 64-bit \<open>int\<close>, \<open>int64\<close> or \<open>time.Duration\<close>.\<close>

definition wrap64 :: "int \<Rightarrow> int" where
  "wrap64 x = (x + 2 ^ 63) mod 2 ^ 64 - 2 ^ 63"

definition int64_range :: "int \<Rightarrow> bool" where
  "int64_range x \<longleftrightarrow> - (2 ^ 63) \<le> x \<and> x < 2 ^ 63"

lemma wrap64_range: "int64_range (wrap64 x)"
proof -
  have "0 \<le> (x + 2 ^ 63) mod 2 ^ 64" and "(x + 2 ^ 63) mod 2 ^ 64 < 2 ^ 64" by simp_all
  then show ?thesis by (simp add: wrap64_def int64_range_def)
qed

lemma wrap64_id [simp]: "int64_range x \<Longrightarrow> wrap64 x = x"
  by (simp add: wrap64_def int64_range_def)

lemma wrap64_idI: "- (2 ^ 63) \<le> x \<Longrightarrow> x < 2 ^ 63 \<Longrightarrow> wrap64 x = x"
  by (simp add: wrap64_def)

text \<open>Doubling a positive duration that leaves the range becomes negative, never positive.\<close>

lemma wrap64_double_overflow:
  assumes "2 ^ 62 \<le> x" and "x < 2 ^ 63"
  shows "wrap64 (x * 2) = x * 2 - 2 ^ 64" and "wrap64 (x * 2) < 0"
proof -
  have "(x * 2 + 2 ^ 63) mod 2 ^ 64 = x * 2 + 2 ^ 63 - 2 ^ 64"
  proof -
    have "(x * 2 + 2 ^ 63) mod 2 ^ 64 = (x * 2 + 2 ^ 63 - 2 ^ 64) mod 2 ^ 64"
      by (metis minus_mod_self2)
    also have "\<dots> = x * 2 + 2 ^ 63 - 2 ^ 64"
      by (rule mod_pos_pos_trivial) (use assms in simp_all)
    finally show ?thesis .
  qed
  then show eq: "wrap64 (x * 2) = x * 2 - 2 ^ 64" by (simp add: wrap64_def)
  show "wrap64 (x * 2) < 0" unfolding eq using assms by simp
qed

section \<open>Byte strings\<close>

abbreviation nl :: char where "nl \<equiv> CHR 0x0A"
abbreviation cr :: char where "cr \<equiv> CHR 0x0D"

text \<open>\<open>strings.HasPrefix\<close>, \<open>HasSuffix\<close>, \<open>TrimPrefix\<close>, \<open>TrimSuffix\<close>, \<open>CutPrefix\<close>.\<close>

definition has_prefix :: "string \<Rightarrow> string \<Rightarrow> bool" where
  "has_prefix s p \<longleftrightarrow> take (length p) s = p"

definition has_suffix :: "string \<Rightarrow> string \<Rightarrow> bool" where
  "has_suffix s p \<longleftrightarrow> has_prefix (rev s) (rev p)"

definition trim_prefix :: "string \<Rightarrow> string \<Rightarrow> string" where
  "trim_prefix s p = (if has_prefix s p then drop (length p) s else s)"

definition trim_suffix :: "string \<Rightarrow> string \<Rightarrow> string" where
  "trim_suffix s p = (if has_suffix s p then take (length s - length p) s else s)"

definition cut_prefix :: "string \<Rightarrow> string \<Rightarrow> string option" where
  "cut_prefix s p = (if has_prefix s p then Some (drop (length p) s) else None)"

lemma has_prefix_append [simp]: "has_prefix (p @ s) p"
  by (simp add: has_prefix_def)

lemma has_prefix_iff: "has_prefix s p \<longleftrightarrow> (\<exists>t. s = p @ t)"
  by (metis append_take_drop_id append_eq_conv_conj has_prefix_def)

lemma has_prefix_Nil [simp]: "has_prefix s []"
  by (simp add: has_prefix_def)

lemma has_prefix_Cons [simp]:
  "has_prefix (x # s) (y # p) \<longleftrightarrow> x = y \<and> has_prefix s p"
  "\<not> has_prefix [] (y # p)"
  by (auto simp: has_prefix_def)

lemma has_suffix_iff: "has_suffix s p \<longleftrightarrow> (\<exists>t. s = t @ p)"
  by (auto simp: has_suffix_def has_prefix_iff) (metis rev_append rev_rev_ident)

lemma has_suffix_append [simp]: "has_suffix (s @ p) p"
  by (auto simp: has_suffix_iff)

lemma trim_prefix_append [simp]: "trim_prefix (p @ s) p = s"
  by (simp add: trim_prefix_def)

lemma trim_suffix_append [simp]: "trim_suffix (s @ p) p = s"
  by (simp add: trim_suffix_def)

lemma cut_prefix_Some: "cut_prefix s p = Some t \<longleftrightarrow> s = p @ t"
  by (auto simp: cut_prefix_def has_prefix_iff)

text \<open>\<open>strings.Join\<close> and the splitting functions, for the one-byte separators the code uses.\<close>

fun join :: "string \<Rightarrow> string list \<Rightarrow> string" where
  "join sep [] = []"
| "join sep [s] = s"
| "join sep (s # ss) = s @ sep @ join sep ss"

text \<open>\<open>strings.Cut s c\<close>: before and after the first \<open>c\<close>; the rest is empty without one.\<close>

fun str_cut :: "char \<Rightarrow> string \<Rightarrow> string \<times> string" where
  "str_cut c [] = ([], [])"
| "str_cut c (x # s) = (if x = c then ([], s) else (case str_cut c s of (a, b) \<Rightarrow> (x # a, b)))"

text \<open>\<open>strings.Split s c\<close>: always at least one piece.\<close>

fun split_on :: "char \<Rightarrow> string \<Rightarrow> string list" where
  "split_on c [] = [[]]"
| "split_on c (x # s) =
     (if x = c then [] # split_on c s
      else (case split_on c s of [] \<Rightarrow> [[x]] | p # ps \<Rightarrow> (x # p) # ps))"

text \<open>\<open>strings.SplitN s c n\<close> for \<open>n > 0\<close>: at most \<open>n\<close> pieces, the last one unsplit.\<close>

fun split_n :: "nat \<Rightarrow> char \<Rightarrow> string \<Rightarrow> string list" where
  "split_n 0 c s = []"
| "split_n (Suc 0) c s = [s]"
| "split_n (Suc (Suc n)) c s =
     (if c \<in> set s then (case str_cut c s of (a, b) \<Rightarrow> a # split_n (Suc n) c b) else [s])"

lemma str_cut_no_sep: "c \<notin> set s \<Longrightarrow> str_cut c s = (s, [])"
  by (induction s) auto

lemma str_cut_append: "c \<notin> set a \<Longrightarrow> str_cut c (a @ c # b) = (a, b)"
  by (induction a) auto

lemma split_on_no_sep: "c \<notin> set s \<Longrightarrow> split_on c s = [s]"
  by (induction s) auto

lemma split_on_append: "c \<notin> set a \<Longrightarrow> split_on c (a @ c # s) = a # split_on c s"
  by (induction a) auto

lemma split_on_join:
  "ss \<noteq> [] \<Longrightarrow> (\<And>s. s \<in> set ss \<Longrightarrow> c \<notin> set s) \<Longrightarrow> split_on c (join [c] ss) = ss"
  by (induction "[c]" ss rule: join.induct) (auto simp: split_on_no_sep split_on_append)

lemma split_on_pieces: "p \<in> set (split_on c s) \<Longrightarrow> c \<notin> set p"
  by (induction s arbitrary: p) (auto split: if_splits list.splits)

lemma split_on_nonempty [simp]: "split_on c s \<noteq> []"
  by (induction s) (auto split: list.splits)

lemma length_split_n: "length (split_n n c s) \<le> n"
  by (induction n c s rule: split_n.induct) (auto split: prod.splits)

lemma split_n_nonempty: "0 < n \<Longrightarrow> split_n n c s \<noteq> []"
  by (induction n c s rule: split_n.induct) (auto split: prod.splits)

lemma split_on_append_sep: "split_on c (a @ c # b) = split_on c a @ split_on c b"
  by (induction a) (auto split: list.splits)

lemma split_n_pieces:
  "c \<notin> set a \<Longrightarrow> split_n (Suc (Suc n)) c (a @ c # b) = a # split_n (Suc n) c b"
  by (simp add: str_cut_append)

lemma split_n_no_sep: "c \<notin> set s \<Longrightarrow> 0 < n \<Longrightarrow> split_n n c s = [s]"
  by (cases n; cases "n - 1") auto

section \<open>Lists\<close>

lemma map_filter_map_Some:
  "\<forall>x\<in>set xs. f (g x) = Some (h x) \<Longrightarrow> List.map_filter f (map g xs) = map h xs"
  by (induction xs) (simp_all add: map_filter_simps)

text \<open>Order of byte strings.\<close>

lemma less_append_same: "length s = length t \<Longrightarrow> s < t \<Longrightarrow> s @ u < t @ (v :: string)"
  by (induction s t rule: list_induct2) auto

lemma less_append_left: "p @ s < p @ t \<longleftrightarrow> s < (t :: string)"
  by (induction p) auto

end
