(* ===== verification/GoLib.thy ===== *)
theory GoLib
  imports Prelude "HOL-Library.Log_Nat"
begin

text \<open>
  The parts of Go's standard library that the program computes with, written out on byte
  strings: decimal printing and \<open>strconv.Atoi\<close>, \<open>strings.TrimSpace\<close>, \<open>strings.ToLower\<close>, and
  \<open>bufio.Scanner\<close> with its default split function \<open>ScanLines\<close> and its token limit.
\<close>

section \<open>Decimal numbers\<close>

definition digit :: "nat \<Rightarrow> char" where
  "digit d = char_of (48 + d)"

definition digit_val :: "char \<Rightarrow> nat" where
  "digit_val c = of_char c - 48"

definition is_digit :: "char \<Rightarrow> bool" where
  "is_digit c \<longleftrightarrow> 48 \<le> (of_char c :: nat) \<and> (of_char c :: nat) \<le> 57"

fun show_nat :: "nat \<Rightarrow> string" where
  "show_nat n = (if n < 10 then [digit n] else show_nat (n div 10) @ [digit (n mod 10)])"

declare show_nat.simps [simp del]

text \<open>\<open>strconv.FormatInt(n, 10)\<close> and \<open>%d\<close>.\<close>

definition show_int :: "int \<Rightarrow> string" where
  "show_int n = (if n < 0 then CHR ''-'' # show_nat (nat (- n)) else show_nat (nat n))"

definition digits_val :: "string \<Rightarrow> nat" where
  "digits_val s = foldl (\<lambda>a c. 10 * a + digit_val c) 0 s"

text \<open>
  \<open>strconv.Atoi\<close> on a 64-bit platform: an optional sign, at least one decimal digit and
  nothing else, and a value in the range of \<open>int\<close>; \<open>None\<close> is \<open>ErrSyntax\<close> or \<open>ErrRange\<close>
  (no caller distinguishes them).  \<open>strconv.ParseInt(s, 10, 64)\<close> accepts the same strings.
\<close>

definition atoi_digits :: "string \<Rightarrow> nat option" where
  "atoi_digits s = (if s \<noteq> [] \<and> list_all is_digit s then Some (digits_val s) else None)"

definition check_range :: "int \<Rightarrow> int option" where
  "check_range x = (if int64_range x then Some x else None)"

fun atoi :: "string \<Rightarrow> int option" where
  "atoi [] = None"
| "atoi (c # s) =
     (if c = CHR ''-'' then Option.bind (atoi_digits s) (\<lambda>n. check_range (- int n))
      else if c = CHR ''+'' then Option.bind (atoi_digits s) (\<lambda>n. check_range (int n))
      else Option.bind (atoi_digits (c # s)) (\<lambda>n. check_range (int n)))"

lemma of_char_digit [simp]: "d < 10 \<Longrightarrow> (of_char (digit d) :: nat) = 48 + d"
  by (simp add: digit_def)

lemma is_digit_digit [simp]: "d < 10 \<Longrightarrow> is_digit (digit d)"
  by (simp add: is_digit_def)

lemma digit_val_digit [simp]: "d < 10 \<Longrightarrow> digit_val (digit d) = d"
  by (simp add: digit_val_def)

lemma digit_digit_val: "is_digit c \<Longrightarrow> digit (digit_val c) = c"
  by (simp add: digit_def digit_val_def is_digit_def)

lemma digit_val_less [simp]: "is_digit c \<Longrightarrow> digit_val c < 10"
  by (auto simp: digit_val_def is_digit_def)

lemma digit_less_iff: "a < 10 \<Longrightarrow> b < 10 \<Longrightarrow> digit a < digit b \<longleftrightarrow> a < b"
  by (simp add: less_char_def)

lemma digit_eq_iff [simp]: "a < 10 \<Longrightarrow> b < 10 \<Longrightarrow> digit a = digit b \<longleftrightarrow> a = b"
  by (metis digit_val_digit)

text \<open>Evaluation of digits, used only where a closed term is computed.\<close>

lemma digit_eval:
  "digit 0 = CHR ''0''" "digit (Suc 0) = CHR ''1''" "digit 1 = CHR ''1''" "digit 2 = CHR ''2''"
  "digit 3 = CHR ''3''" "digit 4 = CHR ''4''" "digit 5 = CHR ''5''" "digit 6 = CHR ''6''"
  "digit 7 = CHR ''7''" "digit 8 = CHR ''8''" "digit 9 = CHR ''9''"
  by code_simp+

lemma digits_val_snoc [simp]: "digits_val (s @ [c]) = 10 * digits_val s + digit_val c"
  by (simp add: digits_val_def)

lemma digits_val_Nil [simp]: "digits_val [] = 0"
  by (simp add: digits_val_def)

lemma show_nat_nonempty [simp]: "show_nat n \<noteq> []"
  by (subst show_nat.simps) simp

lemma show_nat_digits: "list_all is_digit (show_nat n)"
proof (induction n rule: show_nat.induct)
  case (1 n)
  then show ?case by (subst show_nat.simps) simp
qed

lemma digits_val_show_nat [simp]: "digits_val (show_nat n) = n"
proof (induction n rule: show_nat.induct)
  case (1 n)
  then show ?case by (subst show_nat.simps) (simp add: digits_val_def)
qed

lemma is_digit_not_sign: "is_digit c \<Longrightarrow> c \<noteq> CHR ''-'' \<and> c \<noteq> CHR ''+''"
  by (auto simp: is_digit_def)

lemma atoi_digits_show_nat [simp]: "atoi_digits (show_nat n) = Some n"
  by (simp add: atoi_digits_def show_nat_digits)

lemma atoi_unsigned:
  assumes "atoi_digits s = Some n"
  shows "atoi s = check_range (int n)"
proof (cases s)
  case Nil
  with assms show ?thesis by (simp add: atoi_digits_def)
next
  case (Cons c s')
  with assms have "is_digit c" by (simp add: atoi_digits_def split: if_splits)
  with assms Cons show ?thesis by (simp add: is_digit_not_sign)
qed

lemma atoi_show_int: "int64_range n \<Longrightarrow> atoi (show_int n) = Some n"
  by (simp add: show_int_def atoi_unsigned check_range_def)

lemma atoi_range: "atoi s = Some n \<Longrightarrow> int64_range n"
  by (cases s) (auto simp: check_range_def bind_eq_Some_conv split: if_splits)

text \<open>\<open>%06d\<close> for a non-negative number: padded with zeros on the left to a width.\<close>

definition pad_zero :: "nat \<Rightarrow> nat \<Rightarrow> string" where
  "pad_zero w n = replicate (w - length (show_nat n)) (digit 0) @ show_nat n"

lemma pad_zero_digits: "list_all is_digit (pad_zero w n)"
  using show_nat_digits [of n] by (auto simp: pad_zero_def list_all_iff)

lemma digits_val_replicate: "digits_val (replicate k (digit 0) @ s) = digits_val s"
  by (induction k) (simp_all add: digits_val_def)

lemma digits_val_pad_zero [simp]: "digits_val (pad_zero w n) = n"
  by (simp add: pad_zero_def digits_val_replicate)

lemma pad_zero_nonempty [simp]: "pad_zero w n \<noteq> []"
  by (simp add: pad_zero_def)

lemma length_pad_zero: "w \<le> length (pad_zero w n)"
  by (simp add: pad_zero_def)

lemma atoi_pad_zero: "int n < 2 ^ 63 \<Longrightarrow> atoi (pad_zero w n) = Some (int n)"
  by (rule trans [OF atoi_unsigned [where n = n]])
    (simp_all add: atoi_digits_def pad_zero_digits check_range_def int64_range_def)

lemma digits_val_append:
  "digits_val (s @ t) = digits_val s * 10 ^ length t + digits_val t"
proof (induction t rule: rev_induct)
  case Nil
  then show ?case by simp
next
  case (snoc c t)
  have "digits_val (s @ t @ [c]) = 10 * digits_val (s @ t) + digit_val c"
    using digits_val_snoc [of "s @ t" c] by simp
  then show ?case by (simp add: snoc.IH algebra_simps)
qed

lemma digits_val_Cons: "digits_val (c # s) = digit_val c * 10 ^ length s + digits_val s"
  using digits_val_append [of "[c]" s] by (simp add: digits_val_def)

lemma digits_val_bound: "list_all is_digit s \<Longrightarrow> digits_val s < 10 ^ length s"
proof (induction s rule: rev_induct)
  case Nil
  then show ?case by simp
next
  case (snoc c s)
  from snoc.prems have "digit_val c < 10" and "list_all is_digit s" by simp_all
  with snoc.IH show ?case by simp
qed

lemma length_show_nat: "n < 10 ^ k \<Longrightarrow> 0 < k \<Longrightarrow> length (show_nat n) \<le> k"
proof (induction n arbitrary: k rule: show_nat.induct)
  case (1 n)
  show ?case
  proof (cases "n < 10")
    case True
    with "1.prems" show ?thesis by (subst show_nat.simps) simp
  next
    case False
    with "1.prems"(1) obtain j where k: "k = Suc j" "0 < j"
      by (cases k; cases "k - 1") auto
    have "n div 10 < 10 ^ j" using "1.prems"(1) k(1) by (simp add: less_mult_imp_div_less mult.commute)
    with False k "1.IH" [of j] show ?thesis by (subst show_nat.simps) simp
  qed
qed

lemma length_pad_zero_eq: "n < 10 ^ w \<Longrightarrow> 0 < w \<Longrightarrow> length (pad_zero w n) = w"
  using length_show_nat [of n w] by (simp add: pad_zero_def)

text \<open>Digit strings of equal length are ordered as their values are.\<close>

lemma digits_val_less_iff:
  "list_all is_digit s \<Longrightarrow> list_all is_digit t \<Longrightarrow> length s = length t \<Longrightarrow>
   s < t \<longleftrightarrow> digits_val s < digits_val t"
proof (induction s arbitrary: t)
  case Nil
  then show ?case by simp
next
  case (Cons c s)
  from Cons.prems obtain d u where t: "t = d # u" by (cases t) auto
  have dig: "is_digit c" "is_digit d" "length u = length s"
    and bounds: "digits_val s < 10 ^ length s" "digits_val u < 10 ^ length s"
    using Cons.prems t digits_val_bound [of s] digits_val_bound [of u] by auto
  have ord: "c < d \<longleftrightarrow> digit_val c < digit_val d" "c = d \<longleftrightarrow> digit_val c = digit_val d"
    using dig digit_less_iff [of "digit_val c" "digit_val d"]
      digit_eq_iff [of "digit_val c" "digit_val d"]
    by (simp_all add: digit_digit_val)
  have IH: "s < u \<longleftrightarrow> digits_val s < digits_val u"
    using Cons t by simp
  have step: "digit_val a * 10 ^ length s + x < digit_val b * 10 ^ length s + y"
    if "digit_val a < digit_val b" "x < 10 ^ length s" for a b and x y :: nat
  proof -
    have "digit_val a * 10 ^ length s + x < Suc (digit_val a) * 10 ^ length s"
      using that by simp
    also have "\<dots> \<le> digit_val b * 10 ^ length s"
      using that by (intro mult_le_mono1) simp
    finally show ?thesis by simp
  qed
  show ?case
  proof (cases "digit_val c" "digit_val d" rule: linorder_cases)
    case less
    then show ?thesis using step [of c d "digits_val s" "digits_val u"] bounds ord t dig
      by (simp add: digits_val_Cons)
  next
    case equal
    then show ?thesis using ord IH t dig by (simp add: digits_val_Cons)
  next
    case greater
    then show ?thesis using step [of d c "digits_val u" "digits_val s"] bounds ord t dig
      by (simp add: digits_val_Cons)
  qed
qed

section \<open>\<open>strings.TrimSpace\<close> and \<open>strings.ToLower\<close>\<close>

text \<open>
  The UTF-8 encodings of the code points for which \<open>unicode.IsSpace\<close> holds: the six ASCII
  ones, U+0085, U+00A0, U+1680, U+2000 to U+200A, U+2028, U+2029, U+202F, U+205F and U+3000.
  Decoding a code point at the start (or the end) of a string yields one of them exactly when
  its encoding is a prefix (or a suffix) of the string.
\<close>

definition ws_seqs :: "string list" where
  "ws_seqs =
     [[CHR 0x09], [CHR 0x0A], [CHR 0x0B], [CHR 0x0C], [CHR 0x0D], [CHR 0x20],
      [CHR 0xC2, CHR 0x85], [CHR 0xC2, CHR 0xA0], [CHR 0xE1, CHR 0x9A, CHR 0x80],
      [CHR 0xE2, CHR 0x80, CHR 0x80], [CHR 0xE2, CHR 0x80, CHR 0x81],
      [CHR 0xE2, CHR 0x80, CHR 0x82], [CHR 0xE2, CHR 0x80, CHR 0x83],
      [CHR 0xE2, CHR 0x80, CHR 0x84], [CHR 0xE2, CHR 0x80, CHR 0x85],
      [CHR 0xE2, CHR 0x80, CHR 0x86], [CHR 0xE2, CHR 0x80, CHR 0x87],
      [CHR 0xE2, CHR 0x80, CHR 0x88], [CHR 0xE2, CHR 0x80, CHR 0x89],
      [CHR 0xE2, CHR 0x80, CHR 0x8A], [CHR 0xE2, CHR 0x80, CHR 0xA8],
      [CHR 0xE2, CHR 0x80, CHR 0xA9], [CHR 0xE2, CHR 0x80, CHR 0xAF],
      [CHR 0xE2, CHR 0x81, CHR 0x9F], [CHR 0xE3, CHR 0x80, CHR 0x80]]"

function trim_left_by :: "string list \<Rightarrow> string \<Rightarrow> string" where
  "trim_left_by ws s =
     (case find (\<lambda>w. w \<noteq> [] \<and> has_prefix s w) ws of
        None \<Rightarrow> s
      | Some w \<Rightarrow> trim_left_by ws (drop (length w) s))"
  by pat_completeness auto
termination
proof (relation "measure (\<lambda>(ws, s). length s)", simp)
  fix ws :: "string list" and s w
  assume "find (\<lambda>w. w \<noteq> [] \<and> has_prefix s w) ws = Some w"
  then have "w \<noteq> []" and "has_prefix s w" by (auto simp: find_Some_iff)
  then show "((ws, drop (length w) s), (ws, s)) \<in> measure (\<lambda>(ws, s). length s)"
    by (cases s; cases w) auto
qed

declare trim_left_by.simps [simp del]

lemma trim_left_by_None:
  "find (\<lambda>w. w \<noteq> [] \<and> has_prefix s w) ws = None \<Longrightarrow> trim_left_by ws s = s"
  by (subst trim_left_by.simps) simp

lemma trim_left_by_Some:
  "find (\<lambda>w. w \<noteq> [] \<and> has_prefix s w) ws = Some w \<Longrightarrow>
   trim_left_by ws s = trim_left_by ws (drop (length w) s)"
  by (subst trim_left_by.simps) simp

definition trim_space :: "string \<Rightarrow> string" where
  "trim_space s = rev (trim_left_by (map rev ws_seqs) (rev (trim_left_by ws_seqs s)))"

lemma trim_left_by_suffix: "\<exists>k. trim_left_by ws s = drop k s"
proof (induction ws s rule: trim_left_by.induct)
  case (1 ws s)
  show ?case
  proof (cases "find (\<lambda>w. w \<noteq> [] \<and> has_prefix s w) ws")
    case None
    then show ?thesis by (auto simp: trim_left_by_None intro: exI [of _ 0])
  next
    case (Some w)
    with 1 obtain k where "trim_left_by ws (drop (length w) s) = drop k (drop (length w) s)"
      by blast
    with Some show ?thesis by (auto simp: trim_left_by_Some)
  qed
qed

lemma trim_left_by_clean:
  "w \<in> set ws \<Longrightarrow> w \<noteq> [] \<Longrightarrow> \<not> has_prefix (trim_left_by ws s) w"
proof (induction ws s rule: trim_left_by.induct)
  case (1 ws s)
  show ?case
  proof (cases "find (\<lambda>w. w \<noteq> [] \<and> has_prefix s w) ws")
    case None
    with "1.prems" show ?thesis by (auto simp: trim_left_by_None find_None_iff)
  next
    case (Some w')
    with "1.IH" [OF Some] "1.prems" show ?thesis by (simp add: trim_left_by_Some)
  qed
qed

lemma trim_left_by_id:
  "(\<And>w. w \<in> set ws \<Longrightarrow> w \<noteq> [] \<Longrightarrow> \<not> has_prefix s w) \<Longrightarrow> trim_left_by ws s = s"
  by (rule trim_left_by_None) (auto simp: find_None_iff)

lemma trim_space_infix: "\<exists>a b. s = a @ trim_space s @ b"
proof -
  define t where "t = trim_left_by ws_seqs s"
  obtain j where j: "t = drop j s"
    using trim_left_by_suffix unfolding t_def by blast
  obtain k where k: "trim_left_by (map rev ws_seqs) (rev t) = drop k (rev t)"
    using trim_left_by_suffix by blast
  have "trim_space s = take (length t - k) t"
    by (simp add: trim_space_def t_def [symmetric] k rev_drop)
  then have "t = trim_space s @ drop (length t - k) t" by simp
  then have "s = take j s @ trim_space s @ drop (length t - k) t"
    using j by (metis append_take_drop_id)
  then show ?thesis by blast
qed

lemma trim_space_set: "set (trim_space s) \<subseteq> set s"
proof -
  obtain a b where "s = a @ trim_space s @ b" using trim_space_infix by blast
  then show ?thesis by (metis Un_iff set_append subsetI)
qed

lemma length_trim_space: "length (trim_space s) \<le> length s"
proof -
  obtain a b where "s = a @ trim_space s @ b" using trim_space_infix by blast
  then have "length s = length a + length (trim_space s) + length b"
    by (metis add.assoc length_append)
  then show ?thesis by simp
qed

lemma trim_space_no_suffix:
  assumes "w \<in> set ws_seqs" and "w \<noteq> []"
  shows "\<not> has_suffix (trim_space s) w"
  using trim_left_by_clean [of "rev w" "map rev ws_seqs"] assms
  by (auto simp: trim_space_def has_suffix_def)

lemma trim_space_no_prefix:
  assumes "w \<in> set ws_seqs" and "w \<noteq> []"
  shows "\<not> has_prefix (trim_space s) w"
proof
  assume "has_prefix (trim_space s) w"
  then obtain u where u: "trim_space s = w @ u" by (auto simp: has_prefix_iff)
  define t where "t = trim_left_by ws_seqs s"
  obtain k where k: "trim_left_by (map rev ws_seqs) (rev t) = drop k (rev t)"
    using trim_left_by_suffix by blast
  have "trim_space s = take (length t - k) t"
    by (simp add: trim_space_def t_def [symmetric] k rev_drop)
  then have "t = w @ u @ drop (length t - k) t"
    using u by (metis append_assoc append_take_drop_id)
  then have "has_prefix t w" by (metis has_prefix_append)
  with trim_left_by_clean [OF assms] show False by (simp add: t_def)
qed

lemma trim_space_idem [simp]: "trim_space (trim_space s) = trim_space s"
proof -
  have left: "trim_left_by ws_seqs (trim_space s) = trim_space s"
    by (rule trim_left_by_id) (rule trim_space_no_prefix)
  have "trim_left_by (map rev ws_seqs) (rev (trim_space s)) = rev (trim_space s)"
  proof (rule trim_left_by_id)
    fix w assume "w \<in> set (map rev ws_seqs)" and "w \<noteq> []"
    then show "\<not> has_prefix (rev (trim_space s)) w"
      using trim_space_no_suffix [of "rev w" s] by (auto simp: has_suffix_def)
  qed
  then show ?thesis unfolding trim_space_def [of "trim_space s"] left by simp
qed

text \<open>Trimming stops at a byte that occurs in no white space sequence.\<close>

lemma has_prefix_sep:
  "c \<notin> set w \<Longrightarrow> has_prefix (s @ c # t) w \<longleftrightarrow> has_prefix s w"
proof (induction s arbitrary: w)
  case Nil
  then show ?case by (cases w) auto
next
  case (Cons x s)
  then show ?case by (cases w) auto
qed

lemma trim_left_by_sep:
  "\<forall>w\<in>set ws. c \<notin> set w \<Longrightarrow> trim_left_by ws (s @ c # t) = trim_left_by ws s @ c # t"
proof (induction ws s rule: trim_left_by.induct)
  case (1 ws s)
  have eq: "find (\<lambda>w. w \<noteq> [] \<and> has_prefix (s @ c # t) w) ws =
      find (\<lambda>w. w \<noteq> [] \<and> has_prefix s w) ws"
    using "1.prems" by (intro find_cong) (auto simp: has_prefix_sep)
  show ?case
  proof (cases "find (\<lambda>w. w \<noteq> [] \<and> has_prefix s w) ws")
    case None
    then show ?thesis using eq by (simp add: trim_left_by_None)
  next
    case (Some w)
    then have "has_prefix s w" by (auto simp: find_Some_iff)
    then have "drop (length w) (s @ c # t) = drop (length w) s @ c # t"
      by (auto simp: has_prefix_iff)
    with Some eq "1.IH" [OF Some "1.prems"] show ?thesis by (simp add: trim_left_by_Some)
  qed
qed

definition trimmed :: "string \<Rightarrow> bool" where
  "trimmed s \<longleftrightarrow> trim_space s = s"

lemma trimmed_left_right:
  assumes "trimmed s"
  shows "trim_left_by ws_seqs s = s" and "trim_left_by (map rev ws_seqs) (rev s) = rev s"
proof -
  obtain k where k: "trim_left_by ws_seqs s = drop k s" using trim_left_by_suffix by blast
  obtain j where j: "trim_left_by (map rev ws_seqs) (rev (drop k s)) = drop j (rev (drop k s))"
    using trim_left_by_suffix by blast
  have "rev (drop j (rev (drop k s))) = s"
    using assms by (simp add: trimmed_def trim_space_def k j)
  then have "length (rev (drop j (rev (drop k s)))) = length s" by (rule arg_cong)
  then have "length s = length s - k - j" by simp
  then have "length s = 0 \<or> k = 0 \<and> j = 0" by arith
  then show "trim_left_by ws_seqs s = s" and "trim_left_by (map rev ws_seqs) (rev s) = rev s"
    using k j by auto
qed

lemma trimmed_sep:
  assumes "trimmed s" and "trimmed t" and "\<forall>w\<in>set ws_seqs. c \<notin> set w"
  shows "trimmed (s @ c # t)"
proof -
  have "\<forall>w\<in>set (map rev ws_seqs). c \<notin> set w" using assms(3) by simp
  then have "trim_left_by (map rev ws_seqs) (rev t @ c # rev s) = rev t @ c # rev s"
    using trim_left_by_sep trimmed_left_right(2) [OF assms(2)] by metis
  moreover have "trim_left_by ws_seqs (s @ c # t) = s @ c # t"
    using trim_left_by_sep [OF assms(3)] trimmed_left_right(1) [OF assms(1)] by simp
  ultimately show ?thesis by (simp add: trimmed_def trim_space_def)
qed

text \<open>A trimmed string does not end in a carriage return, so a line scanner keeps it whole.\<close>

lemma trim_space_no_cr: "\<not> has_suffix (trim_space s) [cr]"
  by (rule trim_space_no_suffix) (simp_all add: ws_seqs_def)

text \<open>
  \<open>strings.ToLower\<close>: bytes \<open>A\<close> to \<open>Z\<close> on an ASCII string; on any other string the Unicode case
  tables decide, which are the parameter \<open>unicode_lower\<close>.
\<close>

definition ascii_lower :: "char \<Rightarrow> char" where
  "ascii_lower c =
     (if 65 \<le> (of_char c :: nat) \<and> (of_char c :: nat) \<le> 90 then char_of ((of_char c :: nat) + 32)
      else c)"

definition is_ascii :: "string \<Rightarrow> bool" where
  "is_ascii s = list_all (\<lambda>c. (of_char c :: nat) < 128) s"

definition to_lower :: "(string \<Rightarrow> string) \<Rightarrow> string \<Rightarrow> string" where
  "to_lower unicode_lower s = (if is_ascii s then map ascii_lower s else unicode_lower s)"

lemma ascii_lower_not_upper:
  "\<not> (65 \<le> (of_char (ascii_lower c) :: nat) \<and> (of_char (ascii_lower c) :: nat) \<le> 90)"
  by (auto simp: ascii_lower_def)

lemma ascii_lower_idem [simp]: "ascii_lower (ascii_lower c) = ascii_lower c"
  unfolding ascii_lower_def [of "ascii_lower c"] using ascii_lower_not_upper [of c] by auto

section \<open>\<open>bufio.Scanner\<close> with \<open>ScanLines\<close>\<close>

text \<open>
  \<open>ScanLines\<close> cuts at newlines, drops one trailing carriage return of a line and returns a
  last unterminated line if it is not empty.  The scanner fails with \<open>ErrTooLong\<close> when its
  buffer, which grows to at most \<open>maxtok\<close> bytes, is full and holds no newline: exactly when a line
  of at least \<open>maxtok\<close> bytes comes up.  Tokens before that line have been delivered.  The second
  component says whether the scan ended with \<open>ErrTooLong\<close>.
\<close>

definition drop_cr :: "string \<Rightarrow> string" where
  "drop_cr s = trim_suffix s [cr]"

lemma length_tl_dropWhile: "s \<noteq> [] \<Longrightarrow> length (tl (dropWhile P s)) < length s"
  by (cases s) (use length_dropWhile_le [of P "tl s"] in \<open>auto simp: less_Suc_eq_le\<close>)

function scan_lines :: "nat \<Rightarrow> string \<Rightarrow> string list \<times> bool" where
  "scan_lines maxtok s =
     (if s = [] then ([], False)
      else let line = takeWhile (\<lambda>c. c \<noteq> nl) s; rest = tl (dropWhile (\<lambda>c. c \<noteq> nl) s) in
        if maxtok \<le> length line then ([], True)
        else case scan_lines maxtok rest of (ts, err) \<Rightarrow> (drop_cr line # ts, err))"
  by pat_completeness auto
termination
proof (relation "measure (\<lambda>(m, s). length s)", simp)
  fix maxtok :: nat and s line rest :: string
  assume "s \<noteq> []" and "rest = tl (dropWhile (\<lambda>c. c \<noteq> nl) s)"
  then have "length rest < length s" by (simp only: length_tl_dropWhile not_False_eq_True)
  then show "((maxtok, rest), (maxtok, s)) \<in> measure (\<lambda>(m, s). length s)" by simp
qed

declare scan_lines.simps [simp del]

text \<open>The bytes a file holds after the lines \<open>ls\<close> were appended to it, each with a newline.\<close>

definition unlines :: "string list \<Rightarrow> string" where
  "unlines ls = concat (map (\<lambda>l. l @ [nl]) ls)"

lemma unlines_simps [simp]:
  "unlines [] = []" "unlines (l # ls) = l @ nl # unlines ls"
  "unlines (ls @ ls') = unlines ls @ unlines ls'"
  by (simp_all add: unlines_def)

lemma length_unlines: "length (unlines ls) = (\<Sum>l\<leftarrow>ls. length l + 1)"
  by (induction ls) simp_all

text \<open>A line the scanner gives back as it was written.\<close>

definition plain_line :: "nat \<Rightarrow> string \<Rightarrow> bool" where
  "plain_line maxtok l \<longleftrightarrow> nl \<notin> set l \<and> \<not> has_suffix l [cr] \<and> length l < maxtok"

lemma drop_cr_plain: "plain_line maxtok l \<Longrightarrow> drop_cr l = l"
  by (simp add: drop_cr_def plain_line_def trim_suffix_def)

lemma scan_lines_Nil [simp]: "scan_lines maxtok [] = ([], False)"
  by (simp add: scan_lines.simps)

lemma takeWhile_line: "nl \<notin> set l \<Longrightarrow> takeWhile (\<lambda>c. c \<noteq> nl) (l @ nl # s) = l"
  by (induction l) auto

lemma dropWhile_line: "nl \<notin> set l \<Longrightarrow> dropWhile (\<lambda>c. c \<noteq> nl) (l @ nl # s) = nl # s"
  by (induction l) auto

lemma scan_lines_step:
  "nl \<notin> set l \<Longrightarrow> scan_lines maxtok (l @ nl # s) =
     (if maxtok \<le> length l then ([], True)
      else case scan_lines maxtok s of (ts, err) \<Rightarrow> (drop_cr l # ts, err))"
  by (subst scan_lines.simps) (simp add: takeWhile_line dropWhile_line)

lemma scan_unlines:
  "list_all (plain_line maxtok) ls \<Longrightarrow> scan_lines maxtok (unlines ls) = (ls, False)"
proof (induction ls)
  case Nil
  then show ?case by simp
next
  case (Cons l ls)
  then have "nl \<notin> set l" and "\<not> maxtok \<le> length l" by (auto simp: plain_line_def)
  with Cons show ?case by (simp add: scan_lines_step drop_cr_plain [of maxtok])
qed

lemma scan_unlines_too_long:
  "(\<And>l. l \<in> set ls \<Longrightarrow> nl \<notin> set l) \<Longrightarrow> \<exists>l\<in>set ls. maxtok \<le> length l \<Longrightarrow>
   snd (scan_lines maxtok (unlines ls @ s))"
proof (induction ls)
  case Nil
  then show ?case by simp
next
  case (Cons l ls)
  have "snd (scan_lines maxtok (unlines ls @ s))" if "length l < maxtok"
    using Cons that by force
  with Cons.prems(1) [of l] show ?case
    by (auto simp: scan_lines_step split: prod.splits)
qed

text \<open>Scanning after a complete line continues as a fresh scan; an error is never undone.\<close>

definition line_closed :: "string \<Rightarrow> bool" where
  "line_closed s \<longleftrightarrow> s = [] \<or> last s = nl"

lemma scan_lines_rest:
  assumes "s \<noteq> []" and "length (takeWhile (\<lambda>c. c \<noteq> nl) s) < maxtok"
  shows "scan_lines maxtok s =
    (case scan_lines maxtok (tl (dropWhile (\<lambda>c. c \<noteq> nl) s)) of
       (ts, err) \<Rightarrow> (drop_cr (takeWhile (\<lambda>c. c \<noteq> nl) s) # ts, err))"
  using assms by (subst scan_lines.simps) (simp add: Let_def)

lemma scan_lines_long:
  "s \<noteq> [] \<Longrightarrow> maxtok \<le> length (takeWhile (\<lambda>c. c \<noteq> nl) s) \<Longrightarrow> scan_lines maxtok s = ([], True)"
  by (subst scan_lines.simps) (simp add: Let_def)

lemma scan_lines_append:
  "line_closed s \<Longrightarrow> \<not> snd (scan_lines maxtok s) \<Longrightarrow>
   scan_lines maxtok (s @ t) =
     (case scan_lines maxtok t of (ts, err) \<Rightarrow> (fst (scan_lines maxtok s) @ ts, err))"
proof (induction maxtok s rule: scan_lines.induct)
  case (1 maxtok s)
  show ?case
  proof (cases "s = []")
    case True
    then show ?thesis by simp
  next
    case False
    let ?l = "takeWhile (\<lambda>c. c \<noteq> nl) s" and ?r = "tl (dropWhile (\<lambda>c. c \<noteq> nl) s)"
    have mem: "nl \<in> set s" using False "1.prems"(1) last_in_set [of s] by (simp add: line_closed_def)
    have short: "length ?l < maxtok"
      using False "1.prems"(2) scan_lines_long [of s maxtok] by fastforce
    have app: "takeWhile (\<lambda>c. c \<noteq> nl) (s @ t) = ?l" "tl (dropWhile (\<lambda>c. c \<noteq> nl) (s @ t)) = ?r @ t"
      using mem by (simp_all add: dropWhile_eq_Nil_conv tl_append2)
    have "line_closed ?r"
    proof (cases "?r = []")
      case False
      then have "last ?r = last s"
        by (metis last_appendR last_tl takeWhile_dropWhile_id tl_Nil)
      with \<open>s \<noteq> []\<close> "1.prems"(1) show ?thesis by (simp add: line_closed_def)
    qed (simp add: line_closed_def)
    moreover have "\<not> snd (scan_lines maxtok ?r)"
      using "1.prems"(2) scan_lines_rest [OF False short] by (auto split: prod.splits)
    ultimately have "scan_lines maxtok (?r @ t) =
        (case scan_lines maxtok t of (ts, err) \<Rightarrow> (fst (scan_lines maxtok ?r) @ ts, err))"
      using "1.IH" [OF False refl refl] short by simp
    then show ?thesis
      using scan_lines_rest [OF False short] scan_lines_rest [of "s @ t" maxtok] False short app
      by (simp split: prod.splits)
  qed
qed

lemma scan_lines_err_append:
  "snd (scan_lines maxtok s) \<Longrightarrow> snd (scan_lines maxtok (s @ t))"
proof (induction maxtok s rule: scan_lines.induct)
  case (1 maxtok s)
  let ?l = "takeWhile (\<lambda>c. c \<noteq> nl) s" and ?r = "tl (dropWhile (\<lambda>c. c \<noteq> nl) s)"
  from "1.prems" have ne: "s \<noteq> []" by auto
  show ?case
  proof (cases "maxtok \<le> length ?l")
    case True
    have "length ?l \<le> length (takeWhile (\<lambda>c. c \<noteq> nl) (s @ t))"
      using length_takeWhile_le [of "\<lambda>c. c \<noteq> nl" s] by (auto simp: takeWhile_append)
    with True ne show ?thesis by (simp add: scan_lines_long)
  next
    case False
    then have short: "length ?l < maxtok" by simp
    from "1.prems" scan_lines_rest [OF ne short] have err: "snd (scan_lines maxtok ?r)"
      by (auto split: prod.splits)
    then have "?r \<noteq> []" by auto
    then have mem: "nl \<in> set s" using dropWhile_eq_Nil_conv [of "\<lambda>c. c \<noteq> nl" s] by fastforce
    have app: "takeWhile (\<lambda>c. c \<noteq> nl) (s @ t) = ?l" "tl (dropWhile (\<lambda>c. c \<noteq> nl) (s @ t)) = ?r @ t"
      using mem by (simp_all add: dropWhile_eq_Nil_conv tl_append2)
    have "snd (scan_lines maxtok (?r @ t))"
      using "1.IH" [OF ne refl refl _ err] short by simp
    then show ?thesis
      using scan_lines_rest [of "s @ t" maxtok] ne short app by (auto split: prod.splits)
  qed
qed

lemma scan_lines_snoc:
  assumes "line_closed s" and "\<not> snd (scan_lines maxtok s)" and "plain_line maxtok l"
  shows "scan_lines maxtok (s @ l @ [nl]) = (fst (scan_lines maxtok s) @ [l], False)"
  using scan_lines_append [OF assms(1,2), of "unlines [l]"] scan_unlines [of maxtok "[l]"] assms(3)
  by simp

lemma scan_lines_no_nl: "t \<in> set (fst (scan_lines maxtok s)) \<Longrightarrow> nl \<notin> set t"
proof (induction maxtok s rule: scan_lines.induct)
  case (1 maxtok s)
  have sub: "set (drop_cr x) \<subseteq> set x" for x
    by (auto simp: drop_cr_def trim_suffix_def dest: in_set_takeD)
  have "nl \<notin> set (takeWhile (\<lambda>c. c \<noteq> nl) s)" by (auto dest: set_takeWhileD)
  with 1 sub show ?case
    by (subst (asm) scan_lines.simps)
      (auto simp: Let_def split: if_splits prod.splits)
qed

section \<open>64-bit floats\<close>

text \<open>
  A \<open>float64\<close> as far as the program looks into it: it compares, tests for integral values and
  passes on.  The finite values are rationals (the two zeros are identified, which no comparison
  can tell apart).  \<open>strconv.ParseFloat(s, 64)\<close> is a parameter of the definitions that use it,
  a function to \<^typ>\<open>'a option\<close> with \<^const>\<open>None\<close> for an error.
\<close>

datatype float64 = F64 rat | F64_PosInf | F64_NegInf | F64_NaN

fun f64_less :: "float64 \<Rightarrow> float64 \<Rightarrow> bool" where
  "f64_less (F64 x) (F64 y) = (x < y)"
| "f64_less F64_NaN y = False"
| "f64_less x F64_NaN = False"
| "f64_less F64_NegInf y = (y \<noteq> F64_NegInf)"
| "f64_less x F64_PosInf = (x \<noteq> F64_PosInf)"
| "f64_less x y = False"

definition f64_eq :: "float64 \<Rightarrow> float64 \<Rightarrow> bool" where
  "f64_eq x y \<longleftrightarrow> x = y \<and> x \<noteq> F64_NaN"

text \<open>
  \<open>int64(x)\<close> truncates a value whose integral part an \<open>int64\<close> can hold; the language leaves the
  result for any other value to the implementation, the parameter \<open>oor\<close>.
\<close>

definition rat_trunc :: "rat \<Rightarrow> int" where
  "rat_trunc q = (if q < 0 then - \<lfloor>- q\<rfloor> else \<lfloor>q\<rfloor>)"

fun f64_to_int64 :: "(float64 \<Rightarrow> int) \<Rightarrow> float64 \<Rightarrow> int" where
  "f64_to_int64 oor (F64 q) = (if int64_range (rat_trunc q) then rat_trunc q else oor (F64 q))"
| "f64_to_int64 oor x = oor x"

text \<open>
  \<open>float64(n)\<close> of an \<open>int64\<close>: rounded to 53 significant bits, to the nearest value and to the
  even one of two nearest.
\<close>

definition round53 :: "nat \<Rightarrow> nat" where
  "round53 a =
     (let k = nat (bitlen (int a)) - 53; q = a div 2 ^ k; r = a mod 2 ^ k in
      if k = 0 then a
      else if 2 * r > 2 ^ k \<or> (2 * r = 2 ^ k \<and> odd q) then (q + 1) * 2 ^ k else q * 2 ^ k)"

definition f64_of_int64 :: "int \<Rightarrow> float64" where
  "f64_of_int64 n =
     F64 (of_int (if n < 0 then - int (round53 (nat (- n))) else int (round53 (nat n))))"

lemma bitlen_le_53: "a < 2 ^ 53 \<Longrightarrow> nat (bitlen (int a)) - 53 = 0"
  using bitlen_le_iff_power [of "int a" 53] by simp

lemma round53_exact: "a \<le> 2 ^ 53 \<Longrightarrow> round53 a = a"
proof (cases "a = 2 ^ 53")
  case True
  have "bitlen (2 ^ 53) = 54"
    using bitlen_pow2 [of 1 53] by (simp add: bitlen_alt_def)
  with True show ?thesis by (simp add: round53_def)
next
  case False
  moreover assume "a \<le> 2 ^ 53"
  ultimately show ?thesis by (simp add: round53_def bitlen_le_53)
qed

lemma f64_of_int64_exact: "\<bar>n\<bar> \<le> 2 ^ 53 \<Longrightarrow> f64_of_int64 n = F64 (of_int n)"
  by (auto simp: f64_of_int64_def round53_exact nat_le_iff)

lemma rat_trunc_of_int [simp]: "rat_trunc (of_int n) = n"
  by (simp add: rat_trunc_def flip: of_int_minus)

end
