(* ===== verification/GoTime.thy ===== *)
theory GoTime
  imports GoLib "HOL-Library.Monad_Syntax" "HOL-Library.Product_Lexorder"
begin

text \<open>
  Go's \<open>time.Parse\<close> on the layout \<open>NginxTimeLayout\<close> and \<open>Time.Format\<close> on \<open>CHTimeLayout\<close>
  (\<open>config/config.go\<close>), which \<open>ParseField\<close> uses to rewrite \<open>time_local\<close>.  The parser is written
  chunk by chunk, the way \<open>time.Parse\<close> walks over the layout, with its leniencies: a month name
  in any case, a one-digit hour, a fraction after the seconds, any number of spaces before the
  zone.  A theorem orders the printed times as the wall clock times they stand for.
\<close>

section \<open>Wall clock times\<close>

text \<open>The date and clock of a \<open>time.Time\<close> in its own location.\<close>

datatype civil = Civil (year: nat) (month: nat) (day: nat) (hour: nat) (minute: nat) (second: nat)

definition is_leap :: "nat \<Rightarrow> bool" where
  "is_leap y \<longleftrightarrow> 4 dvd y \<and> (\<not> 100 dvd y \<or> 400 dvd y)"

definition days_in :: "nat \<Rightarrow> nat \<Rightarrow> nat" where
  "days_in m y =
     (if m = 2 then (if is_leap y then 29 else 28)
      else if m \<in> {4, 6, 9, 11} then 30 else 31)"

definition civil_valid :: "civil \<Rightarrow> bool" where
  "civil_valid c \<longleftrightarrow>
     year c < 10000 \<and> 1 \<le> month c \<and> month c \<le> 12 \<and>
     1 \<le> day c \<and> day c \<le> days_in (month c) (year c) \<and>
     hour c < 24 \<and> minute c < 60 \<and> second c < 60"

text \<open>Chronological order of wall clock times.\<close>

definition civil_key :: "civil \<Rightarrow> nat \<times> nat \<times> nat \<times> nat \<times> nat \<times> nat" where
  "civil_key c = (year c, month c, day c, hour c, minute c, second c)"

lemma civil_key_inject: "civil_key c = civil_key d \<Longrightarrow> c = d"
  by (cases c; cases d) (simp add: civil_key_def)

instantiation civil :: linorder
begin

definition less_eq_civil :: "civil \<Rightarrow> civil \<Rightarrow> bool" where
  "less_eq_civil c d \<longleftrightarrow> civil_key c \<le> civil_key d"

definition less_civil :: "civil \<Rightarrow> civil \<Rightarrow> bool" where
  "less_civil c d \<longleftrightarrow> civil_key c < civil_key d"

instance
  by standard
    (auto simp only: less_eq_civil_def less_civil_def less_le_not_le
      intro: order_trans civil_key_inject antisym linear)

end

section \<open>\<open>time.Parse("02/Jan/2006:15:04:05 -0700", value)\<close>\<close>

text \<open>\<open>time.skip\<close>: the literal text of the layout; a space in it stands for any run of spaces.\<close>

function skip_layout :: "string \<Rightarrow> string \<Rightarrow> string option" where
  "skip_layout v [] = Some v"
| "skip_layout v (p # ps) =
     (if p = CHR '' ''
      then if v \<noteq> [] \<and> hd v \<noteq> CHR '' '' then None
           else skip_layout (dropWhile (\<lambda>c. c = CHR '' '') v) (dropWhile (\<lambda>c. c = CHR '' '') ps)
      else if v = [] \<or> hd v \<noteq> p then None
      else skip_layout (tl v) ps)"
  by pat_completeness auto
termination
  by (relation "measure (\<lambda>(v, p). length p)") (auto simp: less_Suc_eq_le length_dropWhile_le)

text \<open>\<open>time.getnum\<close>: two digits, or one when not \<open>fixed\<close>.\<close>

fun getnum :: "bool \<Rightarrow> string \<Rightarrow> (nat \<times> string) option" where
  "getnum fixed [] = None"
| "getnum fixed [c] =
     (if \<not> is_digit c \<or> fixed then None else Some (digit_val c, []))"
| "getnum fixed (c # d # v) =
     (if \<not> is_digit c then None
      else if \<not> is_digit d then (if fixed then None else Some (digit_val c, d # v))
      else Some (digit_val c * 10 + digit_val d, v))"

definition short_month_names :: "string list" where
  "short_month_names =
     [''Jan'', ''Feb'', ''Mar'', ''Apr'', ''May'', ''Jun'', ''Jul'', ''Aug'', ''Sep'', ''Oct'',
      ''Nov'', ''Dec'']"

text \<open>\<open>time.lookup\<close> with \<open>match\<close>: the first name that is a prefix, ignoring ASCII case.\<close>

fun lookup_name :: "nat \<Rightarrow> string list \<Rightarrow> string \<Rightarrow> (nat \<times> string) option" where
  "lookup_name i [] v = None"
| "lookup_name i (n # ns) v =
     (if length n \<le> length v \<and> map ascii_lower (take (length n) v) = map ascii_lower n
      then Some (i, drop (length n) v) else lookup_name (Suc i) ns v)"

text \<open>The four-digit year.\<close>

definition get_year :: "string \<Rightarrow> (nat \<times> string) option" where
  "get_year v =
     (if length v < 4 \<or> \<not> list_all is_digit (take 4 v) then None
      else Some (digits_val (take 4 v), drop 4 v))"

text \<open>A fraction of a second in the value where the layout has none is skipped.\<close>

definition skip_fraction :: "string \<Rightarrow> string" where
  "skip_fraction v =
     (if 2 \<le> length v \<and> (hd v = CHR ''.'' \<or> hd v = CHR '','') \<and> is_digit (v ! 1)
      then dropWhile is_digit (tl v) else v)"

text \<open>The zone \<open>-0700\<close>: its offset in seconds.  Offsets of 24 hours and 60 minutes are accepted.\<close>

definition get_zone :: "string \<Rightarrow> (int \<times> string) option" where
  "get_zone v =
     (if length v < 5 then None
      else do {
        (hr, _) \<leftarrow> getnum True (take 2 (drop 1 v));
        (mm, _) \<leftarrow> getnum True (take 2 (drop 3 v));
        if 24 < hr \<or> 60 < mm then None
        else if hd v = CHR ''+'' then Some (int ((hr * 60 + mm) * 60), drop 5 v)
        else if hd v = CHR ''-'' then Some (- int ((hr * 60 + mm) * 60), drop 5 v)
        else None
      })"

text \<open>A parsed \<open>time.Time\<close>: its wall clock and the offset of its location from UTC.\<close>

definition parse_nginx_time :: "string \<Rightarrow> (civil \<times> int) option" where
  "parse_nginx_time value = do {
     (dd, v) \<leftarrow> getnum True value;
     v \<leftarrow> skip_layout v ''/'';
     (mon, v) \<leftarrow> lookup_name 1 short_month_names v;
     v \<leftarrow> skip_layout v ''/'';
     (yy, v) \<leftarrow> get_year v;
     v \<leftarrow> skip_layout v '':'';
     (hh, v) \<leftarrow> getnum False v;
     v \<leftarrow> (if 24 \<le> hh then None else skip_layout v '':'');
     (mi, v) \<leftarrow> getnum True v;
     v \<leftarrow> (if 60 \<le> mi then None else skip_layout v '':'');
     (ss, v) \<leftarrow> getnum True v;
     v \<leftarrow> (if 60 \<le> ss then None else skip_layout (skip_fraction v) '' '');
     (off, v) \<leftarrow> get_zone v;
     if v \<noteq> [] \<or> dd < 1 \<or> days_in mon yy < dd then None
     else Some (Civil yy mon dd hh mi ss, off)
   }"

section \<open>\<open>Time.Format("2006-01-02 15:04:05")\<close>\<close>

definition format_ch_time :: "civil \<Rightarrow> string" where
  "format_ch_time c =
     pad_zero 4 (year c) @ CHR ''-'' # pad_zero 2 (month c) @ CHR ''-'' # pad_zero 2 (day c) @
     CHR '' '' # pad_zero 2 (hour c) @ CHR '':'' # pad_zero 2 (minute c) @ CHR '':'' #
     pad_zero 2 (second c)"

text \<open>The way nginx writes \<open>$time_local\<close>.\<close>

definition nginx_time :: "civil \<Rightarrow> bool \<Rightarrow> nat \<Rightarrow> nat \<Rightarrow> string" where
  "nginx_time c west oh om =
     pad_zero 2 (day c) @ CHR ''/'' # short_month_names ! (month c - 1) @ CHR ''/'' #
     pad_zero 4 (year c) @ CHR '':'' # pad_zero 2 (hour c) @ CHR '':'' # pad_zero 2 (minute c) @
     CHR '':'' # pad_zero 2 (second c) @ CHR '' '' #
     (if west then CHR ''-'' else CHR ''+'') # pad_zero 2 oh @ pad_zero 2 om"

section \<open>Reading back printed numbers\<close>

lemma pad_zero_2: "n < 100 \<Longrightarrow> pad_zero 2 n = [digit (n div 10), digit (n mod 10)]"
proof -
  assume n: "n < 100"
  show ?thesis
  proof (cases "n < 10")
    case True
    then show ?thesis by (simp add: pad_zero_def show_nat.simps)
  next
    case False
    moreover have "n div 10 < 10" using n by simp
    ultimately show ?thesis by (simp add: pad_zero_def show_nat.simps [of n] show_nat.simps [of "n div 10"])
  qed
qed

lemma getnum_pad [simp]: "n < 100 \<Longrightarrow> getnum fixed (pad_zero 2 n @ s) = Some (n, s)"
  by (simp add: pad_zero_2)

lemma getnum_pad_end [simp]: "n < 100 \<Longrightarrow> getnum fixed (pad_zero 2 n) = Some (n, [])"
  using getnum_pad [of n fixed "[]"] by simp

lemma get_year_pad [simp]: "y < 10000 \<Longrightarrow> get_year (pad_zero 4 y @ s) = Some (y, s)"
  by (simp add: get_year_def length_pad_zero_eq pad_zero_digits)

lemma skip_layout_char [simp]: "p \<noteq> CHR '' '' \<Longrightarrow> skip_layout (p # v) [p] = Some v"
  by simp

lemma skip_layout_space [simp]:
  "skip_layout (CHR '' '' # v) '' '' = Some (dropWhile (\<lambda>c. c = CHR '' '') v)"
  by simp

declare skip_layout.simps [simp del] getnum.simps [simp del]

lemma lookup_month [simp]:
  assumes "1 \<le> m" and "m \<le> 12"
  shows "lookup_name 1 short_month_names (short_month_names ! (m - 1) @ s) = Some (m, s)"
proof -
  have "m = 1 \<or> m = 2 \<or> m = 3 \<or> m = 4 \<or> m = 5 \<or> m = 6 \<or> m = 7 \<or> m = 8 \<or> m = 9 \<or> m = 10 \<or>
      m = 11 \<or> m = 12"
    using assms by arith
  then show ?thesis
    by (elim disjE) (simp_all add: short_month_names_def ascii_lower_def)
qed

lemma lookup_name_bound:
  "lookup_name i ns v = Some (m, s) \<Longrightarrow> i \<le> m \<and> m < i + length ns"
  by (induction i ns v rule: lookup_name.induct) (auto split: if_splits)

lemma two_digits: "is_digit c \<Longrightarrow> is_digit d \<Longrightarrow> digit_val c * 10 + digit_val d < 100"
  using digit_val_less [of c] digit_val_less [of d] by linarith

lemma one_digit: "is_digit c \<Longrightarrow> digit_val c < 100"
  using digit_val_less [of c] by linarith

lemma getnum_bound: "getnum fixed v = Some (n, s) \<Longrightarrow> n < 100"
proof (induction fixed v rule: getnum.induct)
  case (3 fixed c d v)
  then show ?case by (auto simp: getnum.simps two_digits one_digit split: if_splits)
next
  case (2 fixed c)
  then show ?case by (auto simp: getnum.simps one_digit split: if_splits)
qed (simp add: getnum.simps)

lemma get_year_bound: "get_year v = Some (y, s) \<Longrightarrow> y < 10000"
  using digits_val_bound [of "take 4 v"]
  by (auto simp: get_year_def min_def split: if_splits)

lemma parse_nginx_time_valid:
  assumes "parse_nginx_time v = Some (c, off)"
  shows "civil_valid c"
proof -
  obtain dd mon yy hh mi ss v1 v2 v3 v4 where c: "c = Civil yy mon dd hh mi ss"
    and mon: "lookup_name 1 short_month_names v1 = Some (mon, v2)"
    and yy: "get_year v3 = Some (yy, v4)"
    and "hh < 24" "mi < 60" "ss < 60" "1 \<le> dd" "dd \<le> days_in mon yy"
    using assms unfolding parse_nginx_time_def
    by (clarsimp simp: bind_eq_Some_conv linorder_not_less linorder_not_le split: if_splits)
  moreover have "1 \<le> mon \<and> mon \<le> 12"
    using lookup_name_bound [OF mon] by (simp add: short_month_names_def)
  ultimately show ?thesis using get_year_bound [OF yy] by (simp add: civil_valid_def)
qed

lemma skip_fraction_space [simp]: "skip_fraction (CHR '' '' # v) = CHR '' '' # v"
  by (simp add: skip_fraction_def)

lemma get_zone_nginx:
  "oh \<le> 24 \<Longrightarrow> om \<le> 60 \<Longrightarrow>
   get_zone ((if west then CHR ''-'' else CHR ''+'') # pad_zero 2 oh @ pad_zero 2 om) =
     Some ((if west then -1 else 1) * int ((oh * 60 + om) * 60), [])"
  by (simp add: get_zone_def length_pad_zero_eq)

lemma parse_nginx_time_print:
  assumes "civil_valid c" and "oh \<le> 24" and "om \<le> 60"
  shows "parse_nginx_time (nginx_time c west oh om) =
    Some (c, (if west then -1 else 1) * int ((oh * 60 + om) * 60))"
proof -
  have "day c < 100"
    using assms(1) by (auto simp: civil_valid_def days_in_def split: if_splits)
  moreover have "1 \<le> month c" "month c \<le> 12" "1 \<le> day c" "day c \<le> days_in (month c) (year c)"
    and "year c < 10000" "hour c < 24" "minute c < 60" "second c < 60"
    using assms(1) by (simp_all add: civil_valid_def)
  ultimately show ?thesis
    using get_zone_nginx [OF assms(2,3), of west]
    by (cases west; cases c) (simp_all add: parse_nginx_time_def nginx_time_def del: One_nat_def)
qed

section \<open>Printed times are ordered as the times are\<close>

lemma pad_zero_less_iff:
  "n < 10 ^ w \<Longrightarrow> m < 10 ^ w \<Longrightarrow> 0 < w \<Longrightarrow> pad_zero w n < pad_zero w m \<longleftrightarrow> n < m"
  by (simp add: digits_val_less_iff pad_zero_digits length_pad_zero_eq)

lemma pad_zero_inject [simp]: "pad_zero w n = pad_zero w m \<longleftrightarrow> n = m"
  by (metis digits_val_pad_zero)

lemma less_field:
  "length s = length t \<Longrightarrow> s @ c # u < t @ c # v \<longleftrightarrow> s < t \<or> s = t \<and> u < (v :: string)"
  by (induction s t rule: list_induct2) auto

lemma less_number_field:
  "n < 10 ^ w \<Longrightarrow> m < 10 ^ w \<Longrightarrow> 0 < w \<Longrightarrow>
   pad_zero w n @ c # u < pad_zero w m @ c # v \<longleftrightarrow> n < m \<or> n = m \<and> u < (v :: string)"
  by (simp add: less_field length_pad_zero_eq pad_zero_less_iff)

lemma lex_step: "(a :: nat) < b \<or> a \<le> b \<and> P \<longleftrightarrow> a < b \<or> a = b \<and> P"
  by auto

lemma civil_valid_fields:
  assumes "civil_valid c"
  shows "year c < 10 ^ 4" "month c < 10 ^ 2" "day c < 10 ^ 2" "hour c < 10 ^ 2"
    "minute c < 10 ^ 2" "second c < 10 ^ 2"
  using assms by (auto simp: civil_valid_def days_in_def split: if_splits)

lemma format_ch_time_less_iff:
  assumes "civil_valid c" and "civil_valid d"
  shows "format_ch_time c < format_ch_time d \<longleftrightarrow> c < d"
  using civil_valid_fields [OF assms(1)] civil_valid_fields [OF assms(2)]
  by (simp add: format_ch_time_def less_number_field pad_zero_less_iff less_civil_def
      civil_key_def lex_step)

lemma format_ch_time_inject:
  assumes "civil_valid c" and "civil_valid d" and "format_ch_time c = format_ch_time d"
  shows "c = d"
  using format_ch_time_less_iff [OF assms(1,2)] format_ch_time_less_iff [OF assms(2,1)] assms(3)
  by (metis less_irrefl linorder_less_linear)

end
