(* ===== verification/Nginx.thy ===== *)
theory Nginx
  imports GoTime
begin

text \<open>
  Parsing of access log lines (\<open>nginx/nginx.go\<close>, \<open>nginx/json.go\<close>): the conversion of raw field
  values to the Go values that become ClickHouse cells (\<open>ParseField\<close>), the text parser around
  \<open>gonx\<close> and the JSON parser.  The third-party parts are parameters: what \<open>gonx\<close>'s reader returns
  for a text, and the functions of \<open>encoding/json\<close> and \<open>strconv\<close> that print or read floats.
\<close>

section \<open>Field values\<close>

text \<open>A value of type \<open>any\<close> as \<open>ParseField\<close> returns it.\<close>

datatype go_val = VStr string | VInt int | VFloat float64

definition string_fields :: "string list" where
  "string_fields =
     [''remote_addr'', ''remote_user'', ''request'', ''http_referer'', ''http_user_agent'',
      ''request_method'', ''https'']"

definition int_fields :: "string list" where
  "int_fields =
     [''bytes_sent'', ''connections_waiting'', ''connections_active'', ''status'', ''connection'',
      ''request_length'', ''body_bytes_sent'']"

definition float_fields :: "string list" where
  "float_fields =
     [''request_time'', ''upstream_connect_time'', ''upstream_header_time'',
      ''upstream_response_time'', ''msec'']"

definition ParseField :: "(string \<Rightarrow> float64 option) \<Rightarrow> string \<Rightarrow> string \<Rightarrow> go_val" where
  "ParseField parse_float key value =
     (if key = ''time_local'' then
        (case parse_nginx_time value of
           None \<Rightarrow> VStr value
         | Some (t, offset) \<Rightarrow> VStr (format_ch_time t))
      else if key \<in> set string_fields then VStr value
      else if key \<in> set int_fields then
        (case atoi value of None \<Rightarrow> VStr value | Some n \<Rightarrow> VInt n)
      else if key \<in> set float_fields then
        (case parse_float value of None \<Rightarrow> VStr value | Some x \<Rightarrow> VFloat x)
      else VStr value)"

section \<open>Log entries\<close>

text \<open>The interface \<open>LogEntry\<close>: its \<open>Field\<close> method, with \<open>None\<close> for an error.\<close>

type_synonym log_entry = "string \<Rightarrow> string option"

text \<open>
  The results of \<open>reader.Read()\<close> on a text, up to \<open>io.EOF\<close>: \<open>None\<close> is any other error, which is
  logged and skipped.
\<close>

type_synonym gonx_reader = "string \<Rightarrow> log_entry option list"

text \<open>
  \<open>NewParser\<close>: the log format is wrapped in an nginx configuration, in which
  \<open>gonx.NewNginxParser\<close> (the parameter, \<^const>\<open>None\<close> for an error) looks up the log type.
\<close>

definition nginx_config :: "string \<Rightarrow> string" where
  "nginx_config logFormat =
     [nl, CHR 0x09, CHR 0x09] @ ''http {'' @ [nl, CHR 0x09, CHR 0x09, CHR 0x09] @
     ''log_format   main  '' @ [CHR 0x27] @ logFormat @ [CHR 0x27] @ '';'' @
     [nl, CHR 0x09, CHR 0x09] @ ''}'' @ [nl, CHR 0x09]"

definition NewParser ::
  "(string \<Rightarrow> string \<Rightarrow> gonx_reader option) \<Rightarrow> string \<Rightarrow> string \<Rightarrow> gonx_reader option" where
  "NewParser new_nginx_parser logFormat logType = new_nginx_parser (nginx_config logFormat) logType"

definition ParseLogs :: "gonx_reader \<Rightarrow> string list \<Rightarrow> log_entry list" where
  "ParseLogs gonx_read logLines =
     (if logLines = [] then [] else List.map_filter id (gonx_read (join [nl] logLines)))"

section \<open>JSON lines\<close>

text \<open>What \<open>json.Unmarshal\<close> stores in an \<open>any\<close>.\<close>

datatype jvalue =
  JString string | JNumber float64 | JBool bool | JNull
| JArray "jvalue list" | JObject "(string \<times> jvalue) list"

text \<open>
  The library functions of the JSON parser: \<open>json.Unmarshal\<close> into a \<open>map[string]any\<close> (\<open>None\<close> for
  an error; \<open>null\<close> leaves the map empty), \<open>json.Marshal\<close>, \<open>fmt.Sprintf("%v")\<close>,
  \<open>strconv.FormatFloat(x, 'f', -1, 64)\<close>, and the conversion to \<open>int64\<close> of a value out of range.
\<close>

record json_lib =
  unmarshal :: "string \<Rightarrow> (string \<rightharpoonup> jvalue) option"
  marshal :: "jvalue \<Rightarrow> string option"
  sprint_v :: "jvalue \<Rightarrow> string"
  format_float :: "float64 \<Rightarrow> string"
  out_of_range :: "float64 \<Rightarrow> int"

fun anyToString :: "json_lib \<Rightarrow> jvalue \<Rightarrow> string" where
  "anyToString lib (JString s) = s"
| "anyToString lib (JNumber val) =
     (let n = f64_to_int64 (out_of_range lib) val in
      if f64_eq val (f64_of_int64 n) then show_int n else format_float lib val)"
| "anyToString lib (JBool b) = (if b then ''true'' else ''false'')"
| "anyToString lib JNull = []"
| "anyToString lib v = (case marshal lib v of None \<Rightarrow> sprint_v lib v | Some b \<Rightarrow> b)"

text \<open>\<open>JSONEntry\<close> with its \<open>fields\<close> map, and its \<open>Field\<close> method.\<close>

record JSONEntry =
  entry_fields :: "string \<rightharpoonup> string"

definition JSONEntry_Field :: "JSONEntry \<Rightarrow> log_entry" where
  "JSONEntry_Field e name = entry_fields e name"

definition json_entry :: "json_lib \<Rightarrow> (string \<rightharpoonup> jvalue) \<Rightarrow> JSONEntry" where
  "json_entry lib raw = \<lparr>entry_fields = (\<lambda>k. map_option (anyToString lib) (raw k))\<rparr>"

fun parse_json_lines :: "json_lib \<Rightarrow> string list \<Rightarrow> log_entry list" where
  "parse_json_lines lib [] = []"
| "parse_json_lines lib (line # lines) =
     (case unmarshal lib line of
        None \<Rightarrow> parse_json_lines lib lines
      | Some raw \<Rightarrow> JSONEntry_Field (json_entry lib raw) # parse_json_lines lib lines)"

definition ParseJSONLogs :: "json_lib \<Rightarrow> string list \<Rightarrow> log_entry list" where
  "ParseJSONLogs lib logLines = (if logLines = [] then [] else parse_json_lines lib logLines)"

section \<open>Lemmas\<close>

lemma field_classes_disjoint:
  "k \<in> set int_fields \<Longrightarrow> k \<noteq> ''time_local'' \<and> k \<notin> set string_fields \<and> k \<notin> set float_fields"
  "k \<in> set float_fields \<Longrightarrow> k \<noteq> ''time_local'' \<and> k \<notin> set string_fields \<and> k \<notin> set int_fields"
  by (auto simp: int_fields_def float_fields_def string_fields_def)

lemma ParseField_int:
  "k \<in> set int_fields \<Longrightarrow>
   ParseField pf k v = (case atoi v of None \<Rightarrow> VStr v | Some n \<Rightarrow> VInt n)"
  using field_classes_disjoint(1) [of k] by (simp add: ParseField_def)

lemma ParseField_time:
  "ParseField pf ''time_local'' v =
     (case parse_nginx_time v of None \<Rightarrow> VStr v | Some (t, offset) \<Rightarrow> VStr (format_ch_time t))"
  by (simp add: ParseField_def)

lemma ParseLogs_length:
  assumes "\<And>text. length (gonx_read text) \<le> length (split_on nl text)"
    and "\<And>l. l \<in> set ls \<Longrightarrow> nl \<notin> set l"
  shows "length (ParseLogs gonx_read ls) \<le> length ls"
proof (cases "ls = []")
  case False
  have "length (List.map_filter id (gonx_read t)) \<le> length (gonx_read t)" for t
    by (simp add: List.map_filter_def)
  also have "length (gonx_read (join [nl] ls)) \<le> length ls"
    using assms(1) [of "join [nl] ls"] split_on_join [of ls nl] False assms(2) by simp
  finally show ?thesis using False by (simp add: ParseLogs_def)
qed (simp add: ParseLogs_def)

lemma ParseJSONLogs_eq: "ParseJSONLogs lib ls = parse_json_lines lib ls"
  by (simp add: ParseJSONLogs_def)

lemma parse_json_lines_append:
  "parse_json_lines lib (a @ b) = parse_json_lines lib a @ parse_json_lines lib b"
  by (induction a) (auto split: option.split)

lemma parse_json_lines_length: "length (parse_json_lines lib ls) \<le> length ls"
  by (induction ls) (auto split: option.split)

section \<open>\<open>ParseField\<close>\<close>

text \<open>
  C36. \<open>time_local\<close>: a valid date and clock that nginx prints is rewritten to the same date and
  clock in ClickHouse's layout, whatever the zone: the offset is read and dropped.
\<close>

theorem ParseField_time_local:
  assumes "civil_valid c" and "oh \<le> 24" and "om \<le> 60"
  shows "ParseField parse_float ''time_local'' (nginx_time c west oh om) = VStr (format_ch_time c)"
  by (simp add: ParseField_time parse_nginx_time_print [OF assms])

theorem ParseField_time_local_witness:
  "ParseField (\<lambda>_. None) ''time_local'' ''04/Nov/2018:12:30:45 -0730'' = VStr ''2018-11-04 12:30:45''"
proof -
  have "nginx_time (Civil 2018 11 4 12 30 45) True 7 30 = ''04/Nov/2018:12:30:45 -0730''"
    and "format_ch_time (Civil 2018 11 4 12 30 45) = ''2018-11-04 12:30:45''"
    by (simp_all add: nginx_time_def format_ch_time_def pad_zero_def show_nat.simps digit_eval
        short_month_names_def)
  moreover have "civil_valid (Civil 2018 11 4 12 30 45)"
    by (simp add: civil_valid_def days_in_def)
  ultimately show ?thesis
    using ParseField_time_local [of "Civil 2018 11 4 12 30 45" 7 30 "\<lambda>_. None" True] by simp
qed

text \<open>
  The rewritten times are ordered, as strings, exactly as the wall clock times are; in
  particular two lines get the same cell only if they carry the same date and clock.
\<close>

theorem ParseField_time_order:
  assumes "parse_nginx_time v = Some (c, off)" and "parse_nginx_time w = Some (d, off')"
    and "ParseField parse_float ''time_local'' v = VStr s"
    and "ParseField parse_float ''time_local'' w = VStr t"
  shows "(s < t \<longleftrightarrow> c < d) \<and> (s = t \<longleftrightarrow> c = d)"
proof -
  have valid: "civil_valid c" "civil_valid d"
    using assms(1,2) by (auto intro: parse_nginx_time_valid)
  have st: "s = format_ch_time c" "t = format_ch_time d"
    using assms by (simp_all add: ParseField_time)
  then have "s < t \<longleftrightarrow> c < d" using format_ch_time_less_iff [OF valid] by simp
  moreover have "s = t \<longleftrightarrow> c = d" using st format_ch_time_inject [OF valid] by auto
  ultimately show ?thesis by simp
qed

theorem ParseField_time_order_witness:
  "''2023-09-30 23:59:59'' < ''2023-10-01 00:00:00''"
proof -
  have v: "parse_nginx_time ''30/Sep/2023:23:59:59 +0000'' = Some (Civil 2023 9 30 23 59 59, 0)"
    and w: "parse_nginx_time ''01/oct/2023:0:00:00.5 +0200'' = Some (Civil 2023 10 1 0 0 0, 7200)"
    by code_simp+
  have f: "format_ch_time (Civil 2023 9 30 23 59 59) = ''2023-09-30 23:59:59''"
    "format_ch_time (Civil 2023 10 1 0 0 0) = ''2023-10-01 00:00:00''"
    by (simp_all add: format_ch_time_def pad_zero_def show_nat.simps digit_eval)
  have "Civil 2023 9 30 23 59 59 < Civil 2023 10 1 0 0 0"
    by (simp add: less_civil_def civil_key_def)
  then show ?thesis
    using ParseField_time_order [OF v w, where parse_float = "\<lambda>_. None"] f
    by (simp add: ParseField_time v w)
qed

section \<open>JSON\<close>

text \<open>
  C37. A JSON number that is an integer of at most 53 bits reaches an integer column as that
  integer: \<open>json.Unmarshal\<close> gives a float, \<open>anyToString\<close> prints it without exponent or
  fraction, and \<open>ParseField\<close> reads it back.
\<close>

theorem json_integer_roundtrip:
  assumes "\<bar>n\<bar> \<le> 2 ^ 53" and "raw key = Some (JNumber (F64 (of_int n)))" and "key \<in> set int_fields"
  shows "map_option (ParseField parse_float key) (JSONEntry_Field (json_entry lib raw) key) =
    Some (VInt n)"
proof -
  have "int64_range n" using assms(1) by (auto simp: int64_range_def)
  then have "anyToString lib (JNumber (F64 (of_int n))) = show_int n"
    using assms(1) by (simp add: f64_of_int64_exact f64_eq_def)
  then show ?thesis
    using assms \<open>int64_range n\<close>
    by (simp add: JSONEntry_Field_def json_entry_def ParseField_int atoi_show_int)
qed

theorem json_integer_roundtrip_witness:
  "\<forall>lib. map_option (ParseField (\<lambda>_. None) ''body_bytes_sent'')
     (JSONEntry_Field (json_entry lib [''body_bytes_sent'' \<mapsto> JNumber (F64 1048576)])
       ''body_bytes_sent'') = Some (VInt 1048576)"
  using json_integer_roundtrip
    [of 1048576 "[''body_bytes_sent'' \<mapsto> JNumber (F64 1048576)]" "''body_bytes_sent''"]
  by (simp add: int_fields_def)

text \<open>
  JSON lines are parsed one by one: the entries of a batch are those of its parts in order, so
  a line that is not a JSON object costs its own entry and nothing else; and there are at most as
  many entries as lines (the count of parse errors is not negative).
\<close>

theorem ParseJSONLogs_append:
  "ParseJSONLogs lib (a @ bad # b) =
     ParseJSONLogs lib a @
     (case unmarshal lib bad of None \<Rightarrow> [] | Some raw \<Rightarrow> [JSONEntry_Field (json_entry lib raw)]) @
     ParseJSONLogs lib b \<and>
   length (ParseJSONLogs lib (a @ bad # b)) \<le> length (a @ bad # b)"
proof
  show "length (ParseJSONLogs lib (a @ bad # b)) \<le> length (a @ bad # b)"
    unfolding ParseJSONLogs_eq by (rule parse_json_lines_length)
qed (simp add: ParseJSONLogs_eq parse_json_lines_append split: option.split)

end
