(* ===== verification/Config.thy ===== *)
theory Config
  imports GoLib
begin

text \<open>
  Package \<open>config\<close> (src/config/config.go): the configuration records and
  \<open>SetEnvVariables\<close>, the override of the YAML values by environment variables.  The YAML
  parser is a library, a parameter of \<open>Read\<close>.  A Go map is
  an association list with distinct keys, whose order is the (unspecified) iteration order, or,
  where the code only reads and writes entries, a partial function; a map that may be \<open>nil\<close> is
  an option.
\<close>

section \<open>Configuration records\<close>

record RetryConfig =
  MaxRetries :: int
  BackoffInitialSecs :: int
  BackoffMaxSecs :: int

record BufferConfig =
  BufferType :: string
  DiskPath :: string
  MaxDiskBytes :: int

record EnrichmentConfig =
  Hostname :: string
  Environment :: string
  Service :: string
  Extra :: "(string \<rightharpoonup> string) option"

record FilterRule =
  Expr :: string
  Action :: string
  SampleRate :: float64

record CircuitBreakerConfig =
  Enabled :: bool
  Threshold :: int
  CooldownSecs :: int

record SettingsConfig =
  Interval :: int
  LogPath :: string
  SeekFromEnd :: bool
  MaxBufferSize :: int
  RetryCfg :: RetryConfig
  BufferCfg :: BufferConfig
  CircuitBreakerCfg :: CircuitBreakerConfig
  Enrichments :: EnrichmentConfig
  Filters :: "FilterRule list"

record CredentialsConfig =
  User :: string
  Password :: string

record ClickHouseConfig =
  DB :: string
  Table :: string
  Host :: string
  Port :: string
  TLS :: bool
  TLSInsecureSkipVerify :: bool
  CACert :: string
  TLSCertPath :: string
  TLSKeyPath :: string
  UseServerSideBatching :: bool
  Columns :: "(string \<times> string) list"
  Credentials :: CredentialsConfig

record NginxConfig =
  LogType :: string
  LogFormat :: string
  LogFormatType :: string

record Config =
  Settings :: SettingsConfig
  ClickHouse :: ClickHouseConfig
  Nginx :: NginxConfig

text \<open>Updates of nested fields, \<open>c.Settings.Retry.MaxRetries = n\<close> and the like.\<close>

abbreviation upd_settings :: "(SettingsConfig \<Rightarrow> SettingsConfig) \<Rightarrow> Config \<Rightarrow> Config" where
  "upd_settings f c \<equiv> c\<lparr>Settings := f (Settings c)\<rparr>"

abbreviation upd_retry :: "(RetryConfig \<Rightarrow> RetryConfig) \<Rightarrow> Config \<Rightarrow> Config" where
  "upd_retry f \<equiv> upd_settings (\<lambda>s. s\<lparr>RetryCfg := f (RetryCfg s)\<rparr>)"

abbreviation upd_buffer :: "(BufferConfig \<Rightarrow> BufferConfig) \<Rightarrow> Config \<Rightarrow> Config" where
  "upd_buffer f \<equiv> upd_settings (\<lambda>s. s\<lparr>BufferCfg := f (BufferCfg s)\<rparr>)"

abbreviation upd_breaker :: "(CircuitBreakerConfig \<Rightarrow> CircuitBreakerConfig) \<Rightarrow> Config \<Rightarrow> Config" where
  "upd_breaker f \<equiv> upd_settings (\<lambda>s. s\<lparr>CircuitBreakerCfg := f (CircuitBreakerCfg s)\<rparr>)"

abbreviation upd_enrich :: "(EnrichmentConfig \<Rightarrow> EnrichmentConfig) \<Rightarrow> Config \<Rightarrow> Config" where
  "upd_enrich f \<equiv> upd_settings (\<lambda>s. s\<lparr>Enrichments := f (Enrichments s)\<rparr>)"

abbreviation upd_ch :: "(ClickHouseConfig \<Rightarrow> ClickHouseConfig) \<Rightarrow> Config \<Rightarrow> Config" where
  "upd_ch f c \<equiv> c\<lparr>ClickHouse := f (ClickHouse c)\<rparr>"

abbreviation upd_cred :: "(CredentialsConfig \<Rightarrow> CredentialsConfig) \<Rightarrow> Config \<Rightarrow> Config" where
  "upd_cred f \<equiv> upd_ch (\<lambda>k. k\<lparr>Credentials := f (Credentials k)\<rparr>)"

abbreviation upd_nginx :: "(NginxConfig \<Rightarrow> NginxConfig) \<Rightarrow> Config \<Rightarrow> Config" where
  "upd_nginx f c \<equiv> c\<lparr>Nginx := f (Nginx c)\<rparr>"

section \<open>Reading the file\<close>

text \<open>
  \<open>Read\<close>: \<open>os.ReadFile\<close> and \<open>yaml.Unmarshal\<close> are parameters, \<^const>\<open>None\<close> being an error, which ends
  the process.
\<close>

datatype read_error = ConfigOpenError string | ConfigUnmarshalError

definition Read :: "(string \<Rightarrow> string option) \<Rightarrow> (string \<Rightarrow> Config option) \<Rightarrow> string \<Rightarrow>
    read_error + Config" where
  "Read read_file unmarshal configPath =
     (case read_file configPath of
        None \<Rightarrow> Inl (ConfigOpenError configPath)
      | Some data \<Rightarrow>
          (case unmarshal data of None \<Rightarrow> Inl ConfigUnmarshalError | Some cfg \<Rightarrow> Inr cfg))"

section \<open>Environment variables\<close>

text \<open>
  The environment: \<open>os.Getenv\<close> (empty for an unset variable) and \<open>os.Environ\<close> (the list of
  \<open>key=value\<close> strings).
\<close>

record environment =
  getenv :: "string \<Rightarrow> string"
  environ :: "string list"

text \<open>The three shapes of the code's \<open>if v := os.Getenv(...); v != ""\<close> blocks.\<close>

definition env_string :: "environment \<Rightarrow> string \<Rightarrow> (string \<Rightarrow> 'c \<Rightarrow> 'c) \<Rightarrow> 'c \<Rightarrow> 'c" where
  "env_string env name set_field c = (let v = getenv env name in if v \<noteq> [] then set_field v c else c)"

definition env_int :: "environment \<Rightarrow> string \<Rightarrow> (int \<Rightarrow> 'c \<Rightarrow> 'c) \<Rightarrow> 'c \<Rightarrow> 'c" where
  "env_int env name set_field c =
     (let v = getenv env name in
      if v \<noteq> [] then (case atoi v of None \<Rightarrow> c | Some n \<Rightarrow> set_field n c) else c)"

definition env_bool :: "environment \<Rightarrow> string \<Rightarrow> (bool \<Rightarrow> 'c \<Rightarrow> 'c) \<Rightarrow> 'c \<Rightarrow> 'c" where
  "env_bool env name set_field c =
     (let v = getenv env name in if v \<noteq> [] then set_field (v = ''true'') c else c)"

subsection \<open>\<open>FILTER_RULES\<close>\<close>

text \<open>One entry, trimmed and not empty: \<^const>\<open>None\<close> when it is logged and skipped.\<close>

definition parse_filter_entry :: "(string \<Rightarrow> float64 option) \<Rightarrow> string \<Rightarrow> FilterRule option" where
  "parse_filter_entry parse_float part =
     (let tokens = split_n 3 (CHR '':'') part in
      if length tokens < 2 then None
      else let rule = \<lparr>Expr = trim_space (tokens ! 0), Action = trim_space (tokens ! 1),
                      SampleRate = F64 0\<rparr> in
        if length tokens = 3
        then (case parse_float (trim_space (tokens ! 2)) of
                None \<Rightarrow> None
              | Some rate \<Rightarrow> Some (rule\<lparr>SampleRate := rate\<rparr>))
        else Some rule)"

definition parse_filter_rules :: "(string \<Rightarrow> float64 option) \<Rightarrow> string \<Rightarrow> FilterRule list" where
  "parse_filter_rules parse_float v =
     List.map_filter
       (\<lambda>part. let part = trim_space part in
          if part = [] then None else parse_filter_entry parse_float part)
       (split_on (CHR '';'') v)"

subsection \<open>\<open>ENRICHMENT_\<close> variables\<close>

definition known_enrichments :: "string list" where
  "known_enrichments = [''ENRICHMENT_HOSTNAME'', ''ENRICHMENT_ENVIRONMENT'', ''ENRICHMENT_SERVICE'']"

definition add_extra :: "(string \<Rightarrow> string) \<Rightarrow> (string \<rightharpoonup> string) \<Rightarrow> string \<Rightarrow> (string \<rightharpoonup> string)" where
  "add_extra unicode_lower m env =
     (case str_cut (CHR ''='') env of (key, val) \<Rightarrow>
        case cut_prefix key ''ENRICHMENT_'' of
          None \<Rightarrow> m
        | Some after \<Rightarrow>
            if key \<in> set known_enrichments then m else m(to_lower unicode_lower after \<mapsto> val))"

definition set_extra :: "(string \<Rightarrow> string) \<Rightarrow> environment \<Rightarrow> EnrichmentConfig \<Rightarrow> EnrichmentConfig" where
  "set_extra unicode_lower env e =
     (let m = (case Extra e of None \<Rightarrow> Map.empty | Some m \<Rightarrow> m) in
      e\<lparr>Extra := Some (foldl (add_extra unicode_lower) m (environ env))\<rparr>)"

subsection \<open>\<open>SetEnvVariables\<close>\<close>

definition set_env_settings :: "environment \<Rightarrow> Config \<Rightarrow> Config" where
  "set_env_settings env =
     env_int env ''RETRY_BACKOFF_MAX'' (\<lambda>n. upd_retry (\<lambda>r. r\<lparr>BackoffMaxSecs := n\<rparr>)) \<circ>
     env_int env ''RETRY_BACKOFF_INITIAL'' (\<lambda>n. upd_retry (\<lambda>r. r\<lparr>BackoffInitialSecs := n\<rparr>)) \<circ>
     env_int env ''RETRY_MAX'' (\<lambda>n. upd_retry (\<lambda>r. r\<lparr>MaxRetries := n\<rparr>)) \<circ>
     env_int env ''MAX_BUFFER_SIZE'' (\<lambda>n. upd_settings (\<lambda>s. s\<lparr>MaxBufferSize := n\<rparr>)) \<circ>
     env_int env ''FLUSH_INTERVAL'' (\<lambda>n. upd_settings (\<lambda>s. s\<lparr>Interval := n\<rparr>)) \<circ>
     env_string env ''LOG_PATH'' (\<lambda>v. upd_settings (\<lambda>s. s\<lparr>LogPath := v\<rparr>))"

definition set_env_clickhouse :: "environment \<Rightarrow> Config \<Rightarrow> Config" where
  "set_env_clickhouse env =
     env_bool env ''CLICKHOUSE_USE_SERVER_SIDE_BATCHING''
       (\<lambda>v. upd_ch (\<lambda>k. k\<lparr>UseServerSideBatching := v\<rparr>)) \<circ>
     env_string env ''CLICKHOUSE_TLS_KEY_PATH'' (\<lambda>v. upd_ch (\<lambda>k. k\<lparr>TLSKeyPath := v\<rparr>)) \<circ>
     env_string env ''CLICKHOUSE_TLS_CERT_PATH'' (\<lambda>v. upd_ch (\<lambda>k. k\<lparr>TLSCertPath := v\<rparr>)) \<circ>
     env_string env ''CLICKHOUSE_CA_CERT'' (\<lambda>v. upd_ch (\<lambda>k. k\<lparr>CACert := v\<rparr>)) \<circ>
     env_bool env ''CLICKHOUSE_TLS_SKIP_VERIFY'' (\<lambda>v. upd_ch (\<lambda>k. k\<lparr>TLSInsecureSkipVerify := v\<rparr>)) \<circ>
     env_bool env ''CLICKHOUSE_TLS'' (\<lambda>v. upd_ch (\<lambda>k. k\<lparr>TLS := v\<rparr>)) \<circ>
     env_string env ''CLICKHOUSE_PASSWORD'' (\<lambda>v. upd_cred (\<lambda>k. k\<lparr>Password := v\<rparr>)) \<circ>
     env_string env ''CLICKHOUSE_USER'' (\<lambda>v. upd_cred (\<lambda>k. k\<lparr>User := v\<rparr>)) \<circ>
     env_string env ''CLICKHOUSE_TABLE'' (\<lambda>v. upd_ch (\<lambda>k. k\<lparr>Table := v\<rparr>)) \<circ>
     env_string env ''CLICKHOUSE_DB'' (\<lambda>v. upd_ch (\<lambda>k. k\<lparr>DB := v\<rparr>)) \<circ>
     env_string env ''CLICKHOUSE_PORT'' (\<lambda>v. upd_ch (\<lambda>k. k\<lparr>Port := v\<rparr>)) \<circ>
     env_string env ''CLICKHOUSE_HOST'' (\<lambda>v. upd_ch (\<lambda>k. k\<lparr>Host := v\<rparr>))"

definition set_env_nginx :: "environment \<Rightarrow> Config \<Rightarrow> Config" where
  "set_env_nginx env =
     env_string env ''NGINX_LOG_FORMAT_TYPE'' (\<lambda>v. upd_nginx (\<lambda>n. n\<lparr>LogFormatType := v\<rparr>)) \<circ>
     env_string env ''NGINX_LOG_FORMAT'' (\<lambda>v. upd_nginx (\<lambda>n. n\<lparr>LogFormat := v\<rparr>)) \<circ>
     env_string env ''NGINX_LOG_TYPE'' (\<lambda>v. upd_nginx (\<lambda>n. n\<lparr>LogType := v\<rparr>))"

definition set_env_buffer_breaker :: "environment \<Rightarrow> Config \<Rightarrow> Config" where
  "set_env_buffer_breaker env =
     env_int env ''CIRCUIT_BREAKER_COOLDOWN'' (\<lambda>n. upd_breaker (\<lambda>b. b\<lparr>CooldownSecs := n\<rparr>)) \<circ>
     env_int env ''CIRCUIT_BREAKER_THRESHOLD'' (\<lambda>n. upd_breaker (\<lambda>b. b\<lparr>Threshold := n\<rparr>)) \<circ>
     env_bool env ''CIRCUIT_BREAKER_ENABLED'' (\<lambda>v. upd_breaker (\<lambda>b. b\<lparr>Enabled := v\<rparr>)) \<circ>
     env_int env ''BUFFER_MAX_DISK_BYTES'' (\<lambda>n. upd_buffer (\<lambda>b. b\<lparr>MaxDiskBytes := n\<rparr>)) \<circ>
     env_string env ''BUFFER_DISK_PATH'' (\<lambda>v. upd_buffer (\<lambda>b. b\<lparr>DiskPath := v\<rparr>)) \<circ>
     env_string env ''BUFFER_TYPE'' (\<lambda>v. upd_buffer (\<lambda>b. b\<lparr>BufferType := v\<rparr>))"

definition set_env_enrichments ::
  "(string \<Rightarrow> float64 option) \<Rightarrow> (string \<Rightarrow> string) \<Rightarrow> environment \<Rightarrow> Config \<Rightarrow> Config" where
  "set_env_enrichments parse_float unicode_lower env =
     upd_enrich (set_extra unicode_lower env) \<circ>
     env_string env ''FILTER_RULES''
       (\<lambda>v. upd_settings (\<lambda>s. s\<lparr>Filters := parse_filter_rules parse_float v\<rparr>)) \<circ>
     env_string env ''ENRICHMENT_SERVICE'' (\<lambda>v. upd_enrich (\<lambda>e. e\<lparr>Service := v\<rparr>)) \<circ>
     env_string env ''ENRICHMENT_ENVIRONMENT'' (\<lambda>v. upd_enrich (\<lambda>e. e\<lparr>Environment := v\<rparr>)) \<circ>
     env_string env ''ENRICHMENT_HOSTNAME'' (\<lambda>v. upd_enrich (\<lambda>e. e\<lparr>Hostname := v\<rparr>))"

text \<open>The whole method; the blocks run in the order of the source.\<close>

definition SetEnvVariables ::
  "(string \<Rightarrow> float64 option) \<Rightarrow> (string \<Rightarrow> string) \<Rightarrow> environment \<Rightarrow> Config \<Rightarrow> Config" where
  "SetEnvVariables parse_float unicode_lower env =
     set_env_enrichments parse_float unicode_lower env \<circ> set_env_buffer_breaker env \<circ>
     set_env_nginx env \<circ> set_env_clickhouse env \<circ> set_env_settings env"

section \<open>What the override does\<close>

text \<open>The value of one field after the override: its variable if that is usable, else the old one.\<close>

definition pick_string :: "environment \<Rightarrow> string \<Rightarrow> string \<Rightarrow> string" where
  "pick_string env name old = (if getenv env name \<noteq> [] then getenv env name else old)"

definition pick_int :: "environment \<Rightarrow> string \<Rightarrow> int \<Rightarrow> int" where
  "pick_int env name old = (case atoi (getenv env name) of None \<Rightarrow> old | Some n \<Rightarrow> n)"

definition pick_bool :: "environment \<Rightarrow> string \<Rightarrow> bool \<Rightarrow> bool" where
  "pick_bool env name old = (if getenv env name \<noteq> [] then getenv env name = ''true'' else old)"

lemmas pick_blocks = env_string_def env_int_def env_bool_def pick_string_def pick_int_def
  pick_bool_def Let_def

lemma set_env_settings_eq:
  "set_env_settings env c = c\<lparr>Settings := (Settings c)
     \<lparr>LogPath := pick_string env ''LOG_PATH'' (LogPath (Settings c)),
      Interval := pick_int env ''FLUSH_INTERVAL'' (Interval (Settings c)),
      MaxBufferSize := pick_int env ''MAX_BUFFER_SIZE'' (MaxBufferSize (Settings c)),
      RetryCfg :=
        \<lparr>MaxRetries = pick_int env ''RETRY_MAX'' (MaxRetries (RetryCfg (Settings c))),
         BackoffInitialSecs =
           pick_int env ''RETRY_BACKOFF_INITIAL'' (BackoffInitialSecs (RetryCfg (Settings c))),
         BackoffMaxSecs =
           pick_int env ''RETRY_BACKOFF_MAX'' (BackoffMaxSecs (RetryCfg (Settings c)))\<rparr>\<rparr>\<rparr>"
proof -
  have blocks:
    "env_string env n (\<lambda>v. upd_settings (\<lambda>s. s\<lparr>LogPath := v\<rparr>)) c =
      upd_settings (\<lambda>s. s\<lparr>LogPath := pick_string env n (LogPath s)\<rparr>) c"
    "env_int env n (\<lambda>v. upd_settings (\<lambda>s. s\<lparr>Interval := v\<rparr>)) c =
      upd_settings (\<lambda>s. s\<lparr>Interval := pick_int env n (Interval s)\<rparr>) c"
    "env_int env n (\<lambda>v. upd_settings (\<lambda>s. s\<lparr>MaxBufferSize := v\<rparr>)) c =
      upd_settings (\<lambda>s. s\<lparr>MaxBufferSize := pick_int env n (MaxBufferSize s)\<rparr>) c"
    "env_int env n (\<lambda>v. upd_retry (\<lambda>s. s\<lparr>MaxRetries := v\<rparr>)) c =
      upd_retry (\<lambda>s. s\<lparr>MaxRetries := pick_int env n (MaxRetries s)\<rparr>) c"
    "env_int env n (\<lambda>v. upd_retry (\<lambda>s. s\<lparr>BackoffInitialSecs := v\<rparr>)) c =
      upd_retry (\<lambda>s. s\<lparr>BackoffInitialSecs := pick_int env n (BackoffInitialSecs s)\<rparr>) c"
    "env_int env n (\<lambda>v. upd_retry (\<lambda>s. s\<lparr>BackoffMaxSecs := v\<rparr>)) c =
      upd_retry (\<lambda>s. s\<lparr>BackoffMaxSecs := pick_int env n (BackoffMaxSecs s)\<rparr>) c" for n c
    by (simp_all add: pick_blocks split: option.split)
  show ?thesis by (simp add: set_env_settings_def blocks)
qed

lemma set_env_clickhouse_eq:
  "set_env_clickhouse env c = c\<lparr>ClickHouse := (ClickHouse c)
     \<lparr>Host := pick_string env ''CLICKHOUSE_HOST'' (Host (ClickHouse c)),
      Port := pick_string env ''CLICKHOUSE_PORT'' (Port (ClickHouse c)),
      DB := pick_string env ''CLICKHOUSE_DB'' (DB (ClickHouse c)),
      Table := pick_string env ''CLICKHOUSE_TABLE'' (Table (ClickHouse c)),
      TLS := pick_bool env ''CLICKHOUSE_TLS'' (TLS (ClickHouse c)),
      TLSInsecureSkipVerify :=
        pick_bool env ''CLICKHOUSE_TLS_SKIP_VERIFY'' (TLSInsecureSkipVerify (ClickHouse c)),
      CACert := pick_string env ''CLICKHOUSE_CA_CERT'' (CACert (ClickHouse c)),
      TLSCertPath := pick_string env ''CLICKHOUSE_TLS_CERT_PATH'' (TLSCertPath (ClickHouse c)),
      TLSKeyPath := pick_string env ''CLICKHOUSE_TLS_KEY_PATH'' (TLSKeyPath (ClickHouse c)),
      UseServerSideBatching := pick_bool env ''CLICKHOUSE_USE_SERVER_SIDE_BATCHING''
        (UseServerSideBatching (ClickHouse c)),
      Credentials :=
        \<lparr>User = pick_string env ''CLICKHOUSE_USER'' (User (Credentials (ClickHouse c))),
         Password = pick_string env ''CLICKHOUSE_PASSWORD'' (Password (Credentials (ClickHouse c)))\<rparr>\<rparr>\<rparr>"
proof -
  have blocks:
    "env_string env n (\<lambda>v. upd_ch (\<lambda>s. s\<lparr>Host := v\<rparr>)) c =
      upd_ch (\<lambda>s. s\<lparr>Host := pick_string env n (Host s)\<rparr>) c"
    "env_string env n (\<lambda>v. upd_ch (\<lambda>s. s\<lparr>Port := v\<rparr>)) c =
      upd_ch (\<lambda>s. s\<lparr>Port := pick_string env n (Port s)\<rparr>) c"
    "env_string env n (\<lambda>v. upd_ch (\<lambda>s. s\<lparr>DB := v\<rparr>)) c =
      upd_ch (\<lambda>s. s\<lparr>DB := pick_string env n (DB s)\<rparr>) c"
    "env_string env n (\<lambda>v. upd_ch (\<lambda>s. s\<lparr>Table := v\<rparr>)) c =
      upd_ch (\<lambda>s. s\<lparr>Table := pick_string env n (Table s)\<rparr>) c"
    "env_bool env n (\<lambda>v. upd_ch (\<lambda>s. s\<lparr>TLS := v\<rparr>)) c =
      upd_ch (\<lambda>s. s\<lparr>TLS := pick_bool env n (TLS s)\<rparr>) c"
    "env_bool env n (\<lambda>v. upd_ch (\<lambda>s. s\<lparr>TLSInsecureSkipVerify := v\<rparr>)) c =
      upd_ch (\<lambda>s. s\<lparr>TLSInsecureSkipVerify := pick_bool env n (TLSInsecureSkipVerify s)\<rparr>) c"
    "env_string env n (\<lambda>v. upd_ch (\<lambda>s. s\<lparr>CACert := v\<rparr>)) c =
      upd_ch (\<lambda>s. s\<lparr>CACert := pick_string env n (CACert s)\<rparr>) c"
    "env_string env n (\<lambda>v. upd_ch (\<lambda>s. s\<lparr>TLSCertPath := v\<rparr>)) c =
      upd_ch (\<lambda>s. s\<lparr>TLSCertPath := pick_string env n (TLSCertPath s)\<rparr>) c"
    "env_string env n (\<lambda>v. upd_ch (\<lambda>s. s\<lparr>TLSKeyPath := v\<rparr>)) c =
      upd_ch (\<lambda>s. s\<lparr>TLSKeyPath := pick_string env n (TLSKeyPath s)\<rparr>) c"
    "env_bool env n (\<lambda>v. upd_ch (\<lambda>s. s\<lparr>UseServerSideBatching := v\<rparr>)) c =
      upd_ch (\<lambda>s. s\<lparr>UseServerSideBatching := pick_bool env n (UseServerSideBatching s)\<rparr>) c"
    "env_string env n (\<lambda>v. upd_cred (\<lambda>s. s\<lparr>User := v\<rparr>)) c =
      upd_cred (\<lambda>s. s\<lparr>User := pick_string env n (User s)\<rparr>) c"
    "env_string env n (\<lambda>v. upd_cred (\<lambda>s. s\<lparr>Password := v\<rparr>)) c =
      upd_cred (\<lambda>s. s\<lparr>Password := pick_string env n (Password s)\<rparr>) c" for n c
    by (simp_all add: pick_blocks)
  show ?thesis by (simp add: set_env_clickhouse_def blocks)
qed

lemma set_env_nginx_eq:
  "set_env_nginx env c = c\<lparr>Nginx :=
     \<lparr>LogType = pick_string env ''NGINX_LOG_TYPE'' (LogType (Nginx c)),
      LogFormat = pick_string env ''NGINX_LOG_FORMAT'' (LogFormat (Nginx c)),
      LogFormatType = pick_string env ''NGINX_LOG_FORMAT_TYPE'' (LogFormatType (Nginx c))\<rparr>\<rparr>"
proof -
  have blocks:
    "env_string env n (\<lambda>v. upd_nginx (\<lambda>s. s\<lparr>LogType := v\<rparr>)) c =
      upd_nginx (\<lambda>s. s\<lparr>LogType := pick_string env n (LogType s)\<rparr>) c"
    "env_string env n (\<lambda>v. upd_nginx (\<lambda>s. s\<lparr>LogFormat := v\<rparr>)) c =
      upd_nginx (\<lambda>s. s\<lparr>LogFormat := pick_string env n (LogFormat s)\<rparr>) c"
    "env_string env n (\<lambda>v. upd_nginx (\<lambda>s. s\<lparr>LogFormatType := v\<rparr>)) c =
      upd_nginx (\<lambda>s. s\<lparr>LogFormatType := pick_string env n (LogFormatType s)\<rparr>) c" for n c
    by (simp_all add: pick_blocks)
  show ?thesis by (simp add: set_env_nginx_def blocks)
qed

lemma set_env_buffer_breaker_eq:
  "set_env_buffer_breaker env c = c\<lparr>Settings := (Settings c)
     \<lparr>BufferCfg :=
        \<lparr>BufferType = pick_string env ''BUFFER_TYPE'' (BufferType (BufferCfg (Settings c))),
         DiskPath = pick_string env ''BUFFER_DISK_PATH'' (DiskPath (BufferCfg (Settings c))),
         MaxDiskBytes =
           pick_int env ''BUFFER_MAX_DISK_BYTES'' (MaxDiskBytes (BufferCfg (Settings c)))\<rparr>,
      CircuitBreakerCfg :=
        \<lparr>Enabled = pick_bool env ''CIRCUIT_BREAKER_ENABLED'' (Enabled (CircuitBreakerCfg (Settings c))),
         Threshold =
           pick_int env ''CIRCUIT_BREAKER_THRESHOLD'' (Threshold (CircuitBreakerCfg (Settings c))),
         CooldownSecs =
           pick_int env ''CIRCUIT_BREAKER_COOLDOWN'' (CooldownSecs (CircuitBreakerCfg (Settings c)))\<rparr>\<rparr>\<rparr>"
proof -
  have blocks:
    "env_string env n (\<lambda>v. upd_buffer (\<lambda>s. s\<lparr>BufferType := v\<rparr>)) c =
      upd_buffer (\<lambda>s. s\<lparr>BufferType := pick_string env n (BufferType s)\<rparr>) c"
    "env_string env n (\<lambda>v. upd_buffer (\<lambda>s. s\<lparr>DiskPath := v\<rparr>)) c =
      upd_buffer (\<lambda>s. s\<lparr>DiskPath := pick_string env n (DiskPath s)\<rparr>) c"
    "env_int env n (\<lambda>v. upd_buffer (\<lambda>s. s\<lparr>MaxDiskBytes := v\<rparr>)) c =
      upd_buffer (\<lambda>s. s\<lparr>MaxDiskBytes := pick_int env n (MaxDiskBytes s)\<rparr>) c"
    "env_bool env n (\<lambda>v. upd_breaker (\<lambda>s. s\<lparr>Enabled := v\<rparr>)) c =
      upd_breaker (\<lambda>s. s\<lparr>Enabled := pick_bool env n (Enabled s)\<rparr>) c"
    "env_int env n (\<lambda>v. upd_breaker (\<lambda>s. s\<lparr>Threshold := v\<rparr>)) c =
      upd_breaker (\<lambda>s. s\<lparr>Threshold := pick_int env n (Threshold s)\<rparr>) c"
    "env_int env n (\<lambda>v. upd_breaker (\<lambda>s. s\<lparr>CooldownSecs := v\<rparr>)) c =
      upd_breaker (\<lambda>s. s\<lparr>CooldownSecs := pick_int env n (CooldownSecs s)\<rparr>) c" for n c
    by (simp_all add: pick_blocks split: option.split)
  show ?thesis by (simp add: set_env_buffer_breaker_def blocks)
qed

lemma set_env_enrichments_eq:
  "set_env_enrichments parse_float unicode_lower env c = c\<lparr>Settings := (Settings c)
     \<lparr>Enrichments := set_extra unicode_lower env ((Enrichments (Settings c))
        \<lparr>Hostname := pick_string env ''ENRICHMENT_HOSTNAME'' (Hostname (Enrichments (Settings c))),
         Environment :=
           pick_string env ''ENRICHMENT_ENVIRONMENT'' (Environment (Enrichments (Settings c))),
         Service := pick_string env ''ENRICHMENT_SERVICE'' (Service (Enrichments (Settings c)))\<rparr>),
      Filters := (if getenv env ''FILTER_RULES'' \<noteq> []
                  then parse_filter_rules parse_float (getenv env ''FILTER_RULES'')
                  else Filters (Settings c))\<rparr>\<rparr>"
proof -
  have blocks:
    "env_string env n (\<lambda>v. upd_enrich (\<lambda>s. s\<lparr>Hostname := v\<rparr>)) c =
      upd_enrich (\<lambda>s. s\<lparr>Hostname := pick_string env n (Hostname s)\<rparr>) c"
    "env_string env n (\<lambda>v. upd_enrich (\<lambda>s. s\<lparr>Environment := v\<rparr>)) c =
      upd_enrich (\<lambda>s. s\<lparr>Environment := pick_string env n (Environment s)\<rparr>) c"
    "env_string env n (\<lambda>v. upd_enrich (\<lambda>s. s\<lparr>Service := v\<rparr>)) c =
      upd_enrich (\<lambda>s. s\<lparr>Service := pick_string env n (Service s)\<rparr>) c"
    "env_string env n (\<lambda>v. upd_settings (\<lambda>s. s\<lparr>Filters := parse_filter_rules parse_float v\<rparr>)) c =
      upd_settings (\<lambda>s. s\<lparr>Filters := (if getenv env n \<noteq> []
        then parse_filter_rules parse_float (getenv env n) else Filters s)\<rparr>) c" for n c
    by (simp_all add: pick_blocks)
  show ?thesis by (simp add: set_env_enrichments_def blocks)
qed

lemmas set_env_eqs = set_env_settings_eq set_env_clickhouse_eq set_env_nginx_eq
  set_env_buffer_breaker_eq set_env_enrichments_eq


section \<open>The compact filter syntax\<close>

text \<open>
  The entries of \<open>FILTER_RULES\<close> are independent: a malformed entry is skipped without
  affecting the others, since parsing distributes over \<open>;\<close>.
\<close>

theorem parse_filter_rules_append:
  "parse_filter_rules parse_float (a @ CHR '';'' # b) =
   parse_filter_rules parse_float a @ parse_filter_rules parse_float b"
  by (simp add: parse_filter_rules_def split_on_append_sep List.map_filter_def)

text \<open>
  Writing rules in that syntax: \<open>expr:action\<close>, with a third component when the rate is given.
\<close>

fun show_filter_entry :: "string \<times> string \<times> string option \<Rightarrow> string" where
  "show_filter_entry (e, a, None) = e @ CHR '':'' # a"
| "show_filter_entry (e, a, Some r) = e @ CHR '':'' # a @ CHR '':'' # r"

definition show_filter_rules :: "(string \<times> string \<times> string option) list \<Rightarrow> string" where
  "show_filter_rules es = join [CHR '';''] (map show_filter_entry es)"

fun filter_entry_ok :: "(string \<Rightarrow> float64 option) \<Rightarrow> string \<times> string \<times> string option \<Rightarrow> bool" where
  "filter_entry_ok parse_float (e, a, r) \<longleftrightarrow>
     trimmed e \<and> trimmed a \<and> CHR '':'' \<notin> set e \<and> CHR '':'' \<notin> set a \<and>
     CHR '';'' \<notin> set e \<and> CHR '';'' \<notin> set a \<and>
     (case r of None \<Rightarrow> True
      | Some r \<Rightarrow> trimmed r \<and> CHR '';'' \<notin> set r \<and> parse_float r \<noteq> None)"

fun filter_entry_rule :: "(string \<Rightarrow> float64 option) \<Rightarrow> string \<times> string \<times> string option \<Rightarrow> FilterRule" where
  "filter_entry_rule parse_float (e, a, r) =
     \<lparr>Expr = e, Action = a,
      SampleRate = (case r of None \<Rightarrow> F64 0 | Some r \<Rightarrow> the (parse_float r))\<rparr>"

lemma sep_not_space: "\<forall>w\<in>set ws_seqs. CHR '':'' \<notin> set w"
  by (simp add: ws_seqs_def)

lemma parse_show_filter_entry:
  assumes "filter_entry_ok parse_float x"
  shows "trim_space (show_filter_entry x) = show_filter_entry x"
    and "show_filter_entry x \<noteq> []" and "CHR '';'' \<notin> set (show_filter_entry x)"
    and "parse_filter_entry parse_float (show_filter_entry x) = Some (filter_entry_rule parse_float x)"
proof -
  obtain e a r where x: "x = (e, a, r)" by (cases x)
  note ok = assms [unfolded x, simplified]
  have "trimmed (show_filter_entry x)"
    using ok x by (cases r) (simp_all add: trimmed_sep sep_not_space)
  then show "trim_space (show_filter_entry x) = show_filter_entry x" by (simp add: trimmed_def)
  show "show_filter_entry x \<noteq> []" and "CHR '';'' \<notin> set (show_filter_entry x)"
    using ok x by (cases r; simp)+
  have three: "split_n 3 (CHR '':'') (e @ CHR '':'' # t) = e # split_n 2 (CHR '':'') t" for t
    using split_n_pieces [of "CHR '':''" e 1 t] ok by (simp add: numeral_3_eq_3 numeral_2_eq_2)
  have two: "split_n 2 (CHR '':'') (a @ CHR '':'' # t) = [a, t]" for t
    using split_n_pieces [of "CHR '':''" a 0 t] ok by (simp add: numeral_2_eq_2)
  have one: "split_n 2 (CHR '':'') a = [a]" using ok by (simp add: split_n_no_sep)
  show "parse_filter_entry parse_float (show_filter_entry x) = Some (filter_entry_rule parse_float x)"
    using ok x by (cases r) (auto simp: parse_filter_entry_def three two one trimmed_def)
qed

text \<open>
  C34. Round trip: rules written in the compact syntax are read back, provided their trimmed
  components hold no separator and their rates are numbers.
\<close>

theorem filter_rules_roundtrip:
  assumes "\<forall>x\<in>set es. filter_entry_ok parse_float x"
  shows "parse_filter_rules parse_float (show_filter_rules es) = map (filter_entry_rule parse_float) es"
proof (cases "es = []")
  case True
  have "trim_space [] = []" using length_trim_space [of "[]"] by simp
  with True show ?thesis
    by (simp add: show_filter_rules_def parse_filter_rules_def map_filter_simps)
next
  case False
  have "CHR '';'' \<notin> set s" if "s \<in> set (map show_filter_entry es)" for s
  proof -
    from that obtain x where "x \<in> set es" and s: "s = show_filter_entry x" by auto
    with assms have "filter_entry_ok parse_float x" by blast
    then show ?thesis unfolding s by (rule parse_show_filter_entry(3))
  qed
  then have "split_on (CHR '';'') (show_filter_rules es) = map show_filter_entry es"
    unfolding show_filter_rules_def using False by (intro split_on_join) auto
  moreover have "List.map_filter
       (\<lambda>part. let part = trim_space part in
          if part = [] then None else parse_filter_entry parse_float part)
       (map show_filter_entry es) = map (filter_entry_rule parse_float) es"
    by (rule map_filter_map_Some)
      (use assms parse_show_filter_entry [of parse_float] in \<open>simp del: filter_entry_ok.simps add: Let_def\<close>)
  ultimately show ?thesis by (simp add: parse_filter_rules_def)
qed

theorem filter_rules_roundtrip_witness:
  "parse_filter_rules (\<lambda>_. Some (F64 (1 / 10)))
     (show_filter_rules [(''status == 200'', ''drop'', Some ''0.1''), (''a > 1'', ''keep'', None)]) =
   [\<lparr>Expr = ''status == 200'', Action = ''drop'', SampleRate = F64 (1 / 10)\<rparr>,
    \<lparr>Expr = ''a > 1'', Action = ''keep'', SampleRate = F64 0\<rparr>]"
proof -
  have "trimmed ''status == 200''" "trimmed ''drop''" "trimmed ''0.1''" "trimmed ''a > 1''"
    "trimmed ''keep''"
    by code_simp+
  then show ?thesis
    using filter_rules_roundtrip
      [of "[(''status == 200'', ''drop'', Some ''0.1''), (''a > 1'', ''keep'', None)]"
        "\<lambda>_. Some (F64 (1 / 10))"]
    by simp
qed

section \<open>Extra enrichments\<close>

text \<open>What one \<open>key=value\<close> entry of the environment contributes to the extra map.\<close>

definition extra_entry :: "(string \<Rightarrow> string) \<Rightarrow> string \<Rightarrow> (string \<times> string) option" where
  "extra_entry unicode_lower env =
     (case str_cut (CHR ''='') env of (key, val) \<Rightarrow>
        if has_prefix key ''ENRICHMENT_'' \<and> key \<notin> set known_enrichments
        then Some (to_lower unicode_lower (drop 11 key), val) else None)"

lemma add_extra_entry:
  "add_extra unicode_lower m env =
     (case extra_entry unicode_lower env of None \<Rightarrow> m | Some (k, v) \<Rightarrow> m(k \<mapsto> v))"
  by (simp add: add_extra_def extra_entry_def cut_prefix_def eval_nat_numeral split: prod.split)

lemma foldl_add_extra:
  "foldl (add_extra unicode_lower) m envs =
     m ++ map_of (rev (List.map_filter (extra_entry unicode_lower) envs))"
  by (induction envs arbitrary: m)
    (simp_all add: map_filter_simps add_extra_entry split: option.split)

text \<open>
  Every \<open>ENRICHMENT_X\<close> variable other than the three known ones adds the key \<open>x\<close> in lower case
  to the extra map, over the YAML entries; of several variables with the same lower-case key the
  last one in the environment wins; the map is never \<open>nil\<close> afterwards.
\<close>

theorem SetEnvVariables_extra:
  "Extra (Enrichments (Settings (SetEnvVariables parse_float unicode_lower env c))) =
     Some ((case Extra (Enrichments (Settings c)) of None \<Rightarrow> Map.empty | Some m \<Rightarrow> m)
           ++ map_of (rev (List.map_filter (extra_entry unicode_lower) (environ env))))"
  by (simp add: SetEnvVariables_def set_env_eqs set_extra_def foldl_add_extra)

end
