(* ===== verification/FilterChain.thy ===== *)
theory FilterChain
  imports Nginx Config "HOL-Library.Stream" "HOL-Library.Multiset"
begin

text \<open>
  Expression filters and sampling (\<open>filter/filter.go\<close>).  The expression language is the library
  \<open>expr-lang/expr\<close>: its compiler and its virtual machine are parameters.  The draws of
  \<open>rand.Float64\<close> are an explicit stream, consumed one per sampled match.
\<close>

section \<open>Rules and chains\<close>

record 'p compiledRule =
  program :: 'p
  action :: string
  sampleRate :: float64
  raw :: string

record 'p Chain =
  rules :: "'p compiledRule list"
  chain_fields :: "string list"

text \<open>\<open>numericFields\<close>; a lookup of any other field gives the empty string.\<close>

definition numericFields :: "(string \<times> string) list" where
  "numericFields =
     [(''bytes_sent'', ''int''), (''body_bytes_sent'', ''int''), (''connections_waiting'', ''int''),
      (''connections_active'', ''int''), (''status'', ''int''), (''connection'', ''int''),
      (''request_length'', ''int''), (''request_time'', ''float''),
      (''upstream_connect_time'', ''float''), (''upstream_header_time'', ''float''),
      (''upstream_response_time'', ''float''), (''msec'', ''float'')]"

definition numeric_kind :: "string \<Rightarrow> string" where
  "numeric_kind f = (case map_of numericFields f of None \<Rightarrow> [] | Some k \<Rightarrow> k)"

text \<open>The environment of an expression: a value per field.\<close>

type_synonym env = "string \<rightharpoonup> go_val"

definition zero_value :: "string \<Rightarrow> go_val" where
  "zero_value f =
     (if numeric_kind f = ''int'' then VInt 0
      else if numeric_kind f = ''float'' then VFloat (F64 0) else VStr [])"

definition buildEnvSample :: "string list \<Rightarrow> env" where
  "buildEnvSample flds = foldl (\<lambda>env f. env(f \<mapsto> zero_value f)) Map.empty flds"

definition env_value :: "(string \<Rightarrow> float64 option) \<Rightarrow> log_entry \<Rightarrow> string \<Rightarrow> go_val" where
  "env_value parse_float entry f =
     (case entry f of
        None \<Rightarrow> zero_value f
      | Some val \<Rightarrow>
          if numeric_kind f = ''int'' then (case atoi val of None \<Rightarrow> VInt 0 | Some n \<Rightarrow> VInt n)
          else if numeric_kind f = ''float'' then
            (case parse_float val of None \<Rightarrow> VFloat (F64 0) | Some x \<Rightarrow> VFloat x)
          else VStr val)"

definition buildEnv :: "(string \<Rightarrow> float64 option) \<Rightarrow> log_entry \<Rightarrow> string list \<Rightarrow> env" where
  "buildEnv parse_float entry flds =
     foldl (\<lambda>env f. env(f \<mapsto> env_value parse_float entry f)) Map.empty flds"

section \<open>\<open>NewChain\<close>\<close>

datatype chain_error =
  InvalidAction string | InvalidSampleRate float64 string | CompileError string

text \<open>\<open>expr.Compile(r.Expr, expr.Env(env), expr.AsBool())\<close>; \<open>None\<close> is an error.\<close>

type_synonym 'p compiler = "string \<Rightarrow> env \<Rightarrow> 'p option"

definition compile_rule :: "'p compiler \<Rightarrow> env \<Rightarrow> FilterRule \<Rightarrow> chain_error + 'p compiledRule" where
  "compile_rule compile env r =
     (if Action r \<noteq> ''drop'' \<and> Action r \<noteq> ''keep'' then Inl (InvalidAction (Action r))
      else if f64_less (SampleRate r) (F64 0) \<or> f64_less (F64 1) (SampleRate r)
      then Inl (InvalidSampleRate (SampleRate r) (Expr r))
      else case compile (Expr r) env of
          None \<Rightarrow> Inl (CompileError (Expr r))
        | Some p \<Rightarrow> Inr \<lparr>program = p, action = Action r, sampleRate = SampleRate r, raw = Expr r\<rparr>)"

fun compile_rules ::
  "'p compiler \<Rightarrow> env \<Rightarrow> FilterRule list \<Rightarrow> chain_error + 'p compiledRule list" where
  "compile_rules compile env [] = Inr []"
| "compile_rules compile env (r # rs) =
     (case compile_rule compile env r of
        Inl e \<Rightarrow> Inl e
      | Inr c \<Rightarrow> (case compile_rules compile env rs of Inl e \<Rightarrow> Inl e | Inr cs \<Rightarrow> Inr (c # cs)))"

definition NewChain ::
  "'p compiler \<Rightarrow> FilterRule list \<Rightarrow> string list \<Rightarrow> chain_error + 'p Chain" where
  "NewChain compile rs flds =
     (if rs = [] then Inr \<lparr>rules = [], chain_fields = []\<rparr>
      else case compile_rules compile (buildEnvSample flds) rs of
          Inl e \<Rightarrow> Inl e
        | Inr cs \<Rightarrow> Inr \<lparr>rules = cs, chain_fields = flds\<rparr>)"

section \<open>\<open>Apply\<close>\<close>

text \<open>The result of \<open>expr.Run\<close>: an error is \<open>None\<close>.\<close>

datatype expr_output = OutBool bool | OutOther

type_synonym 'p runner = "'p \<Rightarrow> env \<Rightarrow> expr_output option"

text \<open>
  One rule on a list of entries.  The condition with \<open>rand.Float64\<close> draws a number only when the
  rate is strictly between 0 and 1.
\<close>

definition sampling :: "'p compiledRule \<Rightarrow> bool" where
  "sampling rule \<longleftrightarrow> f64_less (F64 0) (sampleRate rule) \<and> f64_less (sampleRate rule) (F64 1)"

fun applyRule ::
  "'p runner \<Rightarrow> (string \<Rightarrow> float64 option) \<Rightarrow> 'p compiledRule \<Rightarrow> log_entry list \<Rightarrow> string list \<Rightarrow>
   rat stream \<Rightarrow> log_entry list \<times> rat stream" where
  "applyRule run pf rule [] flds draws = ([], draws)"
| "applyRule run pf rule (entry # entries) flds draws =
     (case run (program rule) (buildEnv pf entry flds) of
        Some (OutBool matched) \<Rightarrow>
          if \<not> matched then
            (case applyRule run pf rule entries flds draws of (kept, draws) \<Rightarrow>
               if action rule = ''keep'' then (kept, draws) else (entry # kept, draws))
          else if sampling rule then
            (case applyRule run pf rule entries flds (stl draws) of (kept, rest) \<Rightarrow>
               if \<not> f64_less (F64 (shd draws)) (sampleRate rule)
               then (if action rule = ''drop'' then entry # kept else kept, rest)
               else (if action rule = ''keep'' then entry # kept else kept, rest))
          else
            (case applyRule run pf rule entries flds draws of (kept, draws) \<Rightarrow>
               if action rule = ''keep'' then (entry # kept, draws) else (kept, draws))
      | _ \<Rightarrow>
          (case applyRule run pf rule entries flds draws of (kept, draws) \<Rightarrow>
             (entry # kept, draws)))"

fun apply_rules ::
  "'p runner \<Rightarrow> (string \<Rightarrow> float64 option) \<Rightarrow> 'p compiledRule list \<Rightarrow> string list \<Rightarrow>
   log_entry list \<Rightarrow> rat stream \<Rightarrow> log_entry list \<times> rat stream" where
  "apply_rules run pf [] flds result draws = (result, draws)"
| "apply_rules run pf (rule # rs) flds result draws =
     (case applyRule run pf rule result flds draws of (result, draws) \<Rightarrow>
        apply_rules run pf rs flds result draws)"

definition Apply ::
  "'p runner \<Rightarrow> (string \<Rightarrow> float64 option) \<Rightarrow> 'p Chain \<Rightarrow> log_entry list \<Rightarrow> rat stream \<Rightarrow>
   log_entry list \<times> rat stream" where
  "Apply run pf c entries draws =
     (if rules c = [] \<or> entries = [] then (entries, draws)
      else apply_rules run pf (rules c) (chain_fields c) entries draws)"

section \<open>Environments\<close>

lemma foldl_env: "foldl (\<lambda>env f. env(f \<mapsto> g f)) m flds =
   (\<lambda>f. if f \<in> set flds then Some (g f) else m f)"
  by (induction flds arbitrary: m) (auto simp: fun_eq_iff)

lemma buildEnv_eq:
  "buildEnv pf entry flds = (\<lambda>f. if f \<in> set flds then Some (env_value pf entry f) else None)"
  by (simp add: buildEnv_def foldl_env)

lemma buildEnvSample_eq:
  "buildEnvSample flds = (\<lambda>f. if f \<in> set flds then Some (zero_value f) else None)"
  by (simp add: buildEnvSample_def foldl_env)

lemma numeric_kind_int: "numeric_kind f = ''int'' \<longleftrightarrow> f \<in> set int_fields"
  by (auto simp: numeric_kind_def numericFields_def int_fields_def split: if_splits)

lemma numeric_kind_float: "numeric_kind f = ''float'' \<longleftrightarrow> f \<in> set float_fields"
  by (auto simp: numeric_kind_def numericFields_def float_fields_def split: if_splits)

text \<open>The dynamic type of a value.\<close>

fun go_type :: "go_val \<Rightarrow> string" where
  "go_type (VStr s) = ''string''"
| "go_type (VInt n) = ''int''"
| "go_type (VFloat x) = ''float64''"

lemma env_value_type: "go_type (env_value pf entry f) = go_type (zero_value f)"
  by (simp add: env_value_def zero_value_def split: option.split)

text \<open>
  The environment an expression runs in has exactly the variables, with exactly the types, of
  the sample environment it was compiled against, whatever the entry holds: missing fields and
  malformed numbers become the zero value of their type.
\<close>

theorem buildEnv_sample_types:
  "map_option go_type (buildEnv parse_float entry flds f) =
   map_option go_type (buildEnvSample flds f)"
  by (simp add: buildEnv_eq buildEnvSample_eq env_value_type)

text \<open>
  A filter sees the value that would be inserted: for every field but \<open>time_local\<close>, the
  variable of an expression is the cell \<open>ParseField\<close> makes of the raw value whenever that has the
  type the filter uses for the field, and the zero of the type otherwise.
\<close>

lemma buildEnv_sees_cell:
  assumes "f \<in> set flds" and "entry f = Some v" and "f \<noteq> ''time_local''"
  shows "buildEnv parse_float entry flds f =
    Some (if go_type (ParseField parse_float f v) = go_type (zero_value f)
          then ParseField parse_float f v else zero_value f)"
  using assms field_classes_disjoint [of f]
  by (auto simp: buildEnv_eq env_value_def zero_value_def ParseField_def numeric_kind_int
      numeric_kind_float split: option.split)

text \<open>
  C35. Filters and rows agree on types and values, although \<open>filter.go\<close> and \<open>nginx.go\<close> each have
  tables of their own for the numeric fields.  The environment an expression runs in has exactly the variables, each
  with exactly the type, it was compiled against, whatever the entry holds.  A variable is the cell
  that \<open>ParseField\<close> makes of the entry's field (but for \<open>time_local\<close>, which filters see raw), or the zero value
  of its type when the field is missing or its text malformed.  And the text of an \<open>int\<close> in a
  field that filters take for an integer comes out as that integer on both sides.
\<close>

theorem buildEnv_cells:
  "dom (buildEnv parse_float entry flds) = set flds \<and>
   (\<forall>f. map_option go_type (buildEnv parse_float entry flds f) =
        map_option go_type (buildEnvSample flds f)) \<and>
   (\<forall>f\<in>set flds. case entry f of
      None \<Rightarrow> buildEnv parse_float entry flds f = buildEnvSample flds f
    | Some v \<Rightarrow> buildEnv parse_float entry flds f =
        Some (if f = ''time_local'' then VStr v
              else if Some (go_type (ParseField parse_float f v)) = map_option go_type (buildEnvSample flds f)
              then ParseField parse_float f v else the (buildEnvSample flds f))) \<and>
   (\<forall>f\<in>set flds. \<forall>n. buildEnvSample flds f = Some (VInt 0) \<and> entry f = Some (show_int n) \<and> int64_range n \<longrightarrow>
      ParseField parse_float f (show_int n) = VInt n \<and> buildEnv parse_float entry flds f = Some (VInt n))"
proof -
  have dom: "dom (buildEnv parse_float entry flds) = set flds"
    by (auto simp: buildEnv_eq dom_def)
  have sample: "buildEnvSample flds f = Some (zero_value f)" if "f \<in> set flds" for f
    using that by (simp add: buildEnvSample_eq)
  have time: "numeric_kind ''time_local'' = []" by (simp add: numeric_kind_def numericFields_def)
  have cell: "case entry f of
      None \<Rightarrow> buildEnv parse_float entry flds f = buildEnvSample flds f
    | Some v \<Rightarrow> buildEnv parse_float entry flds f =
        Some (if f = ''time_local'' then VStr v
              else if Some (go_type (ParseField parse_float f v)) = map_option go_type (buildEnvSample flds f)
              then ParseField parse_float f v else the (buildEnvSample flds f))"
    if f: "f \<in> set flds" for f
    using buildEnv_sees_cell [where entry = entry and parse_float = parse_float, OF f] sample [OF f] f time
    by (auto simp: buildEnv_eq env_value_def split: option.split)
  have int: "ParseField parse_float f (show_int n) = VInt n \<and> buildEnv parse_float entry flds f = Some (VInt n)"
    if f: "f \<in> set flds" and n: "buildEnvSample flds f = Some (VInt 0)" "entry f = Some (show_int n)"
      "int64_range n" for f n
  proof -
    have "numeric_kind f = ''int''"
      using sample [OF f] n(1) by (auto simp: zero_value_def split: if_splits)
    then show ?thesis
      using f n(2,3) field_classes_disjoint [of f]
      by (auto simp: buildEnv_eq env_value_def ParseField_def numeric_kind_int atoi_show_int)
  qed
  show ?thesis using dom buildEnv_sample_types cell int by blast
qed

theorem buildEnv_cells_witness:
  "buildEnv (\<lambda>_. None) [''connection'' \<mapsto> show_int (- 7)] [''status'', ''connection''] ''connection'' =
     Some (VInt (- 7)) \<and>
   ParseField (\<lambda>_. None) ''connection'' (show_int (- 7)) = VInt (- 7)"
proof -
  have "buildEnvSample [''status'', ''connection''] ''connection'' = Some (VInt 0)"
    by (simp add: buildEnvSample_eq zero_value_def numeric_kind_def numericFields_def)
  with buildEnv_cells [of "\<lambda>_. None" "[''connection'' \<mapsto> show_int (- 7)]" "[''status'', ''connection'']"]
  show ?thesis by (auto simp: int64_range_def)
qed

section \<open>Validation\<close>

definition rule_ok :: "'p compiler \<Rightarrow> env \<Rightarrow> FilterRule \<Rightarrow> bool" where
  "rule_ok compile env r \<longleftrightarrow>
     (Action r = ''drop'' \<or> Action r = ''keep'') \<and>
     (case SampleRate r of F64 q \<Rightarrow> 0 \<le> q \<and> q \<le> 1 | F64_NaN \<Rightarrow> True | _ \<Rightarrow> False) \<and>
     compile (Expr r) env \<noteq> None"

lemma compile_rule_ok:
  "compile_rule compile env r =
     (if rule_ok compile env r
      then Inr \<lparr>program = the (compile (Expr r) env), action = Action r,
                sampleRate = SampleRate r, raw = Expr r\<rparr>
      else compile_rule compile env r)"
  by (cases "SampleRate r") (auto simp: rule_ok_def compile_rule_def split: option.split)

lemma compile_rule_Inl: "(\<exists>e. compile_rule compile env r = Inl e) \<longleftrightarrow> \<not> rule_ok compile env r"
  by (cases "SampleRate r") (auto simp: rule_ok_def compile_rule_def split: option.split)

lemma compile_rules_ok:
  "list_all (rule_ok compile env) rs \<Longrightarrow>
   compile_rules compile env rs =
     Inr (map (\<lambda>r. \<lparr>program = the (compile (Expr r) env), action = Action r,
                    sampleRate = SampleRate r, raw = Expr r\<rparr>) rs)"
proof (induction rs)
  case (Cons r rs)
  then show ?case by (simp add: compile_rule_ok [of compile env r])
qed simp

lemma compile_rules_error:
  "list_all (rule_ok compile env) good \<Longrightarrow> compile_rule compile env bad = Inl e \<Longrightarrow>
   compile_rules compile env (good @ bad # rs) = Inl e"
proof (induction good)
  case (Cons r good)
  then show ?case by (simp add: compile_rule_ok [of compile env r])
qed simp

lemma compile_rules_rates:
  "compile_rules compile env rs = Inr cs \<Longrightarrow> map sampleRate cs = map SampleRate rs"
  by (induction rs arbitrary: cs)
    (auto simp: compile_rule_def split: sum.splits option.splits if_splits)

lemma NewChain_rates:
  "NewChain compile rs flds = Inr c \<Longrightarrow> map sampleRate (rules c) = map SampleRate rs"
  by (auto simp: NewChain_def compile_rules_rates split: if_splits sum.splits)

text \<open>
  C30. \<open>NewChain\<close> accepts a rule list exactly when every action is \<open>drop\<close> or \<open>keep\<close>, every rate is
  between 0 and 1 or is not a number, and every expression compiles to a boolean against the
  sample environment; it keeps the rules in order, with their rates, and the fields.
\<close>

theorem NewChain_accepts:
  assumes "rs \<noteq> []"
  shows "NewChain compile rs flds =
    (if list_all (rule_ok compile (buildEnvSample flds)) rs
     then Inr \<lparr>rules = map (\<lambda>r. \<lparr>program = the (compile (Expr r) (buildEnvSample flds)),
                                action = Action r, sampleRate = SampleRate r, raw = Expr r\<rparr>) rs,
               chain_fields = flds\<rparr>
     else Inl (projl (compile_rule compile (buildEnvSample flds)
                 (hd (dropWhile (rule_ok compile (buildEnvSample flds)) rs)))))"
proof (cases "list_all (rule_ok compile (buildEnvSample flds)) rs")
  case True
  with assms show ?thesis by (simp add: NewChain_def compile_rules_ok)
next
  case False
  let ?ok = "rule_ok compile (buildEnvSample flds)"
  obtain bad rest where dw: "dropWhile ?ok rs = bad # rest" and "\<not> ?ok bad"
    using False by (metis dropWhile_eq_Cons_conv dropWhile_eq_Nil_conv list.exhaust list_all_iff)
  then obtain e where e: "compile_rule compile (buildEnvSample flds) bad = Inl e"
    using compile_rule_Inl by blast
  have split: "rs = takeWhile ?ok rs @ bad # rest"
    using takeWhile_dropWhile_id [of ?ok rs] unfolding dw by (rule sym)
  have "list_all ?ok (takeWhile ?ok rs)" by (auto simp: list_all_iff dest: set_takeWhileD)
  from compile_rules_error [OF this e, of rest]
  have "compile_rules compile (buildEnvSample flds) rs = Inl e" using split by simp
  with False assms dw e show ?thesis by (simp add: NewChain_def)
qed

theorem NewChain_accepts_witness:
  "NewChain (\<lambda>_ _. Some ())
     [\<lparr>Expr = ''a'', Action = ''drop'', SampleRate = F64 (1 / 2)\<rparr>,
      \<lparr>Expr = ''b'', Action = ''keep'', SampleRate = F64 2\<rparr>] [] =
   Inl (InvalidSampleRate (F64 2) ''b'')"
  using NewChain_accepts
    [of "[\<lparr>Expr = ''a'', Action = ''drop'', SampleRate = F64 (1 / 2)\<rparr>,
          \<lparr>Expr = ''b'', Action = ''keep'', SampleRate = F64 2\<rparr>]" "\<lambda>_ _. Some ()" "[]"]
  by (simp add: rule_ok_def compile_rule_def)

section \<open>What a chain keeps\<close>

definition matches :: "'p runner \<Rightarrow> (string \<Rightarrow> float64 option) \<Rightarrow> 'p compiledRule \<Rightarrow> string list \<Rightarrow>
    log_entry \<Rightarrow> bool" where
  "matches run pf rule flds e \<longleftrightarrow> run (program rule) (buildEnv pf e flds) = Some (OutBool True)"

text \<open>An entry on which the expression fails or has no boolean value.\<close>

definition undecided :: "'p runner \<Rightarrow> (string \<Rightarrow> float64 option) \<Rightarrow> 'p compiledRule \<Rightarrow>
    string list \<Rightarrow> log_entry \<Rightarrow> bool" where
  "undecided run pf rule flds e \<longleftrightarrow>
     (case run (program rule) (buildEnv pf e flds) of Some (OutBool b) \<Rightarrow> False | _ \<Rightarrow> True)"

text \<open>What a rule without sampling keeps.\<close>

definition rule_keeps :: "'p runner \<Rightarrow> (string \<Rightarrow> float64 option) \<Rightarrow> 'p compiledRule \<Rightarrow>
    string list \<Rightarrow> log_entry \<Rightarrow> bool" where
  "rule_keeps run pf rule flds e \<longleftrightarrow>
     undecided run pf rule flds e \<or> (matches run pf rule flds e \<longleftrightarrow> action rule = ''keep'')"

lemmas rule_defs = matches_def undecided_def rule_keeps_def

lemma applyRule_filter:
  "\<not> sampling rule \<Longrightarrow>
   applyRule run pf rule entries flds draws = (filter (rule_keeps run pf rule flds) entries, draws)"
  by (induction entries) (auto simp: rule_defs split: option.splits expr_output.splits)

lemma verdict_cases:
  "undecided run pf rule flds e \<or>
   run (program rule) (buildEnv pf e flds) = Some (OutBool False) \<or>
   run (program rule) (buildEnv pf e flds) = Some (OutBool True)"
  unfolding undecided_def by (auto split: option.split expr_output.split)

lemma applyRule_undecided_step:
  "undecided run pf rule flds e \<Longrightarrow>
   applyRule run pf rule (e # es) flds draws =
     (case applyRule run pf rule es flds draws of (kept, draws) \<Rightarrow> (e # kept, draws))"
  by (simp add: undecided_def split: option.splits expr_output.splits)

text \<open>One step of the loop: the entry is kept or not, and an undecided one is.\<close>

lemma applyRule_step:
  obtains keep draws' where
    "applyRule run pf rule (e # es) flds draws =
       ((if keep then [e] else []) @ fst (applyRule run pf rule es flds draws'),
        snd (applyRule run pf rule es flds draws'))"
    and "undecided run pf rule flds e \<longrightarrow> keep"
proof (cases "undecided run pf rule flds e")
  case True
  then show thesis
    by (intro that [of True draws])
      (auto simp: undecided_def split: option.splits expr_output.splits prod.splits)
next
  case False
  then obtain m where m: "run (program rule) (buildEnv pf e flds) = Some (OutBool m)"
    by (auto simp: undecided_def split: option.splits expr_output.splits)
  show thesis
  proof (cases "m \<and> sampling rule")
    case True
    with m False show thesis
      by (intro that [of "if f64_less (F64 (shd draws)) (sampleRate rule)
            then action rule = ''keep'' else action rule = ''drop''" "stl draws"])
        (simp_all split: prod.split)
  next
    case not_sampled: False
    with m False show thesis
      by (intro that [of "m \<longleftrightarrow> action rule = ''keep''" draws]) (auto split: prod.split)
  qed
qed

lemma applyRule_subseq: "subseq (fst (applyRule run pf rule entries flds draws)) entries"
proof (induction entries arbitrary: draws)
  case (Cons e es)
  obtain keep draws' where "fst (applyRule run pf rule (e # es) flds draws) =
      (if keep then [e] else []) @ fst (applyRule run pf rule es flds draws')"
    by (rule applyRule_step [of run pf rule e es flds draws]) simp
  with Cons [of draws'] show ?case by (cases keep) auto
qed simp

lemma applyRule_undecided:
  "filter (undecided run pf rule flds) (fst (applyRule run pf rule entries flds draws)) =
   filter (undecided run pf rule flds) entries"
proof (induction entries arbitrary: draws)
  case (Cons e es)
  obtain keep draws' where "fst (applyRule run pf rule (e # es) flds draws) =
      (if keep then [e] else []) @ fst (applyRule run pf rule es flds draws')"
    and "undecided run pf rule flds e \<longrightarrow> keep"
    by (rule applyRule_step [of run pf rule e es flds draws]) simp
  with Cons [of draws'] show ?case by (cases keep) (auto simp del: applyRule.simps)
qed simp

lemma apply_rules_filter:
  "\<forall>r\<in>set rs. \<not> sampling r \<Longrightarrow>
   apply_rules run pf rs flds entries draws =
     (filter (\<lambda>e. \<forall>r\<in>set rs. rule_keeps run pf r flds e) entries, draws)"
proof (induction rs arbitrary: entries)
  case (Cons r rs)
  then show ?case by (simp add: applyRule_filter conj_commute)
qed simp

lemma apply_rules_subseq: "subseq (fst (apply_rules run pf rs flds entries draws)) entries"
proof (induction rs arbitrary: entries draws)
  case (Cons r rs)
  obtain kept rest where kr: "applyRule run pf r entries flds draws = (kept, rest)" by fastforce
  have "subseq kept entries" using applyRule_subseq [of run pf r entries flds draws] kr by simp
  with Cons.IH [of kept rest] kr show ?case by (auto intro: subseq_order.order_trans)
qed simp

lemma apply_rules_undecided:
  "filter (\<lambda>e. \<forall>r\<in>set rs. undecided run pf r flds e) (fst (apply_rules run pf rs flds entries draws)) =
   filter (\<lambda>e. \<forall>r\<in>set rs. undecided run pf r flds e) entries"
proof (induction rs arbitrary: entries draws)
  case (Cons r rs)
  let ?u = "undecided run pf r flds" and ?us = "\<lambda>e. \<forall>r\<in>set rs. undecided run pf r flds e"
  obtain kept rest where kr: "applyRule run pf r entries flds draws = (kept, rest)" by fastforce
  let ?result = "fst (apply_rules run pf rs flds kept rest)"
  let ?all = "\<lambda>e. \<forall>r\<in>set (r # rs). undecided run pf r flds e"
  have all_u: "filter ?all xs = filter ?u (filter ?us xs)" for xs
    unfolding filter_filter by (intro filter_cong) auto
  have swap: "filter ?u (filter ?us xs) = filter ?us (filter ?u xs)" for xs
    unfolding filter_filter by (intro filter_cong) auto
  have "filter ?all ?result = filter ?u (filter ?us kept)"
    unfolding all_u Cons.IH ..
  also have "\<dots> = filter ?us (filter ?u entries)"
    unfolding swap using applyRule_undecided [of run pf r flds entries draws] kr by simp
  also have "\<dots> = filter ?all entries" unfolding all_u swap ..
  finally show ?case using kr by simp
qed simp

lemma Apply_eq:
  "rules c \<noteq> [] \<Longrightarrow>
   Apply run pf c entries draws = apply_rules run pf (rules c) (chain_fields c) entries draws"
proof -
  have "apply_rules run pf rs flds [] draws = ([], draws)" for rs flds
    by (induction rs) simp_all
  then show "rules c \<noteq> [] \<Longrightarrow> ?thesis" by (simp add: Apply_def)
qed

text \<open>
  A chain never reorders, duplicates or invents entries: its result is a subsequence of its
  input.  Entries on which every expression fails or is not boolean are all kept, in place.
\<close>

theorem Apply_subseq:
  "subseq (fst (Apply run parse_float c entries draws)) entries \<and>
   filter (\<lambda>e. \<forall>r\<in>set (rules c). undecided run parse_float r (chain_fields c) e)
     (fst (Apply run parse_float c entries draws)) =
   filter (\<lambda>e. \<forall>r\<in>set (rules c). undecided run parse_float r (chain_fields c) e) entries"
  by (cases "rules c = []")
    (simp_all add: Apply_eq apply_rules_subseq apply_rules_undecided, simp_all add: Apply_def)

theorem Apply_subseq_witness:
  "fst (Apply (\<lambda>p env. None) (\<lambda>_. None)
      \<lparr>rules = [\<lparr>program = (), action = ''drop'', sampleRate = F64 0, raw = []\<rparr>],
       chain_fields = []\<rparr> [Map.empty] (sconst 0)) = [Map.empty]"
  using Apply_subseq
    [of "\<lambda>p env. None" "\<lambda>_. None"
      "\<lparr>rules = [\<lparr>program = (), action = ''drop'', sampleRate = F64 0, raw = []\<rparr>],
        chain_fields = []\<rparr>" "[Map.empty]" "sconst 0"]
  by (simp add: undecided_def Apply_def)

text \<open>
  C28. Without sampling (rate 0, 1 or not a number) a chain is one filter: an entry is kept when
  every rule is undecided on it, or is a \<open>drop\<close> rule that does not match or a \<open>keep\<close> rule that
  does.  No random number is drawn, and the order of the rules does not matter.
\<close>

theorem Apply_filter:
  assumes "\<forall>r\<in>set (rules c). \<not> sampling r"
  shows "Apply run parse_float c entries draws =
    (filter (\<lambda>e. \<forall>r\<in>set (rules c). rule_keeps run parse_float r (chain_fields c) e) entries, draws)"
  using assms by (cases "rules c = []") (simp_all add: Apply_eq apply_rules_filter, simp add: Apply_def)

theorem Apply_filter_witness:
  "Apply (\<lambda>p env. Some (OutBool (env ''status'' = Some (VInt 404)))) (\<lambda>_. None)
     \<lparr>rules = [\<lparr>program = (), action = ''drop'', sampleRate = F64 1, raw = []\<rparr>],
      chain_fields = [''status'']\<rparr> [[''status'' \<mapsto> ''404''], [''status'' \<mapsto> ''200'']] (sconst 0) =
   ([[''status'' \<mapsto> ''200'']], sconst 0)"
proof -
  have "atoi ''404'' = Some 404" "atoi ''200'' = Some 200" by code_simp+
  moreover have "numeric_kind ''status'' = ''int''" by code_simp
  ultimately show ?thesis
    using Apply_filter
      [of "\<lparr>rules = [\<lparr>program = (), action = ''drop'', sampleRate = F64 1, raw = []\<rparr>],
        chain_fields = [''status'']\<rparr>" "\<lambda>p env. Some (OutBool (env ''status'' = Some (VInt 404)))"
        "\<lambda>_. None" "[[''status'' \<mapsto> ''404''], [''status'' \<mapsto> ''200'']]" "sconst 0"]
    by (simp add: sampling_def rule_defs buildEnv_eq env_value_def)
qed

section \<open>Sampling\<close>

text \<open>
  C29. Sampling acts on matches alone, one draw for each: with rate \<open>r\<close> the \<open>i\<close>-th matching entry is
  dropped by a \<open>drop\<close> rule exactly when the \<open>i\<close>-th draw is below \<open>r\<close>, and is kept by a \<open>keep\<close> rule
  exactly then; entries that do not match are treated as without sampling.
\<close>

theorem applyRule_sampling:
  assumes "sampling rule" and "action rule \<in> {''drop'', ''keep''}"
  shows "case applyRule run parse_float rule entries flds draws of (kept, rest) \<Rightarrow>
    let m = matches run parse_float rule flds; ms = filter m entries in
      filter m kept = map fst (filter
        (\<lambda>(e, x). f64_less (F64 x) (sampleRate rule) \<longleftrightarrow> action rule = ''keep'')
        (zip ms (stake (length ms) draws))) \<and>
      filter (\<lambda>e. \<not> m e) kept =
        filter (\<lambda>e. \<not> m e \<and> rule_keeps run parse_float rule flds e) entries \<and>
      rest = sdrop (length ms) draws"
  using assms
proof (induction entries arbitrary: draws)
  case Nil
  then show ?case by simp
next
  case (Cons e es)
  consider "undecided run parse_float rule flds e"
    | "run (program rule) (buildEnv parse_float e flds) = Some (OutBool False)"
    | "run (program rule) (buildEnv parse_float e flds) = Some (OutBool True)"
    using verdict_cases by blast
  then show ?case
  proof cases
    case 1
    then have "\<not> matches run parse_float rule flds e" "rule_keeps run parse_float rule flds e"
      by (simp_all add: rule_defs split: option.splits expr_output.splits)
    then show ?thesis using Cons.IH [OF Cons.prems, of draws] applyRule_undecided_step [OF 1]
      by (simp add: Let_def case_prod_unfold del: applyRule.simps)
  next
    case 2
    then have "\<not> matches run parse_float rule flds e"
      and "rule_keeps run parse_float rule flds e \<longleftrightarrow> action rule \<noteq> ''keep''"
      by (simp_all add: rule_defs)
    with 2 show ?thesis using Cons.IH [OF Cons.prems, of draws]
      by (simp add: Let_def case_prod_unfold)
  next
    case 3
    then have "matches run parse_float rule flds e" by (simp add: matches_def)
    with 3 show ?thesis using Cons.IH [OF Cons.prems, of "stl draws"] Cons.prems
      by (auto simp: Let_def case_prod_unfold)
  qed
qed

theorem applyRule_sampling_witness:
  "filter (\<lambda>e. e ''a'' \<noteq> None)
     (fst (applyRule (\<lambda>p env. Some (OutBool (env ''a'' \<noteq> None))) (\<lambda>_. None)
        \<lparr>program = (), action = ''drop'', sampleRate = F64 (1 / 10), raw = []\<rparr>
        [[''a'' \<mapsto> ''1''], [''a'' \<mapsto> ''2'']] [''a''] (1 / 20 ## 1 / 2 ## sconst 0))) =
   [[''a'' \<mapsto> ''2'']]"
proof -
  define rule where
    "rule = \<lparr>program = (), action = ''drop'', sampleRate = F64 (1 / 10), raw = []\<rparr>"
  have rule_val: "sampleRate rule = F64 (1 / 10)" "action rule = ''drop''"
    by (simp_all add: rule_def)
  have "sampling rule" "action rule \<in> {''drop'', ''keep''}"
    by (simp_all add: rule_val sampling_def)
  note sampled = applyRule_sampling [OF this,
      where run = "\<lambda>p env. Some (OutBool (env ''a'' \<noteq> None))"
      and parse_float = "\<lambda>_. None" and entries = "[[''a'' \<mapsto> ''1''], [''a'' \<mapsto> ''2'']]"
      and flds = "[''a'']" and draws = "1 / 20 ## 1 / 2 ## sconst 0"]
  show ?thesis
    using sampled rule_val unfolding rule_def [symmetric]
    by (simp add: case_prod_unfold Let_def matches_def buildEnv_eq del: applyRule.simps)
qed

end
