(* ===== verification/Retry.thy ===== *)
theory Retry
  imports GoLib
begin

text \<open>
  Package \<open>retry\<close> (src/retry/retry.go): exponential backoff with full jitter and the retry loop
  \<open>Do\<close>.  A \<open>time.Duration\<close> is an \<^typ>\<open>int\<close> of nanoseconds, doubled with 64-bit wrap-around.
  \<open>rand.N\<close> is a parameter, the function that maps the bound of a call to the value drawn; all
  that is assumed of it, where a theorem needs it, is \<open>rand_ok\<close>.  The function retried by \<open>Do\<close>
  is a state transformer that returns \<open>None\<close> for \<open>nil\<close> or \<open>Some\<close> error.
\<close>

section \<open>Backoff\<close>

fun backoff_loop :: "nat \<Rightarrow> int \<Rightarrow> int \<Rightarrow> int" where
  "backoff_loop 0 delay maxDelay = delay"
| "backoff_loop (Suc n) delay maxDelay =
     (let d = wrap64 (delay * 2) in
      if d \<le> 0 \<or> d \<ge> maxDelay then maxDelay else backoff_loop n d maxDelay)"

definition Backoff :: "(int \<Rightarrow> int) \<Rightarrow> int \<Rightarrow> int \<Rightarrow> int \<Rightarrow> int" where
  "Backoff rand_N attempt initial maxDelay =
     (let attempt = (if attempt < 0 then 0 else attempt);
          delay = backoff_loop (nat attempt) initial maxDelay in
      if delay \<le> 0 then initial
      else let jittered = rand_N delay in
        if jittered < initial then initial else jittered)"

text \<open>\<open>rand.N(n)\<close> returns a value in the half-open interval from 0 to \<open>n\<close>.\<close>

definition rand_ok :: "(int \<Rightarrow> int) \<Rightarrow> bool" where
  "rand_ok rand_N \<longleftrightarrow> (\<forall>n>0. 0 \<le> rand_N n \<and> rand_N n < n)"

lemma rand_okD: "rand_ok rand_N \<Longrightarrow> 0 < n \<Longrightarrow> rand_N n < n"
  by (simp add: rand_ok_def)

text \<open>
  The doubling loop computes \<open>initial * 2 ^ n\<close> capped at \<open>maxDelay\<close>, although each doubling may
  wrap around: a delay below the cap is below \<open>2 ^ 63\<close>, so its double either fits or is
  negative, and both exits of the loop return the cap.
\<close>

lemma double_exit_iff:
  assumes "0 < d" and "d \<le> maxDelay" and "maxDelay < 2 ^ 63"
  shows "wrap64 (d * 2) \<le> 0 \<or> wrap64 (d * 2) \<ge> maxDelay \<longleftrightarrow> d * 2 \<ge> maxDelay"
    and "d * 2 < maxDelay \<Longrightarrow> wrap64 (d * 2) = d * 2"
proof -
  have small: "wrap64 (d * 2) = d * 2" if "d < 2 ^ 62"
    using that assms by (intro wrap64_idI) simp_all
  have big: "wrap64 (d * 2) < 0 \<and> d * 2 \<ge> maxDelay" if "\<not> d < 2 ^ 62"
    using that assms wrap64_double_overflow(2) [of d] by simp
  show "wrap64 (d * 2) \<le> 0 \<or> wrap64 (d * 2) \<ge> maxDelay \<longleftrightarrow> d * 2 \<ge> maxDelay"
    using small big assms by (cases "d < 2 ^ 62") auto
  show "d * 2 < maxDelay \<Longrightarrow> wrap64 (d * 2) = d * 2"
    using small big by fastforce
qed

lemma backoff_loop_eq:
  "0 < d \<Longrightarrow> d \<le> maxDelay \<Longrightarrow> maxDelay < 2 ^ 63 \<Longrightarrow>
   backoff_loop n d maxDelay = min (d * 2 ^ n) maxDelay"
proof (induction n arbitrary: d)
  case 0
  then show ?case by simp
next
  case (Suc n)
  note exit = double_exit_iff [OF Suc.prems]
  show ?case
  proof (cases "d * 2 \<ge> maxDelay")
    case True
    have "d * 2 * 1 \<le> d * 2 * 2 ^ n" using Suc.prems by (intro mult_left_mono) simp_all
    with True have "maxDelay \<le> d * 2 ^ Suc n" by (simp add: mult.assoc)
    with True exit(1) show ?thesis by (simp add: Let_def min_absorb2)
  next
    case False
    with exit(2) have "wrap64 (d * 2) = d * 2" by simp
    with False exit(1) Suc.IH [of "d * 2"] Suc.prems show ?thesis
      by (simp add: Let_def mult.assoc)
  qed
qed

lemma Backoff_eq:
  assumes "0 < initial" and "initial \<le> maxDelay" and "maxDelay < 2 ^ 63"
  shows "Backoff rand_N attempt initial maxDelay =
    max initial (rand_N (min (initial * 2 ^ nat attempt) maxDelay))"
proof -
  have "nat (if attempt < 0 then 0 else attempt) = nat attempt" by simp
  then have "backoff_loop (nat (if attempt < 0 then 0 else attempt)) initial maxDelay =
      min (initial * 2 ^ nat attempt) maxDelay"
    using backoff_loop_eq [OF assms] by simp
  moreover have "\<not> min (initial * 2 ^ nat attempt) maxDelay \<le> 0"
    using assms by (simp add: not_le)
  ultimately show ?thesis unfolding Backoff_def Let_def by (simp add: max_def)
qed

text \<open>
  C21. For a positive initial delay not above the maximum, \<open>Backoff\<close> is the random number drawn
  below \<open>min (initial * 2 ^ attempt) maxDelay\<close>, but at least \<open>initial\<close>, whatever the attempt (a
  negative one counts as 0) and however far the doubling overflows 64 bits; so it stays within
  the interval its comment states.
\<close>

theorem Backoff_bounds:
  assumes "0 < initial" and "initial \<le> maxDelay" and "maxDelay < 2 ^ 63" and "rand_ok rand_N"
  shows "Backoff rand_N attempt initial maxDelay =
      max initial (rand_N (min (initial * 2 ^ nat attempt) maxDelay)) \<and>
    initial \<le> Backoff rand_N attempt initial maxDelay \<and>
    Backoff rand_N attempt initial maxDelay \<le> min (initial * 2 ^ nat attempt) maxDelay"
proof -
  let ?bound = "min (initial * 2 ^ nat attempt) maxDelay"
  have "initial * 1 \<le> initial * 2 ^ nat attempt"
    using assms(1) by (intro mult_left_mono) simp_all
  then have "0 < ?bound" and "initial \<le> ?bound" using assms by simp_all
  moreover from this(1) have "rand_N ?bound < ?bound" by (rule rand_okD [OF assms(4)])
  ultimately show ?thesis unfolding Backoff_eq [OF assms(1-3)] by simp
qed

theorem Backoff_bounds_witness:
  "Backoff (\<lambda>n. n - 1) 70 1000 30000 = 29999 \<and> Backoff (\<lambda>n. n - 1) 3 1000 30000 = 7999"
proof -
  have "rand_ok (\<lambda>n. n - 1)" by (simp add: rand_ok_def)
  note B = Backoff_bounds [OF _ _ _ this, of 1000 30000]
  show ?thesis using B [of 70] B [of 3] by simp
qed

lemma backoff_loop_capped:
  "0 < d \<Longrightarrow> d \<le> maxDelay \<Longrightarrow> 0 < maxDelay \<Longrightarrow>
   0 < backoff_loop n d maxDelay \<and> backoff_loop n d maxDelay \<le> maxDelay"
  by (induction n arbitrary: d) (auto simp: Let_def)

text \<open>
  The cap is not respected when the initial delay exceeds it: \<open>Backoff\<close> then returns
  \<open>initial\<close>, above the \<open>maxDelay\<close> that its comment promises as an upper bound.
\<close>

theorem Backoff_initial_above_cap:
  assumes "0 < maxDelay" and "maxDelay < initial" and "rand_ok rand_N"
  shows "Backoff rand_N attempt initial maxDelay = initial"
proof -
  have cap: "0 < backoff_loop n initial maxDelay \<and> backoff_loop n initial maxDelay \<le> initial" for n
  proof (cases n)
    case 0
    with assms(1,2) show ?thesis by simp
  next
    case (Suc m)
    with backoff_loop_capped [of "wrap64 (initial * 2)" maxDelay m] assms(1,2) show ?thesis
      by (auto simp: Let_def)
  qed
  let ?d = "backoff_loop (nat (if attempt < 0 then 0 else attempt)) initial maxDelay"
  have "0 < ?d" and "?d \<le> initial" using cap by blast+
  moreover from this(1) have "rand_N ?d < ?d" by (rule rand_okD [OF assms(3)])
  ultimately show ?thesis by (simp add: Backoff_def Let_def)
qed

theorem Backoff_initial_above_cap_witness:
  "Backoff (\<lambda>n. n div 2) 3 60 30 = 60 \<and> (30::int) < 60"
proof -
  have "rand_ok (\<lambda>n. n div 2)" by (auto simp: rand_ok_def)
  from Backoff_initial_above_cap [OF _ _ this, of 30 60 3] show ?thesis by simp
qed

section \<open>Do\<close>

text \<open>
  The loop \<open>for attempt := range maxRetries + 1\<close>: \<open>k\<close> is the number of iterations left.  The
  result is the error (\<open>None\<close> for \<open>nil\<close>), the state after the calls, and the sleeps made.
\<close>

fun do_loop :: "(nat \<Rightarrow> int \<Rightarrow> int) \<Rightarrow> int \<Rightarrow> int \<Rightarrow> int \<Rightarrow> ('s \<Rightarrow> 'e option \<times> 's) \<Rightarrow>
    nat \<Rightarrow> nat \<Rightarrow> 'e option \<Rightarrow> 's \<Rightarrow> 'e option \<times> 's \<times> int list" where
  "do_loop rand_N maxRetries initial maxDelay fn 0 attempt err s = (err, s, [])"
| "do_loop rand_N maxRetries initial maxDelay fn (Suc k) attempt err s =
     (case fn s of
        (None, s') \<Rightarrow> (None, s', [])
      | (Some e, s') \<Rightarrow>
          let sleep = (if int attempt < maxRetries
                       then [Backoff (rand_N attempt) (int attempt) initial maxDelay] else []) in
          case do_loop rand_N maxRetries initial maxDelay fn k (Suc attempt) (Some e) s' of
            (r, t, sleeps) \<Rightarrow> (r, t, sleep @ sleeps))"

definition retry_Do :: "(nat \<Rightarrow> int \<Rightarrow> int) \<Rightarrow> int \<Rightarrow> int \<Rightarrow> int \<Rightarrow> ('s \<Rightarrow> 'e option \<times> 's) \<Rightarrow>
    's \<Rightarrow> 'e option \<times> 's \<times> int list" where
  "retry_Do rand_N maxRetries initial maxDelay fn s =
     do_loop rand_N maxRetries initial maxDelay fn (nat (wrap64 (maxRetries + 1))) 0 None s"

text \<open>The specification: the state after \<open>n\<close> calls and the results of those calls.\<close>

fun calls :: "('s \<Rightarrow> 'e option \<times> 's) \<Rightarrow> nat \<Rightarrow> 's \<Rightarrow> 'e option list \<times> 's" where
  "calls fn 0 s = ([], s)"
| "calls fn (Suc n) s =
     (case fn s of (r, s') \<Rightarrow> case calls fn n s' of (rs, t) \<Rightarrow> (r # rs, t))"

lemma length_calls [simp]: "length (fst (calls fn n s)) = n"
  by (induction n arbitrary: s) (auto split: prod.splits dest: arg_cong [where f = "\<lambda>p. length (fst p)"])

abbreviation sleeps_of :: "(nat \<Rightarrow> int \<Rightarrow> int) \<Rightarrow> int \<Rightarrow> int \<Rightarrow> nat \<Rightarrow> nat \<Rightarrow> int list" where
  "sleeps_of rand_N initial maxDelay i j \<equiv>
     map (\<lambda>a. Backoff (rand_N a) (int a) initial maxDelay) [i..<j]"

lemma do_loop_success:
  assumes "calls fn n s = (rs, t)" and "None \<notin> set rs" and "fn t = (None, t')"
    and "n < k" and "int attempt + int k = maxRetries + 1"
  shows "do_loop rand_N maxRetries initial maxDelay fn k attempt err s =
    (None, t', sleeps_of rand_N initial maxDelay attempt (attempt + n))"
  using assms
proof (induction n arbitrary: s k attempt err rs)
  case 0
  then obtain k' where "k = Suc k'" by (cases k) auto
  with 0 show ?case by simp
next
  case (Suc n)
  from Suc.prems obtain k' where k: "k = Suc k'" by (cases k) auto
  obtain r s' where fn: "fn s = (r, s')" by (cases "fn s")
  with Suc.prems obtain e rs' where r: "r = Some e" and rs: "calls fn n s' = (rs', t)"
    and none: "None \<notin> set rs'"
    by (cases r) (auto split: prod.splits)
  have "int attempt < maxRetries" using Suc.prems k by simp
  then show ?case
    using Suc.IH [OF rs none Suc.prems(3), of k' "Suc attempt" "Some e"] Suc.prems k fn r
    by (simp add: upt_rec)
qed

lemma do_loop_failure:
  assumes "calls fn k s = (rs, t)" and "None \<notin> set rs"
    and "int attempt + int k = maxRetries + 1"
  shows "do_loop rand_N maxRetries initial maxDelay fn k attempt err s =
    (if rs = [] then err else last rs, t, sleeps_of rand_N initial maxDelay attempt (attempt + (k - 1)))"
  using assms
proof (induction k arbitrary: s attempt err rs)
  case 0
  then show ?case by simp
next
  case (Suc k)
  obtain r s' where fn: "fn s = (r, s')" by (cases "fn s")
  with Suc.prems obtain e rs' where r: "r = Some e" and rs: "calls fn k s' = (rs', t)"
    and eq: "rs = Some e # rs'" and none: "None \<notin> set rs'"
    by (cases r) (auto split: prod.splits)
  have len: "length rs' = k" using rs by (metis fst_conv length_calls)
  have "int attempt < maxRetries \<longleftrightarrow> 0 < k" using Suc.prems(3) by linarith
  then show ?case
    using Suc.IH [OF rs none, of "Suc attempt" "Some e"] Suc.prems fn r eq len
    by (cases k) (auto simp: upt_rec)
qed

text \<open>
  \<open>Do\<close> stops at the first success: if the first \<open>n \<le> maxRetries\<close> calls fail and the next
  one succeeds, it returns \<open>nil\<close> in the state of that call, having slept once after each failure.
\<close>

theorem retry_Do_success:
  assumes "calls fn n s = (rs, t)" and "None \<notin> set rs" and "fn t = (None, t')"
    and "int n \<le> maxRetries" and "maxRetries < 2 ^ 63 - 1"
  shows "retry_Do rand_N maxRetries initial maxDelay fn s =
    (None, t', sleeps_of rand_N initial maxDelay 0 n)"
proof -
  have "wrap64 (maxRetries + 1) = maxRetries + 1"
    using assms by (intro wrap64_idI) simp_all
  then show ?thesis
    using do_loop_success [OF assms(1-3), of "nat (maxRetries + 1)" 0 maxRetries] assms(4)
    by (simp add: retry_Do_def)
qed

text \<open>
  C20. When every call fails, \<open>Do\<close> makes exactly \<open>maxRetries + 1\<close> of them, sleeps \<open>maxRetries\<close>
  times, and returns the error of the last call.
\<close>

theorem retry_Do_failure:
  assumes "calls fn (nat (maxRetries + 1)) s = (rs, t)" and "None \<notin> set rs"
    and "0 \<le> maxRetries" and "maxRetries < 2 ^ 63 - 1"
  shows "retry_Do rand_N maxRetries initial maxDelay fn s =
    (last rs, t, sleeps_of rand_N initial maxDelay 0 (nat maxRetries))"
proof -
  have wrap: "wrap64 (maxRetries + 1) = maxRetries + 1"
    using assms by (intro wrap64_idI) simp_all
  have "length rs = nat (maxRetries + 1)" using assms(1) by (metis fst_conv length_calls)
  with assms(3) have "rs \<noteq> []" by auto
  have "nat (maxRetries + 1) - 1 = nat maxRetries" using assms(3) by linarith
  then show ?thesis
    using do_loop_failure [OF assms(1,2), of 0 maxRetries] assms(3) wrap \<open>rs \<noteq> []\<close>
    by (simp add: retry_Do_def)
qed

text \<open>
  With a negative \<open>maxRetries\<close> the loop body never runs: \<open>Do\<close> reports success without
  having called the function once.
\<close>

theorem retry_Do_negative:
  assumes "maxRetries < 0" and "int64_range maxRetries"
  shows "retry_Do rand_N maxRetries initial maxDelay fn s = (None, s, [])"
  using assms by (simp add: retry_Do_def int64_range_def wrap64_idI)

text \<open>The hypotheses at concrete callbacks: one failure then success, and two failures.\<close>

theorem retry_Do_success_witness:
  "retry_Do (\<lambda>_ n. n - 1) 3 10 100 (\<lambda>c::nat. if c < 1 then (Some ''down'', c + 1) else (None, c + 1)) 0 =
   (None, 2, [10])"
proof -
  let ?fn = "\<lambda>c::nat. if c < 1 then (Some ''down'', c + 1) else (None, c + 1)"
  have "calls ?fn 1 0 = ([Some ''down''], 1)" by simp
  then have "retry_Do (\<lambda>_ n. n - 1) 3 10 100 ?fn 0 =
      (None, 2, sleeps_of (\<lambda>_ n. n - 1) 10 100 0 1)"
    by (rule retry_Do_success) simp_all
  then show ?thesis by (simp add: Backoff_def)
qed

theorem retry_Do_failure_witness:
  "retry_Do (\<lambda>_ n. n - 1) 1 10 100 (\<lambda>c::nat. (Some c, c + 1)) 0 = (Some 1, 2, [10])"
proof -
  have "calls (\<lambda>c::nat. (Some c, c + 1)) (nat (1 + 1)) 0 = ([Some 0, Some 1], 2)"
    by (simp add: numeral_2_eq_2)
  then have "retry_Do (\<lambda>_ n. n - 1) 1 10 100 (\<lambda>c::nat. (Some c, c + 1)) 0 =
      (last [Some 0, Some 1], 2, sleeps_of (\<lambda>_ n. n - 1) 10 100 0 (nat 1))"
    by (rule retry_Do_failure) simp_all
  then show ?thesis by (simp add: Backoff_def)
qed

theorem retry_Do_negative_witness:
  "retry_Do (\<lambda>_ n. n - 1) (- 1) 10 100 (\<lambda>c::nat. (Some c, c + 1)) 0 = (None, 0, [])"
  by (rule retry_Do_negative) (simp_all add: int64_range_def)

section \<open>The contract between \<open>Do\<close> and its callback\<close>

text \<open>
  What a client of \<open>Do\<close> provides: an invariant of its state kept by every call, and what a
  successful and a failed call leave behind.  What it gets back: the same for the whole loop.
\<close>

locale retried_call =
  fixes fn :: "'s \<Rightarrow> 'e option \<times> 's"
    and inv :: "'s \<Rightarrow> bool"
    and done_ok :: "'s \<Rightarrow> bool"
    and done_err :: "'s \<Rightarrow> 'e \<Rightarrow> bool"
  assumes call_ok: "inv s \<Longrightarrow> fn s = (None, s') \<Longrightarrow> inv s' \<and> done_ok s'"
    and call_err: "inv s \<Longrightarrow> fn s = (Some e, s') \<Longrightarrow> inv s' \<and> done_err s' e"
begin

lemma do_loop_contract:
  "inv s \<Longrightarrow> do_loop rand_N maxRetries initial maxDelay fn k attempt err s = (r, t, sl) \<Longrightarrow>
   inv t \<and> (case r of None \<Rightarrow> done_ok t \<or> k = 0 \<and> err = None
            | Some e \<Rightarrow> done_err t e \<or> k = 0 \<and> err = r)"
proof (induction k arbitrary: s attempt err sl)
  case 0
  then show ?case by (auto split: option.splits)
next
  case (Suc k)
  show ?case
  proof (cases "fn s")
    case (Pair o1 s')
    show ?thesis
    proof (cases o1)
      case None
      with Pair Suc.prems call_ok show ?thesis by auto
    next
      case (Some e)
      with Pair Suc.prems obtain sl' where
        rest: "do_loop rand_N maxRetries initial maxDelay fn k (Suc attempt) (Some e) s' = (r, t, sl')"
        by (auto simp: Let_def split: prod.splits)
      have s': "inv s'" "done_err s' e" using call_err Suc.prems(1) Pair Some by auto
      from Suc.IH [OF s'(1) rest] s'(2) rest show ?thesis
        by (cases k) (auto split: option.splits)
    qed
  qed
qed

lemma retry_contract:
  assumes "inv s" and "retry_Do rand_N maxRetries initial maxDelay fn s = (r, t, sl)"
  shows "inv t"
    and "r = None \<Longrightarrow> 0 \<le> maxRetries \<Longrightarrow> maxRetries < 2 ^ 63 - 1 \<Longrightarrow> done_ok t"
    and "r = Some e \<Longrightarrow> done_err t e"
  using do_loop_contract [OF assms(1) assms(2) [unfolded retry_Do_def]]
  by (auto simp: wrap64_idI)

end

end
