(* ===== verification/Clickhouse.thy ===== *)
theory Clickhouse
  imports Config Nginx Retry "HOL-Library.Multiset"
begin

text \<open>
  The ClickHouse client (\<open>clickhouse/clickhouse.go\<close>): rows and their enrichments, the connection
  with its lazy opening and reset, and \<open>Save\<close>, which runs under \<open>retry.Do\<close>.  The driver, the file
  system and TLS functions, the URL parser and the user-agent parser are parameters; the driver
  acts on a world of any type, so its answers may change from call to call.
\<close>

section \<open>Enrichments\<close>

text \<open>The fields of \<open>uax.Result\<close> that are read, with the value of its method \<open>DeviceClass()\<close>.\<close>

record ua_result =
  IsBot :: bool
  BotName :: string
  BotClass :: string
  BrowserName :: string
  BrowserMajor :: string
  OSName :: string
  DeviceClass :: string

text \<open>
  The library functions a row depends on: \<open>strconv.ParseFloat\<close>, the Unicode case tables,
  the \<open>Host\<close> of a parsed URL (\<open>None\<close> for an error of \<open>url.Parse\<close>), the cached user-agent parser
  and the zero \<open>uax.Result\<close>.
\<close>

record row_lib =
  parse_float :: "string \<Rightarrow> float64 option"
  unicode_lower :: "string \<Rightarrow> string"
  url_host :: "string \<Rightarrow> string option"
  ParseString :: "string \<Rightarrow> ua_result"
  ua_zero :: ua_result

definition parseUA :: "row_lib \<Rightarrow> log_entry \<Rightarrow> ua_result" where
  "parseUA lib entry =
     (case entry ''http_user_agent'' of
        None \<Rightarrow> ua_zero lib
      | Some ua \<Rightarrow> if ua = [] \<or> ua = ''-'' then ua_zero lib else ParseString lib ua)"

text \<open>\<open>URL.Hostname()\<close> of \<open>net/url\<close>: the host without its port and without brackets.\<close>

definition cut_port :: "string \<Rightarrow> string" where
  "cut_port host =
     (if CHR '':'' \<in> set host \<and> list_all is_digit (rev (takeWhile (\<lambda>c. c \<noteq> CHR '':'') (rev host)))
      then rev (tl (dropWhile (\<lambda>c. c \<noteq> CHR '':'') (rev host))) else host)"

definition url_Hostname :: "string \<Rightarrow> string" where
  "url_Hostname host =
     (let h = cut_port host in
      if has_prefix h ''['' \<and> has_suffix h '']'' then butlast (tl h) else h)"

definition extractReferrerDomain :: "row_lib \<Rightarrow> log_entry \<Rightarrow> string" where
  "extractReferrerDomain lib entry =
     (case entry ''http_referer'' of
        None \<Rightarrow> []
      | Some referer \<Rightarrow>
          if referer = [] \<or> referer = ''-'' then []
          else case url_host lib referer of
              None \<Rightarrow> []
            | Some host \<Rightarrow> if host = [] then [] else url_Hostname host)"

text \<open>\<open>path.Ext\<close>: from the last dot of the last path element.\<close>

fun ext_scan :: "string \<Rightarrow> string \<Rightarrow> string" where
  "ext_scan [] acc = []"
| "ext_scan (c # r) acc =
     (if c = CHR ''/'' then [] else if c = CHR ''.'' then c # acc else ext_scan r (c # acc))"

definition path_Ext :: "string \<Rightarrow> string" where
  "path_Ext p = ext_scan (rev p) []"

definition extractURLExtension :: "row_lib \<Rightarrow> log_entry \<Rightarrow> string" where
  "extractURLExtension lib entry =
     (case entry ''request'' of
        None \<Rightarrow> []
      | Some request \<Rightarrow>
          if request = [] then []
          else let parts = split_n 3 (CHR '' '') request in
            if length parts < 2 then []
            else let urlPath = takeWhile (\<lambda>c. c \<noteq> CHR ''?'' \<and> c \<noteq> CHR ''#'') (parts ! 1);
                     ext = path_Ext urlPath in
              if ext = [] then [] else to_lower (unicode_lower lib) (tl ext))"

definition status_class :: "log_entry \<Rightarrow> string" where
  "status_class entry =
     (case entry ''status'' of
        None \<Rightarrow> []
      | Some status \<Rightarrow>
          if status = [] then []
          else if (of_char (hd status) :: nat) < 49 \<or> 53 < (of_char (hd status) :: nat) then []
          else hd status # ''xx'')"

definition resolveEnrichment :: "row_lib \<Rightarrow> string \<Rightarrow> log_entry \<Rightarrow> EnrichmentConfig \<Rightarrow> string" where
  "resolveEnrichment lib field entry e =
     (if field = ''_hostname'' then Hostname e
      else if field = ''_environment'' then Environment e
      else if field = ''_service'' then Service e
      else if field = ''_status_class'' then status_class entry
      else if field = ''_referrer_domain'' then extractReferrerDomain lib entry
      else if field = ''_url_extension'' then extractURLExtension lib entry
      else if field = ''_is_bot'' then (if IsBot (parseUA lib entry) then ''1'' else ''0'')
      else if field = ''_bot_name'' then BotName (parseUA lib entry)
      else if field = ''_bot_class'' then BotClass (parseUA lib entry)
      else if field = ''_browser'' then BrowserName (parseUA lib entry)
      else if field = ''_browser_version'' then BrowserMajor (parseUA lib entry)
      else if field = ''_os'' then OSName (parseUA lib entry)
      else if field = ''_device_type'' then DeviceClass (parseUA lib entry)
      else if has_prefix field ''_extra.'' then
        (case Extra e of
           None \<Rightarrow> []
         | Some m \<Rightarrow> (case m (trim_prefix field ''_extra.'') of None \<Rightarrow> [] | Some v \<Rightarrow> v))
      else [])"

section \<open>Rows\<close>

definition buildCell :: "row_lib \<Rightarrow> (string \<times> string) list \<Rightarrow> log_entry \<Rightarrow> EnrichmentConfig \<Rightarrow>
    string \<Rightarrow> go_val" where
  "buildCell lib columns entry enrichments col =
     (let field = (case map_of columns col of None \<Rightarrow> [] | Some f \<Rightarrow> f) in
      if has_prefix field ''_'' then VStr (resolveEnrichment lib field entry enrichments)
      else case entry field of
          None \<Rightarrow> VStr []
        | Some v \<Rightarrow> ParseField (parse_float lib) field v)"

definition buildRow :: "row_lib \<Rightarrow> string list \<Rightarrow> (string \<times> string) list \<Rightarrow> log_entry \<Rightarrow>
    EnrichmentConfig \<Rightarrow> go_val list" where
  "buildRow lib keys columns entry enrichments =
     map (buildCell lib columns entry enrichments) keys"

text \<open>\<open>slices.Sort(slices.Collect(maps.Keys(columns)))\<close>.\<close>

definition sorted_columns :: "(string \<times> string) list \<Rightarrow> string list" where
  "sorted_columns columns = sort (remdups (map fst columns))"

definition back_quoted :: "string \<Rightarrow> string" where
  "back_quoted s = CHR 0x60 # s @ [CHR 0x60]"

definition insert_query :: "ClickHouseConfig \<Rightarrow> string" where
  "insert_query k =
     ''INSERT INTO '' @ back_quoted (DB k) @ ''.'' @ back_quoted (Table k) @ '' ('' @
     join '', '' (map back_quoted (sorted_columns (Columns k))) @ '')''"

section \<open>The connection\<close>

text \<open>
  The driver \<open>clickhouse-go\<close>, its connections and batches being opaque handles.  Every call may
  change the world and answer with an error (\<open>'e\<close>).
\<close>

record tls_config =
  InsecureSkipVerify :: bool
  RootCAs :: "string option"
  Certificates :: "(string \<times> string) option"

record ch_options =
  Addr :: string
  Database :: string
  Username :: string
  AuthPassword :: string
  OptTLS :: "tls_config option"

text \<open>The settings of the context an insert is prepared with.\<close>

definition async_settings :: "(string \<times> int) list" where
  "async_settings =
     [(''async_insert'', 1), (''wait_for_async_insert'', 1), (''async_insert_busy_timeout_ms'', 200)]"

record ('w, 'e) driver =
  ReadFile :: "string \<Rightarrow> string option"
  AppendCertsFromPEM :: "string \<Rightarrow> bool"
  LoadX509KeyPair :: "string \<Rightarrow> string \<Rightarrow> bool"
  Open :: "ch_options \<Rightarrow> 'w \<Rightarrow> ('e + nat) \<times> 'w"
  Ping :: "nat \<Rightarrow> 'w \<Rightarrow> 'e option \<times> 'w"
  PrepareBatch :: "nat \<Rightarrow> (string \<times> int) list \<Rightarrow> string \<Rightarrow> 'w \<Rightarrow> ('e + nat) \<times> 'w"
  Append :: "nat \<Rightarrow> go_val list \<Rightarrow> 'w \<Rightarrow> 'e option \<times> 'w"
  Send :: "nat \<Rightarrow> 'w \<Rightarrow> 'e option \<times> 'w"
  CloseConn :: "nat \<Rightarrow> 'w \<Rightarrow> 'e option \<times> 'w"

datatype 'e client_error =
  InvalidPort string | ReadCACert string | InvalidCACert string | LoadCertificate
| OpenConnection 'e | PingFailed 'e | PrepareFailed 'e | SendFailed 'e

text \<open>The client: its connection, beside the world it acts on.\<close>

record 'w client =
  conn :: "nat option"
  world :: 'w

definition NewClient :: "'w \<Rightarrow> 'w client" where
  "NewClient w = \<lparr>conn = None, world = w\<rparr>"

text \<open>The TLS part of the options; \<open>AppendCertsFromPEM\<close> sees the content of the file.\<close>

definition tls_ca :: "('w, 'e) driver \<Rightarrow> ClickHouseConfig \<Rightarrow> 'e client_error + string option" where
  "tls_ca drv k =
     (if CACert k = [] then Inr None
      else case ReadFile drv (CACert k) of
          None \<Rightarrow> Inl (ReadCACert (CACert k))
        | Some pem \<Rightarrow>
            if AppendCertsFromPEM drv pem then Inr (Some pem) else Inl (InvalidCACert (CACert k)))"

definition tls_keypair ::
  "('w, 'e) driver \<Rightarrow> ClickHouseConfig \<Rightarrow> 'e client_error + (string \<times> string) option" where
  "tls_keypair drv k =
     (if TLSCertPath k \<noteq> [] \<and> TLSKeyPath k \<noteq> []
      then if LoadX509KeyPair drv (TLSCertPath k) (TLSKeyPath k)
           then Inr (Some (TLSCertPath k, TLSKeyPath k)) else Inl LoadCertificate
      else Inr None)"

definition tls_options ::
  "('w, 'e) driver \<Rightarrow> ClickHouseConfig \<Rightarrow> 'e client_error + tls_config option" where
  "tls_options drv k =
     (if \<not> TLS k then Inr None
      else case tls_ca drv k of
          Inl e \<Rightarrow> Inl e
        | Inr ca \<Rightarrow>
            (case tls_keypair drv k of
               Inl e \<Rightarrow> Inl e
             | Inr pair \<Rightarrow>
                 Inr (Some \<lparr>InsecureSkipVerify = TLSInsecureSkipVerify k, RootCAs = ca,
                            Certificates = pair\<rparr>)))"

definition ch_opts :: "ClickHouseConfig \<Rightarrow> int \<Rightarrow> tls_config option \<Rightarrow> ch_options" where
  "ch_opts k port tls =
     \<lparr>Addr = Host k @ CHR '':'' # show_int port, Database = DB k,
      Username = User (Credentials k), AuthPassword = Password (Credentials k), OptTLS = tls\<rparr>"

text \<open>\<open>connect\<close>: the error, if any, and the client after it.\<close>

definition connect ::
  "('w, 'e) driver \<Rightarrow> ClickHouseConfig \<Rightarrow> 'w client \<Rightarrow> 'e client_error option \<times> 'w client" where
  "connect drv k c =
     (if conn c \<noteq> None then (None, c)
      else case atoi (Port k) of
          None \<Rightarrow> (Some (InvalidPort (Port k)), c)
        | Some port \<Rightarrow>
            (case tls_options drv k of
               Inl e \<Rightarrow> (Some e, c)
             | Inr tls \<Rightarrow>
                 (case Open drv (ch_opts k port tls) (world c) of
                    (Inl e, w) \<Rightarrow> (Some (OpenConnection e), c\<lparr>world := w\<rparr>)
                  | (Inr h, w) \<Rightarrow>
                      (case Ping drv h w of
                         (Some e, w) \<Rightarrow> (Some (PingFailed e), c\<lparr>world := w\<rparr>)
                       | (None, w) \<Rightarrow> (None, c\<lparr>conn := Some h, world := w\<rparr>)))))"

definition resetConn :: "('w, 'e) driver \<Rightarrow> 'w client \<Rightarrow> 'w client" where
  "resetConn drv c =
     (case conn c of
        None \<Rightarrow> c
      | Some h \<Rightarrow> c\<lparr>conn := None, world := snd (CloseConn drv h (world c))\<rparr>)"

text \<open>\<open>Healthy\<close> and \<open>Close\<close>.\<close>

definition Healthy :: "('w, 'e) driver \<Rightarrow> 'w client \<Rightarrow> bool \<times> 'w client" where
  "Healthy drv c =
     (case conn c of
        None \<Rightarrow> (False, c)
      | Some h \<Rightarrow> (case Ping drv h (world c) of (r, w) \<Rightarrow> (r = None, c\<lparr>world := w\<rparr>)))"

definition Close :: "('w, 'e) driver \<Rightarrow> 'w client \<Rightarrow> 'e option \<times> 'w client" where
  "Close drv c =
     (case conn c of
        None \<Rightarrow> (None, c)
      | Some h \<Rightarrow>
          (case CloseConn drv h (world c) of (r, w) \<Rightarrow> (r, c\<lparr>conn := None, world := w\<rparr>)))"

section \<open>\<open>Save\<close>\<close>

text \<open>The loop over the entries; an error of \<open>Append\<close> is logged and the row is skipped.\<close>

fun append_rows ::
  "('w, 'e) driver \<Rightarrow> nat \<Rightarrow> go_val list list \<Rightarrow> 'w \<Rightarrow> 'w" where
  "append_rows drv b [] w = w"
| "append_rows drv b (row # rows) w = append_rows drv b rows (snd (Append drv b row w))"

definition batch_rows :: "row_lib \<Rightarrow> Config \<Rightarrow> log_entry list \<Rightarrow> go_val list list" where
  "batch_rows lib cfg entries =
     map (\<lambda>e. buildRow lib (sorted_columns (Columns (ClickHouse cfg))) (Columns (ClickHouse cfg)) e
             (Enrichments (Settings cfg))) entries"

text \<open>The callback that \<open>Save\<close> passes to \<open>retry.Do\<close>.\<close>

definition save_attempt :: "('w, 'e) driver \<Rightarrow> row_lib \<Rightarrow> Config \<Rightarrow> log_entry list \<Rightarrow>
    'w client \<Rightarrow> 'e client_error option \<times> 'w client" where
  "save_attempt drv lib cfg entries c =
     (case connect drv (ClickHouse cfg) c of
        (Some e, c) \<Rightarrow> (Some e, resetConn drv c)
      | (None, c) \<Rightarrow>
          (case PrepareBatch drv (the (conn c))
                  (if UseServerSideBatching (ClickHouse cfg) then async_settings else [])
                  (insert_query (ClickHouse cfg)) (world c) of
             (Inl e, w) \<Rightarrow> (Some (PrepareFailed e), resetConn drv (c\<lparr>world := w\<rparr>))
           | (Inr b, w) \<Rightarrow>
               (case Send drv b (append_rows drv b (batch_rows lib cfg entries) w) of
                  (Some e, w) \<Rightarrow> (Some (SendFailed e), resetConn drv (c\<lparr>world := w\<rparr>))
                | (None, w) \<Rightarrow> (None, c\<lparr>world := w\<rparr>))))"

text \<open>The defaults of the retry settings; a duration of \<open>s\<close> seconds wraps around at 64 bits.\<close>

definition seconds :: "int \<Rightarrow> int" where
  "seconds s = wrap64 (s * 1000000000)"

definition save_retries :: "RetryConfig \<Rightarrow> int" where
  "save_retries r = (if MaxRetries r = 0 then 3 else MaxRetries r)"

definition save_initial :: "RetryConfig \<Rightarrow> int" where
  "save_initial r =
     (if seconds (BackoffInitialSecs r) = 0 then seconds 1 else seconds (BackoffInitialSecs r))"

definition save_max_delay :: "RetryConfig \<Rightarrow> int" where
  "save_max_delay r =
     (if seconds (BackoffMaxSecs r) = 0 then seconds 30 else seconds (BackoffMaxSecs r))"

text \<open>\<open>Save\<close>: the error or \<open>None\<close>, the client after it, and the sleeps between the attempts.\<close>

definition Save :: "(nat \<Rightarrow> int \<Rightarrow> int) \<Rightarrow> ('w, 'e) driver \<Rightarrow> row_lib \<Rightarrow> Config \<Rightarrow>
    log_entry list \<Rightarrow> 'w client \<Rightarrow> 'e client_error option \<times> 'w client \<times> int list" where
  "Save rand_N drv lib cfg entries c =
     (if entries = [] \<or> Columns (ClickHouse cfg) = [] then (None, c, [])
      else let r = RetryCfg (Settings cfg) in
        retry_Do rand_N (save_retries r) (save_initial r) (save_max_delay r)
          (save_attempt drv lib cfg entries) c)"

section \<open>What the driver promises\<close>

text \<open>
  The documented behaviour that \<open>Save\<close> relies on, over two observations of the world: the rows
  stored in the table and the rows pending in a batch.  A new batch is empty; \<open>Append\<close> adds the
  row or rejects it (\<open>acc\<close> says which rows fit the table); \<open>Send\<close> stores all pending rows when
  it returns \<open>nil\<close>, and after an error may have stored anything more; nothing else stores rows.
\<close>

definition driver_ok :: "('w, 'e) driver \<Rightarrow> ('w \<Rightarrow> go_val list list) \<Rightarrow>
    ('w \<Rightarrow> nat \<Rightarrow> go_val list list) \<Rightarrow> (go_val list \<Rightarrow> bool) \<Rightarrow> bool" where
  "driver_ok drv stored pending acc \<longleftrightarrow>
     (\<forall>opts w. stored (snd (Open drv opts w)) = stored w) \<and>
     (\<forall>h w. stored (snd (Ping drv h w)) = stored w) \<and>
     (\<forall>h w. stored (snd (CloseConn drv h w)) = stored w) \<and>
     (\<forall>h s q w. stored (snd (PrepareBatch drv h s q w)) = stored w \<and>
        (\<forall>b. fst (PrepareBatch drv h s q w) = Inr b \<longrightarrow> pending (snd (PrepareBatch drv h s q w)) b = [])) \<and>
     (\<forall>b row w. stored (snd (Append drv b row w)) = stored w \<and>
        pending (snd (Append drv b row w)) b = pending w b @ (if acc row then [row] else [])) \<and>
     (\<forall>b w. case Send drv b w of
        (None, w') \<Rightarrow> stored w' = stored w @ pending w b
      | (Some e, w') \<Rightarrow> prefix (stored w) (stored w'))"

lemma driver_okD:
  assumes "driver_ok drv stored pending acc"
  shows "stored (snd (Open drv opts w)) = stored w"
    and "stored (snd (Ping drv h w)) = stored w"
    and "stored (snd (CloseConn drv h w)) = stored w"
    and "stored (snd (PrepareBatch drv h s q w)) = stored w"
    and "fst (PrepareBatch drv h s q w) = Inr b \<Longrightarrow> pending (snd (PrepareBatch drv h s q w)) b = []"
    and "stored (snd (Append drv b row w)) = stored w"
    and "pending (snd (Append drv b row w)) b = pending w b @ (if acc row then [row] else [])"
    and "Send drv b w = (None, w') \<Longrightarrow> stored w' = stored w @ pending w b"
    and "Send drv b w = (Some e, w') \<Longrightarrow> prefix (stored w) (stored w')"
proof -
  note conjs = assms [unfolded driver_ok_def]
  show "stored (snd (Open drv opts w)) = stored w" "stored (snd (Ping drv h w)) = stored w"
    "stored (snd (CloseConn drv h w)) = stored w" "stored (snd (PrepareBatch drv h s q w)) = stored w"
    "stored (snd (Append drv b row w)) = stored w"
    "pending (snd (Append drv b row w)) b = pending w b @ (if acc row then [row] else [])"
    by (simp_all add: conjs)
  show "fst (PrepareBatch drv h s q w) = Inr b \<Longrightarrow> pending (snd (PrepareBatch drv h s q w)) b = []"
    using conjs by blast
  have send: "case Send drv b w of
      (None, w') \<Rightarrow> stored w' = stored w @ pending w b
    | (Some e, w') \<Rightarrow> prefix (stored w) (stored w')"
    by (rule conjs [THEN conjunct2, THEN conjunct2, THEN conjunct2, THEN conjunct2,
          THEN conjunct2, rule_format])
  show "Send drv b w = (None, w') \<Longrightarrow> stored w' = stored w @ pending w b"
    "Send drv b w = (Some e, w') \<Longrightarrow> prefix (stored w) (stored w')"
    using send by simp_all
qed

lemma append_rows_stored:
  "driver_ok drv stored pending acc \<Longrightarrow> stored (append_rows drv b rows w) = stored w"
  by (induction rows arbitrary: w) (simp_all add: driver_okD)

lemma append_rows_pending:
  "driver_ok drv stored pending acc \<Longrightarrow>
   pending (append_rows drv b rows w) b = pending w b @ filter acc rows"
  by (induction rows arbitrary: w) (simp_all add: driver_okD)

lemma connect_stored:
  assumes "driver_ok drv stored pending acc"
  shows "stored (world (snd (connect drv k c))) = stored (world c)"
  using driver_okD(1,2) [OF assms]
  by (auto simp: connect_def split: option.split sum.split prod.split)
    (metis snd_conv)+

lemma connect_conn:
  "connect drv k c = (None, c') \<Longrightarrow> \<exists>h. conn c' = Some h"
  "connect drv k c = (Some e, c') \<Longrightarrow> conn c = None \<and> conn c' = None"
  by (auto simp: connect_def split: option.splits sum.splits prod.splits if_splits)

lemma resetConn_conn [simp]: "conn (resetConn drv c) = None"
  by (simp add: resetConn_def split: option.split)

lemma resetConn_stored:
  "driver_ok drv stored pending acc \<Longrightarrow> stored (world (resetConn drv c)) = stored (world c)"
  by (simp add: resetConn_def driver_okD split: option.split)

section \<open>\<open>Save\<close> as a client of \<open>retry.Do\<close>\<close>

definition save_inv :: "('w, 'e) driver \<Rightarrow> ('w \<Rightarrow> go_val list list) \<Rightarrow>
    ('w \<Rightarrow> nat \<Rightarrow> go_val list list) \<Rightarrow> (go_val list \<Rightarrow> bool) \<Rightarrow> go_val list list \<Rightarrow> 'w client \<Rightarrow> bool" where
  "save_inv drv stored pending acc base c \<longleftrightarrow>
     driver_ok drv stored pending acc \<and> prefix base (stored (world c))"

definition save_done :: "('w \<Rightarrow> go_val list list) \<Rightarrow> go_val list list \<Rightarrow> go_val list list \<Rightarrow>
    'w client \<Rightarrow> bool" where
  "save_done stored base rows c \<longleftrightarrow>
     conn c \<noteq> None \<and> (\<exists>extra. stored (world c) = base @ extra @ rows)"

definition save_failed :: "'w client \<Rightarrow> 'e client_error \<Rightarrow> bool" where
  "save_failed c e \<longleftrightarrow> conn c = None"

lemma save_attempt_stores:
  assumes ok: "driver_ok drv stored pending acc"
    and "save_attempt drv lib cfg entries c = (None, c')"
  shows "stored (world c') = stored (world c) @ filter acc (batch_rows lib cfg entries)"
    and "conn c' \<noteq> None"
proof -
  from assms(2) obtain c1 b w1 w2 st where conn: "connect drv (ClickHouse cfg) c = (None, c1)"
    and prep: "PrepareBatch drv (the (conn c1)) st (insert_query (ClickHouse cfg)) (world c1) = (Inr b, w1)"
    and send: "Send drv b (append_rows drv b (batch_rows lib cfg entries) w1) = (None, w2)"
    and c': "c' = c1\<lparr>world := w2\<rparr>"
    by (auto simp: save_attempt_def split: prod.splits option.splits sum.splits)
  have "stored w1 = stored (world c)"
    using connect_stored [OF ok, of "ClickHouse cfg" c] conn prep driver_okD(4) [OF ok]
    by (metis snd_conv)
  moreover have "pending w1 b = []" using driver_okD(5) [OF ok] prep by (metis fst_conv snd_conv)
  ultimately show "stored (world c') = stored (world c) @ filter acc (batch_rows lib cfg entries)"
    using driver_okD(8) [OF ok send] c'
    by (simp add: append_rows_stored [OF ok] append_rows_pending [OF ok])
  show "conn c' \<noteq> None" using connect_conn(1) [OF conn] c' by auto
qed

lemma save_attempt_ok:
  assumes "save_inv drv stored pending acc base c"
    and "save_attempt drv lib cfg entries c = (None, c')"
  shows "save_inv drv stored pending acc base c' \<and>
    save_done stored base (filter acc (batch_rows lib cfg entries)) c'"
proof -
  have ok: "driver_ok drv stored pending acc" using assms(1) by (simp add: save_inv_def)
  show ?thesis
    using assms(1) save_attempt_stores [OF ok assms(2)]
    by (auto simp: save_inv_def save_done_def prefix_def)
qed

lemma save_attempt_err:
  assumes "save_inv drv stored pending acc base c"
    and "save_attempt drv lib cfg entries c = (Some e, c')"
  shows "save_inv drv stored pending acc base c' \<and> save_failed c' e"
proof -
  have ok: "driver_ok drv stored pending acc" using assms(1) by (simp add: save_inv_def)
  have "prefix (stored (world c)) (stored (world c')) \<and> conn c' = None"
  proof (cases "connect drv (ClickHouse cfg) c")
    case (Pair r c1)
    have c1: "stored (world c1) = stored (world c)"
      using connect_stored [OF ok, of "ClickHouse cfg" c] Pair by simp
    let ?st = "if UseServerSideBatching (ClickHouse cfg) then async_settings else []"
    obtain p w1 where prep:
      "PrepareBatch drv (the (conn c1)) ?st (insert_query (ClickHouse cfg)) (world c1) = (p, w1)"
      by fastforce
    have w1: "stored w1 = stored (world c)"
      using c1 prep driver_okD(4) [OF ok] by (metis snd_conv)
    show ?thesis
    proof (cases r)
      case (Some e')
      with assms(2) Pair have "c' = resetConn drv c1" by (auto simp: save_attempt_def)
      then show ?thesis using c1 by (simp add: resetConn_stored [OF ok])
    next
      case None
      show ?thesis
      proof (cases p)
        case (Inl e')
        with assms(2) Pair None prep have "c' = resetConn drv (c1\<lparr>world := w1\<rparr>)"
          by (auto simp: save_attempt_def)
        then show ?thesis using w1 by (simp add: resetConn_stored [OF ok])
      next
        case (Inr b)
        with assms(2) Pair None prep obtain e' w2 where
          send: "Send drv b (append_rows drv b (batch_rows lib cfg entries) w1) = (Some e', w2)"
          and c': "c' = resetConn drv (c1\<lparr>world := w2\<rparr>)"
          by (auto simp: save_attempt_def split: prod.splits option.splits)
        have "prefix (stored w1) (stored w2)"
          using driver_okD(9) [OF ok send] by (simp add: append_rows_stored [OF ok])
        then show ?thesis using w1 c' by (simp add: resetConn_stored [OF ok])
      qed
    qed
  qed
  with assms(1) show ?thesis
    by (auto simp: save_inv_def save_failed_def intro: prefix_order.order_trans)
qed

interpretation save: retried_call "save_attempt drv lib cfg entries"
    "save_inv drv stored pending acc base"
    "save_done stored base (filter acc (batch_rows lib cfg entries))" save_failed
  for drv lib cfg entries stored pending acc base
  by unfold_locales (rule save_attempt_ok save_attempt_err; assumption)+

text \<open>A driver for the witnesses: one table that accepts every row; pings fail while it is down.\<close>

record demo_world =
  demo_down :: nat
  demo_rows :: "go_val list list"
  demo_batch :: "go_val list list"

definition demo_driver :: "(demo_world, string) driver" where
  "demo_driver =
     \<lparr>ReadFile = (\<lambda>_. None), AppendCertsFromPEM = (\<lambda>_. False), LoadX509KeyPair = (\<lambda>_ _. False),
      Open = (\<lambda>_ w. (Inr 7, w)),
      Ping = (\<lambda>_ w. if demo_down w = 0 then (None, w)
                    else (Some ''refused'', w\<lparr>demo_down := demo_down w - 1\<rparr>)),
      PrepareBatch = (\<lambda>_ _ _ w. (Inr 1, w\<lparr>demo_batch := []\<rparr>)),
      Append = (\<lambda>_ row w. (None, w\<lparr>demo_batch := demo_batch w @ [row]\<rparr>)),
      Send = (\<lambda>_ w. (None, w\<lparr>demo_rows := demo_rows w @ demo_batch w\<rparr>)),
      CloseConn = (\<lambda>_ w. (None, w))\<rparr>"

lemma demo_driver_ok:
  "driver_ok demo_driver demo_rows (\<lambda>w b. demo_batch w) (\<lambda>_. True)"
  by (simp add: driver_ok_def demo_driver_def)

definition demo_lib :: row_lib where
  "demo_lib =
     \<lparr>parse_float = (\<lambda>_. None), unicode_lower = id, url_host = (\<lambda>_. None),
      ParseString = (\<lambda>_. \<lparr>IsBot = True, BotName = [], BotClass = [], BrowserName = [],
        BrowserMajor = [], OSName = [], DeviceClass = []\<rparr>),
      ua_zero = \<lparr>IsBot = False, BotName = [], BotClass = [], BrowserName = [],
        BrowserMajor = [], OSName = [], DeviceClass = []\<rparr>\<rparr>"

definition demo_cfg :: "int \<Rightarrow> Config" where
  "demo_cfg retries =
     \<lparr>Settings = \<lparr>Interval = 5, LogPath = ''/var/log/nginx/access.log'', SeekFromEnd = True,
        MaxBufferSize = 100, RetryCfg = \<lparr>MaxRetries = retries, BackoffInitialSecs = 1,
        BackoffMaxSecs = 30\<rparr>, BufferCfg = \<lparr>BufferType = ''memory'', DiskPath = [], MaxDiskBytes = 0\<rparr>,
        CircuitBreakerCfg = \<lparr>Enabled = False, Threshold = 0, CooldownSecs = 0\<rparr>,
        Enrichments = \<lparr>Hostname = [], Environment = [], Service = ''web'', Extra = None\<rparr>,
        Filters = []\<rparr>,
      ClickHouse = \<lparr>DB = ''logs'', Table = ''access'', Host = ''localhost'', Port = ''9000'',
        TLS = False, TLSInsecureSkipVerify = False, CACert = [], TLSCertPath = [], TLSKeyPath = [],
        UseServerSideBatching = False, Columns = [(''svc'', ''_service''), (''addr'', ''remote_addr'')],
        Credentials = \<lparr>User = ''default'', Password = []\<rparr>\<rparr>,
      Nginx = \<lparr>LogType = ''main'', LogFormat = [], LogFormatType = ''json''\<rparr>\<rparr>"

text \<open>
  C9. At-least-once delivery: when \<open>Save\<close> returns \<open>nil\<close> for a batch, every row the table accepts
  has been stored, in the order of the entries, after whatever was there before; failed attempts
  in between may have stored rows of the batch too (\<open>extra\<close>), and nothing stored is lost.  The
  client is left connected.
\<close>

theorem Save_success:
  assumes "driver_ok drv stored pending acc"
    and "entries \<noteq> []" and "Columns (ClickHouse cfg) \<noteq> []"
    and "0 \<le> MaxRetries (RetryCfg (Settings cfg))"
    and "MaxRetries (RetryCfg (Settings cfg)) < 2 ^ 63 - 1"
    and "Save rand_N drv lib cfg entries c = (None, c', sleeps)"
  shows "conn c' \<noteq> None \<and> (\<exists>extra. stored (world c') =
    stored (world c) @ extra @ filter acc (batch_rows lib cfg entries))"
proof -
  have inv: "save_inv drv stored pending acc (stored (world c)) c"
    using assms(1) by (simp add: save_inv_def)
  have "0 \<le> save_retries (RetryCfg (Settings cfg))" "save_retries (RetryCfg (Settings cfg)) < 2 ^ 63 - 1"
    using assms(4,5) by (simp_all add: save_retries_def)
  then have "save_done stored (stored (world c)) (filter acc (batch_rows lib cfg entries)) c'"
    using save.retry_contract(2) [OF inv] assms(2,3,6) by (simp add: Save_def Let_def)
  then show ?thesis by (simp add: save_done_def)
qed

text \<open>
  With a negative \<open>max_retries\<close> \<open>Save\<close> reports success without having contacted the server:
  the whole batch is lost.
\<close>

theorem Save_negative_retries:
  assumes "MaxRetries (RetryCfg (Settings cfg)) < 0"
    and "int64_range (MaxRetries (RetryCfg (Settings cfg)))"
  shows "Save rand_N drv lib cfg entries c = (None, c, [])"
  using assms
  by (simp add: Save_def Let_def retry_Do_def save_retries_def int64_range_def wrap64_idI)

theorem Save_negative_retries_witness:
  "Save (\<lambda>_ n. n - 1) demo_driver demo_lib (demo_cfg (- 1)) [[''remote_addr'' \<mapsto> ''::1'']]
     (NewClient \<lparr>demo_down = 0, demo_rows = [], demo_batch = []\<rparr>) =
   (None, NewClient \<lparr>demo_down = 0, demo_rows = [], demo_batch = []\<rparr>, [])"
  by (rule Save_negative_retries) (simp_all add: demo_cfg_def int64_range_def)

text \<open>Two evaluations of \<open>Save\<close>: one refused ping and then success, and two refused pings.\<close>

lemmas demo_defs = demo_driver_def demo_cfg_def NewClient_def connect_def tls_options_def
  save_attempt_def resetConn_def seconds_def wrap64_def Let_def save_retries_def retry_Do_def
  Save_def

lemma atoi_9000: "atoi ''9000'' = Some 9000"
  by code_simp

lemma demo_save_recovers:
  "es \<noteq> [] \<Longrightarrow> \<exists>c' sleeps. Save (\<lambda>_ n. n - 1) demo_driver demo_lib (demo_cfg 1) es
     (NewClient \<lparr>demo_down = 1, demo_rows = [], demo_batch = []\<rparr>) = (None, c', sleeps)"
  by (simp add: demo_defs atoi_9000 eval_nat_numeral del: atoi.simps)

lemma demo_save_fails:
  "es \<noteq> [] \<Longrightarrow> \<exists>e c' sleeps. Save (\<lambda>_ n. n - 1) demo_driver demo_lib (demo_cfg 1) es
     (NewClient \<lparr>demo_down = 2, demo_rows = [], demo_batch = []\<rparr>) = (Some e, c', sleeps)"
  by (simp add: demo_defs atoi_9000 eval_nat_numeral del: atoi.simps)

theorem Save_success_witness:
  "\<exists>c' sleeps extra.
     Save (\<lambda>_ n. n - 1) demo_driver demo_lib (demo_cfg 1) [[''remote_addr'' \<mapsto> ''::1'']]
       (NewClient \<lparr>demo_down = 1, demo_rows = [], demo_batch = []\<rparr>) = (None, c', sleeps) \<and>
     demo_rows (world c') = extra @ batch_rows demo_lib (demo_cfg 1) [[''remote_addr'' \<mapsto> ''::1'']]"
proof -
  obtain c' sleeps where run:
    "Save (\<lambda>_ n. n - 1) demo_driver demo_lib (demo_cfg 1) [[''remote_addr'' \<mapsto> ''::1'']]
       (NewClient \<lparr>demo_down = 1, demo_rows = [], demo_batch = []\<rparr>) = (None, c', sleeps)"
    using demo_save_recovers [of "[[''remote_addr'' \<mapsto> ''::1'']]"] by auto
  have "conn c' \<noteq> None \<and> (\<exists>extra. demo_rows (world c') =
      demo_rows (world (NewClient \<lparr>demo_down = 1, demo_rows = [], demo_batch = []\<rparr>)) @ extra @
      filter (\<lambda>_. True) (batch_rows demo_lib (demo_cfg 1) [[''remote_addr'' \<mapsto> ''::1'']]))"
    by (rule Save_success [OF demo_driver_ok _ _ _ _ run]) (simp_all add: demo_cfg_def)
  then show ?thesis using run by (auto simp: NewClient_def)
qed

section \<open>Rows and columns\<close>

lemma sorted_columns_props:
  "sorted (sorted_columns cols)" "distinct (sorted_columns cols)"
  "set (sorted_columns cols) = fst ` set cols"
  by (simp_all add: sorted_columns_def)

text \<open>
  C31. Rows line up with the \<open>INSERT\<close> statement: the statement names, back-quoted, the configured
  columns in strictly ascending order; there is one row for each entry, with one cell for each name of
  the statement, and the cell at the place of a column \<open>col: field\<close> is the enrichment for a field that
  starts with an underscore, else the converted value of the entry's field, or the empty string
  if the entry lacks it.
\<close>

theorem batch_rows_aligned:
  assumes "distinct (map fst (Columns (ClickHouse cfg)))"
  shows "\<exists>names.
    insert_query (ClickHouse cfg) =
      ''INSERT INTO '' @ back_quoted (DB (ClickHouse cfg)) @ ''.'' @ back_quoted (Table (ClickHouse cfg)) @
      '' ('' @ join '', '' (map back_quoted names) @ '')'' \<and>
    sorted_wrt (<) names \<and> set names = fst ` set (Columns (ClickHouse cfg)) \<and>
    length (batch_rows lib cfg entries) = length entries \<and>
    (\<forall>i<length entries. length (batch_rows lib cfg entries ! i) = length names \<and>
      (\<forall>j<length names. \<forall>field. (names ! j, field) \<in> set (Columns (ClickHouse cfg)) \<longrightarrow>
        batch_rows lib cfg entries ! i ! j =
          (if has_prefix field ''_''
           then VStr (resolveEnrichment lib field (entries ! i) (Enrichments (Settings cfg)))
           else case (entries ! i) field of
               None \<Rightarrow> VStr []
             | Some v \<Rightarrow> ParseField (parse_float lib) field v)))"
proof -
  let ?cols = "Columns (ClickHouse cfg)"
  have "map_of ?cols col = Some field" if "(col, field) \<in> set ?cols" for col field
    using assms that by simp
  then show ?thesis
    using sorted_columns_props [of ?cols]
    by (intro exI [of _ "sorted_columns ?cols"])
      (simp add: insert_query_def batch_rows_def buildRow_def buildCell_def strict_sorted_iff)
qed

theorem batch_rows_aligned_witness:
  "\<exists>names. insert_query (ClickHouse (demo_cfg 1)) =
       ''INSERT INTO '' @ back_quoted ''logs'' @ ''.'' @ back_quoted ''access'' @
       '' ('' @ join '', '' (map back_quoted names) @ '')'' \<and>
     set names = {''addr'', ''svc''} \<and>
     (\<forall>j<length names. names ! j = ''svc'' \<longrightarrow>
        batch_rows demo_lib (demo_cfg 1) [Map.empty] ! 0 ! j = VStr ''web'')"
proof -
  have dist: "distinct (map fst (Columns (ClickHouse (demo_cfg 1))))"
    and svc: "(''svc'', ''_service'') \<in> set (Columns (ClickHouse (demo_cfg 1)))"
    and names: "fst ` set (Columns (ClickHouse (demo_cfg 1))) = {''addr'', ''svc''}"
    and table: "DB (ClickHouse (demo_cfg 1)) = ''logs''" "Table (ClickHouse (demo_cfg 1)) = ''access''"
    by (auto simp: demo_cfg_def)
  have web: "resolveEnrichment demo_lib ''_service'' Map.empty (Enrichments (Settings (demo_cfg 1))) = ''web''"
    by (simp add: resolveEnrichment_def demo_cfg_def)
  have pre: "has_prefix ''_service'' ''_''" by (simp add: has_prefix_def)
  obtain ns where ns: "insert_query (ClickHouse (demo_cfg 1)) =
       ''INSERT INTO '' @ back_quoted ''logs'' @ ''.'' @ back_quoted ''access'' @
       '' ('' @ join '', '' (map back_quoted ns) @ '')''"
    "set ns = {''addr'', ''svc''}"
    "\<forall>i<length [Map.empty :: log_entry]. length (batch_rows demo_lib (demo_cfg 1) [Map.empty] ! i) = length ns \<and>
      (\<forall>j<length ns. \<forall>field. (ns ! j, field) \<in> set (Columns (ClickHouse (demo_cfg 1))) \<longrightarrow>
        batch_rows demo_lib (demo_cfg 1) [Map.empty] ! i ! j =
          (if has_prefix field ''_''
           then VStr (resolveEnrichment demo_lib field ([Map.empty] ! i) (Enrichments (Settings (demo_cfg 1))))
           else case ([Map.empty :: log_entry] ! i) field of
               None \<Rightarrow> VStr []
             | Some v \<Rightarrow> ParseField (parse_float demo_lib) field v))"
    using batch_rows_aligned [OF dist, of demo_lib "[Map.empty]"] unfolding names table by (elim exE conjE)
  have "batch_rows demo_lib (demo_cfg 1) [Map.empty] ! 0 ! j = VStr ''web''"
    if "j < length ns" "ns ! j = ''svc''" for j
    using ns(3) [rule_format, of 0, THEN conjunct2, rule_format, of j "''_service''"] that svc web pre by simp
  with ns(1,2) show ?thesis by blast
qed

section \<open>Derived fields\<close>

lemma show_nat_3:
  assumes "100 \<le> n" and "n < 1000"
  shows "show_nat n = [digit (n div 100), digit (n div 10 mod 10), digit (n mod 10)]"
proof -
  have "n div 10 div 10 = n div 100" by (simp add: div_mult2_eq [symmetric])
  then have "n div 10 div 10 < 10" "\<not> n div 10 < 10" "\<not> n < 10" using assms by auto
  with \<open>n div 10 div 10 = n div 100\<close> show ?thesis
    by (simp add: show_nat.simps [of n] show_nat.simps [of "n div 10"]
        show_nat.simps [of "n div 100"])
qed

text \<open>
  The status class of a status code from 100 to 599 is its first digit followed by \<open>xx\<close>; for
  any other three-digit code it is empty.
\<close>

theorem status_class_of_code:
  assumes "entry ''status'' = Some (show_nat n)" and "100 \<le> n" and "n < 1000"
  shows "resolveEnrichment lib ''_status_class'' entry e =
    (if n < 600 then show_nat (n div 100) @ ''xx'' else [])"
proof -
  have "n div 100 < 10" "1 \<le> n div 100" "n div 100 < 6 \<longleftrightarrow> n < 600"
    using assms(2,3) by auto
  then show ?thesis
    using assms(1)
    by (auto simp: resolveEnrichment_def status_class_def show_nat_3 [OF assms(2,3)]
        show_nat.simps [of "n div 100"])
qed

theorem status_class_of_code_witness:
  "resolveEnrichment demo_lib ''_status_class'' [''status'' \<mapsto> ''404'']
     (Enrichments (Settings (demo_cfg 1))) = ''4xx''"
proof -
  have "show_nat 404 = ''404''" "show_nat 4 = ''4''"
    by (simp_all add: show_nat.simps digit_eval)
  then show ?thesis
    using status_class_of_code [of "[''status'' \<mapsto> ''404'']" 404 demo_lib] by simp
qed

lemma ext_scan_eq:
  "CHR ''/'' \<notin> set r \<Longrightarrow> CHR ''.'' \<notin> set r \<Longrightarrow> ext_scan (r @ CHR ''.'' # s) acc = CHR ''.'' # rev r @ acc"
  by (induction r arbitrary: acc) auto

lemma path_Ext_eq:
  "CHR ''/'' \<notin> set e \<Longrightarrow> CHR ''.'' \<notin> set e \<Longrightarrow> path_Ext (p @ CHR ''.'' # e) = CHR ''.'' # e"
  using ext_scan_eq [of "rev e" "rev p" "[]"] by (simp add: path_Ext_def)

lemma takeWhile_query:
  "\<forall>c\<in>set p. c \<noteq> CHR ''?'' \<and> c \<noteq> CHR ''#'' \<Longrightarrow> q = [] \<or> hd q = CHR ''?'' \<or> hd q = CHR ''#'' \<Longrightarrow>
   takeWhile (\<lambda>c. c \<noteq> CHR ''?'' \<and> c \<noteq> CHR ''#'') (p @ q) = p"
  by (induction p) (auto simp: takeWhile_eq_Nil_iff)

text \<open>
  The extension of a request \<open>METHOD path.ext?query PROTO\<close> is the lower-case \<open>ext\<close>, with or
  without a query or a fragment, whatever dots or slashes those hold.
\<close>

theorem url_extension_of_request:
  assumes "entry ''request'' = Some (m @ CHR '' '' # p @ CHR ''.'' # x @ q @ CHR '' '' # proto)"
    and "CHR '' '' \<notin> set m \<union> set p \<union> set x \<union> set q"
    and "CHR ''?'' \<notin> set p \<union> set x" and "CHR ''#'' \<notin> set p \<union> set x"
    and "CHR ''/'' \<notin> set x" and "CHR ''.'' \<notin> set x" and "is_ascii x"
    and "q = [] \<or> hd q = CHR ''?'' \<or> hd q = CHR ''#''"
  shows "extractURLExtension lib entry = map ascii_lower x"
proof -
  let ?url = "(p @ CHR ''.'' # x) @ q"
  have "split_n 3 (CHR '' '') (m @ CHR '' '' # ?url @ CHR '' '' # proto) = [m, ?url, proto]"
    using split_n_pieces [of "CHR '' ''" m 1] split_n_pieces [of "CHR '' ''" ?url 0] assms(2)
    by (simp add: numeral_3_eq_3 numeral_2_eq_2)
  moreover have "takeWhile (\<lambda>c. c \<noteq> CHR ''?'' \<and> c \<noteq> CHR ''#'') ?url = p @ CHR ''.'' # x"
    using assms(3,4,8) by (intro takeWhile_query) auto
  moreover have "path_Ext (p @ CHR ''.'' # x) = CHR ''.'' # x"
    using assms(5,6) by (rule path_Ext_eq)
  ultimately show ?thesis
    using assms(1,7) by (simp add: extractURLExtension_def to_lower_def Let_def)
qed

theorem url_extension_of_request_witness:
  "extractURLExtension demo_lib [''request'' \<mapsto> ''GET /a.b/app.JS?v=1.2/x HTTP/1.1''] = ''js''"
proof -
  have "map ascii_lower ''JS'' = ''js''" by code_simp
  moreover have "is_ascii ''JS''" by code_simp
  ultimately show ?thesis
    using url_extension_of_request [of "[''request'' \<mapsto> ''GET /a.b/app.JS?v=1.2/x HTTP/1.1'']"
        "''GET''" "''/a.b/app''" "''JS''" "''?v=1.2/x''" "''HTTP/1.1''" demo_lib]
    by simp
qed

text \<open>A port suffix of a URL's host: nothing, or a colon and digits.\<close>

definition port_suffix :: "string \<Rightarrow> bool" where
  "port_suffix p \<longleftrightarrow> p = [] \<or> (hd p = CHR '':'' \<and> list_all is_digit (tl p))"

lemma not_digit_colon: "list_all is_digit d \<Longrightarrow> CHR '':'' \<notin> set d"
  by (auto simp: list_all_iff is_digit_def)

lemma cut_port_digits:
  assumes "list_all is_digit d"
  shows "cut_port (h @ CHR '':'' # d) = h"
proof -
  have "CHR '':'' \<notin> set (rev d)" using not_digit_colon [OF assms] by simp
  then have "takeWhile (\<lambda>c. c \<noteq> CHR '':'') (rev d @ CHR '':'' # rev h) = rev d"
    and "dropWhile (\<lambda>c. c \<noteq> CHR '':'') (rev d @ CHR '':'' # rev h) = CHR '':'' # rev h"
    by (induction "rev d" arbitrary: d) (auto simp: takeWhile_append dropWhile_append)
  then show ?thesis using assms by (simp add: cut_port_def)
qed

lemma cut_port_none:
  assumes "CHR '':'' \<notin> set h \<or> \<not> is_digit (last h) \<and> last h \<noteq> CHR '':''"
  shows "cut_port h = h"
proof (cases "CHR '':'' \<in> set h")
  case True
  then obtain t x where t: "h = t @ [x]" by (cases h rule: rev_cases) auto
  with assms True have "\<not> is_digit x" "x \<noteq> CHR '':''" by auto
  with t show ?thesis by (simp add: cut_port_def)
qed (simp add: cut_port_def)

text \<open>
  The referrer domain is the host of the parsed URL without its port, for a name or an IPv4
  address and, without its brackets, for an IPv6 address.
\<close>

theorem referrer_domain_of_host:
  assumes "entry ''http_referer'' = Some r" and "r \<noteq> []" and "r \<noteq> ''-''"
    and "url_host lib r = Some (host @ p)" and "port_suffix p" and "domain \<noteq> []"
    and "CHR ''['' \<notin> set domain" and "CHR '']'' \<notin> set domain"
    and "host = (if CHR '':'' \<in> set domain then CHR ''['' # domain @ '']'' else domain)"
  shows "extractReferrerDomain lib entry = domain"
proof -
  have "cut_port (host @ p) = host"
  proof (cases p)
    case Nil
    have "\<not> is_digit (CHR '']'')" by (simp add: is_digit_def)
    with Nil assms(9) show ?thesis by (simp add: cut_port_none)
  next
    case (Cons c d)
    with assms(5) show ?thesis by (simp add: port_suffix_def cut_port_digits)
  qed
  moreover have "\<not> has_prefix domain ''[''" using assms(7) by (cases domain) auto
  ultimately have "url_Hostname (host @ p) = domain"
    using assms(9) by (auto simp: url_Hostname_def has_suffix_def)
  moreover have "host @ p \<noteq> []" using assms(6,9) by (auto split: if_splits)
  ultimately show ?thesis using assms(1-4) by (auto simp: extractReferrerDomain_def)
qed

theorem referrer_domain_of_host_witness:
  "extractReferrerDomain (demo_lib\<lparr>url_host := (\<lambda>_. Some ''[2001:db8::1]:8443'')\<rparr>)
     [''http_referer'' \<mapsto> ''https://[2001:db8::1]:8443/x''] = ''2001:db8::1''"
proof -
  have "port_suffix '':8443''" by code_simp
  then show ?thesis
    by (rule referrer_domain_of_host
        [where r = "''https://[2001:db8::1]:8443/x''" and host = "''[2001:db8::1]''", rotated 4])
      simp_all
qed

section \<open>Connections\<close>

text \<open>
  A driver that counts, beside its world, the connections opened and not yet closed, and the
  pings that failed.
\<close>

definition counting :: "('w, 'e) driver \<Rightarrow> ('w \<times> int \<times> int, 'e) driver" where
  "counting drv =
     \<lparr>ReadFile = ReadFile drv, AppendCertsFromPEM = AppendCertsFromPEM drv,
      LoadX509KeyPair = LoadX509KeyPair drv,
      Open = (\<lambda>opts (w, n, m). case Open drv opts w of
          (Inl e, w) \<Rightarrow> (Inl e, (w, n, m)) | (Inr h, w) \<Rightarrow> (Inr h, (w, n + 1, m))),
      Ping = (\<lambda>h (w, n, m). case Ping drv h w of
          (Some e, w) \<Rightarrow> (Some e, (w, n, m + 1)) | (None, w) \<Rightarrow> (None, (w, n, m))),
      PrepareBatch = (\<lambda>h s q (w, n, m). case PrepareBatch drv h s q w of (r, w) \<Rightarrow> (r, (w, n, m))),
      Append = (\<lambda>b row (w, n, m). case Append drv b row w of (r, w) \<Rightarrow> (r, (w, n, m))),
      Send = (\<lambda>b (w, n, m). case Send drv b w of (r, w) \<Rightarrow> (r, (w, n, m))),
      CloseConn = (\<lambda>h (w, n, m). case CloseConn drv h w of (r, w) \<Rightarrow> (r, (w, n - 1, m)))\<rparr>"

abbreviation open_conns :: "('w \<times> int \<times> int) client \<Rightarrow> int" where
  "open_conns c \<equiv> fst (snd (world c))"

abbreviation failed_pings :: "('w \<times> int \<times> int) client \<Rightarrow> int" where
  "failed_pings c \<equiv> snd (snd (world c))"

text \<open>The connections a client accounts for, and the open ones that are nobody's.\<close>

definition held :: "'w client \<Rightarrow> int" where
  "held c = (if conn c = None then 0 else 1)"

definition stray :: "('w \<times> int \<times> int) client \<Rightarrow> int" where
  "stray c = open_conns c - held c - failed_pings c"

lemma counting_effects:
  "Open (counting drv) opts w = (Inl e, w') \<Longrightarrow> snd w' = snd w"
  "Open (counting drv) opts w = (Inr h, w') \<Longrightarrow> snd w' = (fst (snd w) + 1, snd (snd w))"
  "Ping (counting drv) h w = (None, w') \<Longrightarrow> snd w' = snd w"
  "Ping (counting drv) h w = (Some e, w') \<Longrightarrow> snd w' = (fst (snd w), snd (snd w) + 1)"
  "PrepareBatch (counting drv) h s q w = (p, w') \<Longrightarrow> snd w' = snd w"
  "Send (counting drv) b w = (r, w') \<Longrightarrow> snd w' = snd w"
  "snd (snd (Append (counting drv) b row w)) = snd w"
  "snd (snd (CloseConn (counting drv) h w)) = (fst (snd w) - 1, snd (snd w))"
  by (auto simp: counting_def split: prod.splits sum.splits option.splits)

lemma counting_rows: "snd (append_rows (counting drv) b rows w) = snd w"
  by (induction rows arbitrary: w) (simp_all add: counting_effects)

lemma counting_reset: "stray (resetConn (counting drv) c) = stray c"
  by (simp add: resetConn_def stray_def held_def counting_effects split: option.split)

lemma counting_connect: "connect (counting drv) k c = (r, c') \<Longrightarrow> stray c' = stray c"
  by (auto simp: connect_def stray_def held_def
      split: option.splits sum.splits prod.splits if_splits dest!: counting_effects(1-4))

text \<open>
  Connections are balanced except on one path: an attempt to save changes the number of open
  connections by the change in those the client holds, plus one for a connection that opened but
  did not answer the ping, which is neither kept nor closed.
\<close>

theorem save_attempt_connections:
  assumes "save_attempt (counting drv) lib cfg entries c = (r, c')"
  shows "open_conns c' - held c' = open_conns c - held c + (failed_pings c' - failed_pings c)"
proof (cases "connect (counting drv) (ClickHouse cfg) c")
  case (Pair r1 c1)
  have same: "stray (c1\<lparr>world := w\<rparr>) = stray c1" if "snd w = snd (world c1)" for w
    using that by (simp add: stray_def held_def)
  have "stray c' = stray c1"
    using assms Pair
    by (auto simp: save_attempt_def counting_reset counting_rows same
        split: prod.splits sum.splits option.splits dest!: counting_effects(5,6))
  with counting_connect [OF Pair] show ?thesis by (simp add: stray_def)
qed

text \<open>Counting changes nothing else.\<close>

lemma counting_world:
  "fst (snd (Open (counting drv) opts w)) = snd (Open drv opts (fst w))"
  "fst (snd (Ping (counting drv) h w)) = snd (Ping drv h (fst w))"
  "fst (snd (CloseConn (counting drv) h w)) = snd (CloseConn drv h (fst w))"
  "fst (snd (PrepareBatch (counting drv) h s q w)) = snd (PrepareBatch drv h s q (fst w))"
  "fst (PrepareBatch (counting drv) h s q w) = fst (PrepareBatch drv h s q (fst w))"
  "fst (snd (Append (counting drv) b row w)) = snd (Append drv b row (fst w))"
  "fst (snd (Send (counting drv) b w)) = snd (Send drv b (fst w))"
  "fst (Send (counting drv) b w) = fst (Send drv b (fst w))"
  by (simp_all add: counting_def split: prod.split sum.split option.split)

lemma counting_ok:
  assumes "driver_ok drv stored pending acc"
  shows "driver_ok (counting drv) (\<lambda>w. stored (fst w)) (\<lambda>w. pending (fst w)) acc"
proof -
  have "case Send (counting drv) b w of
      (None, w') \<Rightarrow> stored (fst w') = stored (fst w) @ pending (fst w) b
    | (Some e, w') \<Rightarrow> prefix (stored (fst w)) (stored (fst w'))" for b w
    using driver_okD(8,9) [OF assms, of b "fst w"] counting_world(7,8) [of drv b w]
    by (cases "Send (counting drv) b w"; cases "Send drv b (fst w)") (simp split: option.split)
  then show ?thesis
    unfolding driver_ok_def counting_world
    by (intro conjI allI impI) (simp_all add: driver_okD(1-4,6,7) [OF assms] driver_okD(5) [OF assms])
qed

text \<open>The retries of \<open>Save\<close> with both observations: the rows stored, and the connections.\<close>

interpretation counted: retried_call "save_attempt (counting drv) lib cfg entries"
    "\<lambda>c. save_inv (counting drv) (\<lambda>w. stored (fst w)) (\<lambda>w. pending (fst w)) acc base c \<and> stray c = n"
    "\<lambda>c. conn c \<noteq> None" "\<lambda>c e. conn c = None"
  for drv lib cfg entries stored pending acc base n
proof unfold_locales
  fix c c' e
  let ?I = "save_inv (counting drv) (\<lambda>w. stored (fst w)) (\<lambda>w. pending (fst w)) acc base"
  assume c: "?I c \<and> stray c = n"
  show "save_attempt (counting drv) lib cfg entries c = (None, c') \<Longrightarrow>
      (?I c' \<and> stray c' = n) \<and> conn c' \<noteq> None"
    using c save_attempt_ok [of _ _ _ _ base c] save_attempt_connections [of drv lib cfg entries c None c']
    by (fastforce simp: save_done_def stray_def)
  show "save_attempt (counting drv) lib cfg entries c = (Some e, c') \<Longrightarrow>
      (?I c' \<and> stray c' = n) \<and> conn c' = None"
    using c save_attempt_err [of _ _ _ _ base c] save_attempt_connections [of drv lib cfg entries c "Some e" c']
    by (fastforce simp: save_failed_def stray_def)
qed

text \<open>
  C22. When \<open>Save\<close> fails, its connections are closed: the driver run with counters shows that the one
  the client held at the start and those opened by the attempts have all been closed, except one
  for every ping that failed (\<open>connect\<close> drops such a connection without closing it); the client holds none, so
  that the next call opens a new one; and no row stored before has been lost.
\<close>

theorem Save_failure:
  assumes "driver_ok drv stored pending acc"
    and "Save rand_N (counting drv) lib cfg entries c = (Some e, c', sleeps)"
  shows "conn c' = None \<and>
    open_conns c' = open_conns c - held c + (failed_pings c' - failed_pings c) \<and>
    prefix (stored (fst (world c))) (stored (fst (world c')))"
proof -
  let ?I = "save_inv (counting drv) (\<lambda>w. stored (fst w)) (\<lambda>w. pending (fst w)) acc (stored (fst (world c)))"
  have inv: "?I c \<and> stray c = stray c" using counting_ok [OF assms(1)] by (simp add: save_inv_def)
  from assms(2) have run: "retry_Do rand_N (save_retries (RetryCfg (Settings cfg)))
      (save_initial (RetryCfg (Settings cfg))) (save_max_delay (RetryCfg (Settings cfg)))
      (save_attempt (counting drv) lib cfg entries) c = (Some e, c', sleeps)"
    by (simp add: Save_def Let_def split: if_splits)
  have "?I c' \<and> stray c' = stray c" by (rule counted.retry_contract(1) [OF inv run])
  moreover have "conn c' = None" by (rule counted.retry_contract(3) [OF inv run refl])
  ultimately show ?thesis by (simp add: save_inv_def stray_def held_def)
qed

text \<open>Two refused pings leave two connections open.\<close>

lemma demo_save_leaks:
  "\<exists>e c' sleeps. Save (\<lambda>_ n. n - 1) (counting demo_driver) demo_lib (demo_cfg 1) [Map.empty]
     (NewClient (\<lparr>demo_down = 2, demo_rows = [], demo_batch = []\<rparr>, 0, 0)) = (Some e, c', sleeps) \<and>
     failed_pings c' = 2"
  by (simp add: demo_defs counting_def atoi_9000 eval_nat_numeral del: atoi.simps)

theorem Save_failure_witness:
  "\<exists>e c' sleeps. Save (\<lambda>_ n. n - 1) (counting demo_driver) demo_lib (demo_cfg 1) [Map.empty]
     (NewClient (\<lparr>demo_down = 2, demo_rows = [], demo_batch = []\<rparr>, 0, 0)) = (Some e, c', sleeps) \<and>
     conn c' = None \<and> open_conns c' = 2"
proof -
  obtain e c' sleeps where run: "Save (\<lambda>_ n. n - 1) (counting demo_driver) demo_lib (demo_cfg 1) [Map.empty]
     (NewClient (\<lparr>demo_down = 2, demo_rows = [], demo_batch = []\<rparr>, 0, 0)) = (Some e, c', sleeps)"
    "failed_pings c' = 2"
    using demo_save_leaks by blast
  from Save_failure [OF demo_driver_ok run(1)] run show ?thesis
    by (auto simp: NewClient_def held_def)
qed

end
