(* ===== verification/Check.thy ===== *)
theory Check
  imports Clickhouse
begin

text \<open>
  The configuration check of the client (\<open>clickhouse/check.go\<close>): four checks in order, each
  reached only if the one before it passed.  The answers of the server to the queries are
  parameters.  Messages are the constructors of a datatype instead of formatted text.
\<close>

datatype 'e check_message =
  OkConnection string string | OkDatabase string | OkTable string
| OkColumns nat nat nat
| FailClient "'e client_error" | FailQuery 'e
| DatabaseNotFound string | TableNotFound string | ColumnsNotFound "string list"

record 'e CheckResult =
  Name :: string
  OK :: bool
  Message :: "'e check_message"

text \<open>
  The queries on the system tables: \<open>QueryRow(...).Scan\<close> of a count, and \<open>Query\<close> of the column
  names, each row of which may fail to scan (\<open>None\<close>, skipped).
\<close>

record 'e schema_queries =
  count_databases :: "string \<Rightarrow> 'e + nat"
  count_tables :: "string \<Rightarrow> string \<Rightarrow> 'e + nat"
  column_names :: "string \<Rightarrow> string \<Rightarrow> 'e + string option list"

definition passed :: "string \<Rightarrow> 'e check_message \<Rightarrow> 'e CheckResult" where
  "passed n m = \<lparr>Name = n, OK = True, Message = m\<rparr>"

definition failed :: "string \<Rightarrow> 'e check_message \<Rightarrow> 'e CheckResult" where
  "failed n m = \<lparr>Name = n, OK = False, Message = m\<rparr>"

text \<open>The configured columns, sorted, that the table lacks; enrichment columns are not looked up.\<close>

definition is_enrichment :: "ClickHouseConfig \<Rightarrow> string \<Rightarrow> bool" where
  "is_enrichment k col \<longleftrightarrow> has_prefix (the (map_of (Columns k) col)) ''_''"

definition missing_columns :: "ClickHouseConfig \<Rightarrow> string option list \<Rightarrow> string list" where
  "missing_columns k names =
     filter (\<lambda>col. \<not> is_enrichment k col \<and> Some col \<notin> set names) (sorted_columns (Columns k))"

definition check_columns :: "'e schema_queries \<Rightarrow> ClickHouseConfig \<Rightarrow> 'e CheckResult" where
  "check_columns q k =
     (case column_names q (DB k) (Table k) of
        Inl e \<Rightarrow> failed ''Columns'' (FailQuery e)
      | Inr names \<Rightarrow>
          let configColumns = sorted_columns (Columns k);
              enrichmentCount = length (filter (is_enrichment k) configColumns);
              tableColumnCount = length configColumns - enrichmentCount;
              missing = missing_columns k names in
            if missing \<noteq> [] then failed ''Columns'' (ColumnsNotFound missing)
            else passed ''Columns'' (OkColumns tableColumnCount tableColumnCount enrichmentCount))"

definition check_table :: "'e schema_queries \<Rightarrow> ClickHouseConfig \<Rightarrow> 'e CheckResult list" where
  "check_table q k =
     (let fullTable = DB k @ ''.'' @ Table k in
      case count_tables q (DB k) (Table k) of
        Inl e \<Rightarrow> [failed ''Table'' (FailQuery e)]
      | Inr n \<Rightarrow>
          if n = 0 then [failed ''Table'' (TableNotFound fullTable)]
          else [passed ''Table'' (OkTable fullTable), check_columns q k])"

definition check_database :: "'e schema_queries \<Rightarrow> ClickHouseConfig \<Rightarrow> 'e CheckResult list" where
  "check_database q k =
     (case count_databases q (DB k) of
        Inl e \<Rightarrow> [failed ''Database'' (FailQuery e)]
      | Inr n \<Rightarrow>
          if n = 0 then [failed ''Database'' (DatabaseNotFound (DB k))]
          else passed ''Database'' (OkDatabase (DB k)) # check_table q k)"

definition Check :: "('w, 'e) driver \<Rightarrow> ('w \<Rightarrow> 'e schema_queries) \<Rightarrow> ClickHouseConfig \<Rightarrow>
    'w client \<Rightarrow> 'e CheckResult list \<times> 'w client" where
  "Check drv q k c =
     (case connect drv k c of
        (Some e, c) \<Rightarrow> ([failed ''ClickHouse connection'' (FailClient e)], c)
      | (None, c) \<Rightarrow>
          (passed ''ClickHouse connection'' (OkConnection (Host k) (Port k)) #
             check_database (q (world c)) k, c))"

section \<open>What a check says\<close>

lemmas check_defs = Check_def check_database_def check_table_def check_columns_def
  passed_def failed_def

text \<open>
  \<open>Check\<close> stops at the first failure: every result but the last is a pass, and all four checks
  are reported exactly when the first three passed.
\<close>

theorem Check_stops_at_failure:
  "let rs = fst (Check drv q k c) in
     rs \<noteq> [] \<and> list_all OK (butlast rs) \<and> length rs \<le> 4 \<and>
     map Name rs = take (length rs) [''ClickHouse connection'', ''Database'', ''Table'', ''Columns''] \<and>
     (if length rs < 4 then \<not> OK (last rs) else True)"
  by (auto simp: check_defs Let_def split: prod.split option.split sum.split)

text \<open>What a schema needs to pass.\<close>

definition schema_ok :: "'e schema_queries \<Rightarrow> ClickHouseConfig \<Rightarrow> bool" where
  "schema_ok q k \<longleftrightarrow>
     (case count_databases q (DB k) of Inl e \<Rightarrow> False | Inr n \<Rightarrow> 0 < n) \<and>
     (case count_tables q (DB k) (Table k) of Inl e \<Rightarrow> False | Inr n \<Rightarrow> 0 < n) \<and>
     (case column_names q (DB k) (Table k) of
        Inl e \<Rightarrow> False
      | Inr names \<Rightarrow> list_all (\<lambda>(col, field). has_prefix field ''_'' \<or> Some col \<in> set names) (Columns k))"

lemma missing_columns_Nil:
  assumes "distinct (map fst (Columns k))"
  shows "missing_columns k names = [] \<longleftrightarrow>
    list_all (\<lambda>(col, field). has_prefix field ''_'' \<or> Some col \<in> set names) (Columns k)"
  using assms
  by (auto simp: missing_columns_def filter_empty_conv sorted_columns_props is_enrichment_def
      list_all_iff dest!: bspec)

text \<open>
  C40. All checks pass exactly when the client can connect, database and table exist, and every
  column that is configured with a log field is a column of the table.  Enrichment columns may
  be absent from the table, although \<open>Save\<close> inserts into them.
\<close>

theorem Check_all_ok:
  assumes "distinct (map fst (Columns k))" and "connect drv k c = (r, c')"
  shows "list_all OK (fst (Check drv q k c)) \<longleftrightarrow> r = None \<and> schema_ok (q (world c')) k"
  using assms(2) missing_columns_Nil [OF assms(1)]
  by (auto simp: check_defs schema_ok_def Let_def split: option.split sum.split)

text \<open>The table of the witness has the column \<open>addr\<close> but not the enrichment column \<open>svc\<close>.\<close>

definition demo_schema :: "string schema_queries" where
  "demo_schema =
     \<lparr>count_databases = (\<lambda>_. Inr 1), count_tables = (\<lambda>_ _. Inr 1),
      column_names = (\<lambda>_ _. Inr [Some ''addr''])\<rparr>"

lemma demo_connects:
  "\<exists>c'. connect demo_driver (ClickHouse (demo_cfg 1))
     (NewClient \<lparr>demo_down = 0, demo_rows = [], demo_batch = []\<rparr>) = (None, c')"
  by (simp add: demo_defs atoi_9000 del: atoi.simps)

theorem Check_all_ok_witness:
  "list_all OK (fst (Check demo_driver (\<lambda>_. demo_schema) (ClickHouse (demo_cfg 1))
      (NewClient \<lparr>demo_down = 0, demo_rows = [], demo_batch = []\<rparr>))) \<and>
   ''svc'' \<in> set (sorted_columns (Columns (ClickHouse (demo_cfg 1)))) \<and>
   column_names demo_schema ''logs'' ''access'' = Inr [Some ''addr'']"
proof -
  obtain c' where c: "connect demo_driver (ClickHouse (demo_cfg 1))
     (NewClient \<lparr>demo_down = 0, demo_rows = [], demo_batch = []\<rparr>) = (None, c')"
    using demo_connects by blast
  have "distinct (map fst (Columns (ClickHouse (demo_cfg 1))))" by (simp add: demo_cfg_def)
  from Check_all_ok [OF this c, of "\<lambda>_. demo_schema"] show ?thesis
    by (simp add: schema_ok_def demo_schema_def demo_cfg_def sorted_columns_props)
qed

end
