(* ===== verification/CircuitBreaker.thy ===== *)
theory CircuitBreaker
  imports GoLib
begin

text \<open>
  Package \<open>circuitbreaker\<close> (src/circuitbreaker/circuitbreaker.go).  Every method holds the
  mutex for its whole body, so each is one atomic state transformer.  The clock reading
  (\<open>time.Now\<close>, also inside \<open>time.Since\<close>) is an argument, in nanoseconds.  The \<open>default\<close> branch of
  \<open>Allow\<close> has no counterpart: the field \<open>state\<close> is private and only ever holds one of the three
  constants, which are the constructors of \<open>cb_state\<close>.
\<close>

section \<open>State and operations\<close>

datatype cb_state = StateClosed | StateOpen | StateHalfOpen

fun cb_state_name :: "cb_state \<Rightarrow> string" where
  "cb_state_name StateClosed = ''closed''"
| "cb_state_name StateOpen = ''open''"
| "cb_state_name StateHalfOpen = ''half-open''"

record circuit_breaker =
  failures :: int
  threshold :: int
  cooldown :: int
  openedAt :: int
  state :: cb_state

definition cb_new :: "int \<Rightarrow> int \<Rightarrow> circuit_breaker" where
  "cb_new thr cool =
     \<lparr>failures = 0, threshold = thr, cooldown = cool, openedAt = 0, state = StateClosed\<rparr>"

text \<open>\<open>time.Since\<close>: the difference, saturated at the range of a \<open>Duration\<close>.\<close>

definition time_since :: "int \<Rightarrow> int \<Rightarrow> int" where
  "time_since now t = max (- (2 ^ 63)) (min (2 ^ 63 - 1) (now - t))"

definition cb_Allow :: "int \<Rightarrow> circuit_breaker \<Rightarrow> bool \<times> circuit_breaker" where
  "cb_Allow now cb =
     (case state cb of
        StateClosed \<Rightarrow> (True, cb)
      | StateOpen \<Rightarrow>
          if time_since now (openedAt cb) \<ge> cooldown cb
          then (True, cb\<lparr>state := StateHalfOpen\<rparr>)
          else (False, cb)
      | StateHalfOpen \<Rightarrow> (True, cb))"

definition cb_RecordSuccess :: "circuit_breaker \<Rightarrow> circuit_breaker" where
  "cb_RecordSuccess cb = cb\<lparr>failures := 0, state := StateClosed\<rparr>"

definition cb_RecordFailure :: "int \<Rightarrow> circuit_breaker \<Rightarrow> circuit_breaker" where
  "cb_RecordFailure now cb =
     (let cb = cb\<lparr>failures := wrap64 (failures cb + 1)\<rparr> in
      if failures cb \<ge> threshold cb
      then cb\<lparr>state := StateOpen, openedAt := now\<rparr>
      else cb)"

definition cb_State :: "circuit_breaker \<Rightarrow> string" where
  "cb_State cb = cb_state_name (state cb)"

lemma cb_state_name_inject [simp]: "cb_state_name a = cb_state_name b \<longleftrightarrow> a = b"
  by (cases a; cases b) simp_all

lemma cb_Allow_fields [simp]:
  "failures (snd (cb_Allow now cb)) = failures cb"
  "threshold (snd (cb_Allow now cb)) = threshold cb"
  "cooldown (snd (cb_Allow now cb)) = cooldown cb"
  "openedAt (snd (cb_Allow now cb)) = openedAt cb"
  by (simp_all add: cb_Allow_def split: cb_state.split)

section \<open>Runs\<close>

text \<open>A run of the breaker: the calls made on it, with the clock readings of those calls.\<close>

datatype cb_event = EvAllow int | EvSuccess | EvFailure int

fun cb_step :: "circuit_breaker \<Rightarrow> cb_event \<Rightarrow> circuit_breaker" where
  "cb_step cb (EvAllow now) = snd (cb_Allow now cb)"
| "cb_step cb EvSuccess = cb_RecordSuccess cb"
| "cb_step cb (EvFailure now) = cb_RecordFailure now cb"

definition cb_run :: "circuit_breaker \<Rightarrow> cb_event list \<Rightarrow> circuit_breaker" where
  "cb_run cb es = foldl cb_step cb es"

lemma cb_run_simps [simp]:
  "cb_run cb [] = cb" "cb_run cb (e # es) = cb_run (cb_step cb e) es"
  "cb_run cb (es @ [e]) = cb_step (cb_run cb es) e"
  by (simp_all add: cb_run_def)

lemma cb_run_static [simp]:
  "threshold (cb_run cb es) = threshold cb" "cooldown (cb_run cb es) = cooldown cb"
proof -
  have "threshold (cb_step cb e) = threshold cb \<and> cooldown (cb_step cb e) = cooldown cb" for cb e
    by (cases e) (simp_all add: cb_RecordSuccess_def cb_RecordFailure_def Let_def)
  then show "threshold (cb_run cb es) = threshold cb" "cooldown (cb_run cb es) = cooldown cb"
    by (induction es arbitrary: cb) simp_all
qed

text \<open>The specification: the number of failures recorded since the last success.\<close>

fun trailing_failures :: "nat \<Rightarrow> cb_event list \<Rightarrow> nat" where
  "trailing_failures n [] = n"
| "trailing_failures n (EvAllow _ # es) = trailing_failures n es"
| "trailing_failures n (EvSuccess # es) = trailing_failures 0 es"
| "trailing_failures n (EvFailure _ # es) = trailing_failures (Suc n) es"

lemma trailing_failures_snoc:
  "trailing_failures n (es @ [e]) =
     (case e of EvAllow _ \<Rightarrow> trailing_failures n es | EvSuccess \<Rightarrow> 0
      | EvFailure _ \<Rightarrow> Suc (trailing_failures n es))"
  by (induction n es rule: trailing_failures.induct) (auto split: cb_event.split)

lemma trailing_failures_le: "trailing_failures n es \<le> n + length es"
  by (induction n es rule: trailing_failures.induct) auto

text \<open>
  The abstraction relation: the counter is the specification's, and the circuit is closed
  exactly while that number is below the threshold.
\<close>

definition cb_abs :: "nat \<Rightarrow> circuit_breaker \<Rightarrow> bool" where
  "cb_abs n cb \<longleftrightarrow> failures cb = int n \<and> (state cb = StateClosed \<longleftrightarrow> int n < threshold cb)"

lemma cb_abs_new: "0 < thr \<Longrightarrow> cb_abs 0 (cb_new thr cool)"
  by (simp add: cb_abs_def cb_new_def)

lemma cb_abs_Allow: "cb_abs n cb \<Longrightarrow> cb_abs n (snd (cb_Allow now cb))"
  by (auto simp: cb_abs_def cb_Allow_def split: cb_state.split)

lemma cb_abs_RecordSuccess: "0 < threshold cb \<Longrightarrow> cb_abs 0 (cb_RecordSuccess cb)"
  by (simp add: cb_abs_def cb_RecordSuccess_def)

lemma cb_abs_RecordFailure:
  "cb_abs n cb \<Longrightarrow> int n + 1 < 2 ^ 63 \<Longrightarrow> cb_abs (Suc n) (cb_RecordFailure now cb)"
  by (auto simp: cb_abs_def cb_RecordFailure_def Let_def wrap64_idI)

lemma cb_run_abs:
  assumes "0 < thr" and "int (length es) < 2 ^ 63"
  shows "cb_abs (trailing_failures 0 es) (cb_run (cb_new thr cool) es)"
  using assms(2)
proof (induction es rule: rev_induct)
  case Nil
  show ?case using assms(1) by (simp add: cb_abs_new)
next
  case (snoc e es)
  then have IH: "cb_abs (trailing_failures 0 es) (cb_run (cb_new thr cool) es)" by simp
  have "threshold (cb_run (cb_new thr cool) es) = thr" by (simp add: cb_new_def)
  moreover have "int (trailing_failures 0 es) + 1 < 2 ^ 63"
    using trailing_failures_le [of 0 es] snoc.prems by simp
  ultimately show ?case
    using IH assms(1)
    by (cases e)
      (simp_all add: trailing_failures_snoc cb_abs_Allow cb_abs_RecordSuccess cb_abs_RecordFailure)
qed

text \<open>
  C19. The breaker implements its specification: after any sequence of calls on a new breaker
  (fewer than \<open>2 ^ 63\<close>), its counter is the number of consecutive failures since the last
  success, and the circuit is closed exactly while that number is below the threshold.
\<close>

theorem cb_run_refines:
  assumes "0 < thr" and "int (length es) < 2 ^ 63"
  shows "failures (cb_run (cb_new thr cool) es) = int (trailing_failures 0 es) \<and>
    (state (cb_run (cb_new thr cool) es) = StateClosed \<longleftrightarrow> int (trailing_failures 0 es) < thr)"
  using cb_run_abs [OF assms, of cool] by (simp add: cb_abs_def cb_new_def)

theorem cb_run_refines_witness:
  "failures (cb_run (cb_new 2 10) [EvFailure 1, EvSuccess, EvFailure 3, EvFailure 4]) = 2 \<and>
   state (cb_run (cb_new 2 10) [EvFailure 1, EvSuccess, EvFailure 3, EvFailure 4]) \<noteq> StateClosed"
  using cb_run_refines [of 2 "[EvFailure 1, EvSuccess, EvFailure 3, EvFailure 4]" 10] by simp

section \<open>Rejection, cool-down and probing\<close>

text \<open>
  A call is rejected exactly when the circuit is open and its cool-down has not elapsed;
  an accepted call of an open circuit is the probe that moves it to half-open, and \<open>Allow\<close>
  changes nothing else.
\<close>

theorem cb_Allow_spec:
  "fst (cb_Allow now cb) =
     (\<not> (state cb = StateOpen \<and> time_since now (openedAt cb) < cooldown cb)) \<and>
   snd (cb_Allow now cb) =
     (if state cb = StateOpen \<and> time_since now (openedAt cb) \<ge> cooldown cb
      then cb\<lparr>state := StateHalfOpen\<rparr> else cb)"
  by (auto simp: cb_Allow_def split: cb_state.split)

definition tripped_at :: "int \<Rightarrow> circuit_breaker \<Rightarrow> bool" where
  "tripped_at t cb \<longleftrightarrow> state cb = StateOpen \<and> openedAt cb = t"

lemma cb_Allow_during_cooldown:
  "tripped_at t cb \<Longrightarrow> time_since now t < cooldown cb \<Longrightarrow> cb_Allow now cb = (False, cb)"
  by (simp add: tripped_at_def cb_Allow_def)

text \<open>
  The failure that trips the breaker at time \<open>t\<close> blocks every call for the cool-down and no
  longer: after it, and any calls of \<open>Allow\<close> inside the cool-down, a call at time \<open>now\<close> is let
  through if and only if the cool-down has elapsed.
\<close>

theorem cb_cooldown_window:
  assumes "failures cb + 1 \<ge> threshold cb" and "int64_range (failures cb + 1)"
    and "\<forall>n\<in>set nows. time_since n t < cooldown cb"
  shows "fst (cb_Allow now (cb_run (cb_RecordFailure t cb) (map EvAllow nows))) =
    (time_since now t \<ge> cooldown cb)"
proof -
  let ?cb = "cb_RecordFailure t cb"
  have trip: "tripped_at t ?cb" and cool: "cooldown ?cb = cooldown cb"
    using assms(1,2) by (simp_all add: tripped_at_def cb_RecordFailure_def Let_def)
  have "cb_run ?cb (map EvAllow nows) = ?cb"
    using assms(3)
  proof (induction nows)
    case (Cons n nows)
    then show ?case using cb_Allow_during_cooldown [OF trip, of n] cool by simp
  qed simp
  with trip cool show ?thesis by (auto simp: cb_Allow_spec tripped_at_def)
qed

theorem cb_cooldown_window_witness:
  "fst (cb_Allow 70 (cb_run (cb_RecordFailure 5 (cb_new 1 60)) (map EvAllow [10, 64]))) \<and>
   \<not> fst (cb_Allow 64 (cb_run (cb_RecordFailure 5 (cb_new 1 60)) (map EvAllow [10, 64])))"
  using cb_cooldown_window [of "cb_new 1 60" "[10, 64]" 5 70]
    cb_cooldown_window [of "cb_new 1 60" "[10, 64]" 5 64]
  by (simp add: cb_new_def int64_range_def time_since_def)

text \<open>
  In the half-open state one success closes the circuit and clears the counter, and one
  failure opens it again with a new cool-down, because the counter was never reset: in every
  run the counter of a breaker that is not closed is at least the threshold.
\<close>

theorem cb_half_open_outcome:
  assumes "0 < thr" and "int (length es) + 1 < 2 ^ 63"
    and "cb = cb_run (cb_new thr cool) es" and "state cb = StateHalfOpen"
  shows "state (cb_RecordSuccess cb) = StateClosed \<and> failures (cb_RecordSuccess cb) = 0 \<and>
    tripped_at now (cb_RecordFailure now cb)"
proof -
  have thr: "threshold cb = thr" using assms(3) by (simp add: cb_new_def)
  have "failures cb = int (trailing_failures 0 es)" and "\<not> int (trailing_failures 0 es) < thr"
    using cb_run_abs [OF assms(1), of es cool] assms(2-4) by (auto simp: cb_abs_def cb_new_def)
  moreover have "int (trailing_failures 0 es) + 1 < 2 ^ 63"
    using trailing_failures_le [of 0 es] assms(2) by simp
  ultimately show ?thesis
    using thr by (simp add: cb_RecordSuccess_def cb_RecordFailure_def tripped_at_def Let_def wrap64_idI)
qed

theorem cb_half_open_outcome_witness:
  "tripped_at 99 (cb_RecordFailure 99 (cb_run (cb_new 1 60) [EvFailure 5, EvAllow 70]))"
  using cb_half_open_outcome [of 1 "[EvFailure 5, EvAllow 70]"
      "cb_run (cb_new 1 60) [EvFailure 5, EvAllow 70]" 60 99]
  by (simp add: cb_new_def cb_RecordFailure_def cb_Allow_def time_since_def Let_def wrap64_def)

text \<open>
  The half-open state does not limit the number of probes: once half-open, the breaker lets
  every call through, any number of them, until a result is recorded (the comments speak of one
  probe request).
\<close>

theorem cb_half_open_unlimited:
  assumes "state cb = StateHalfOpen"
  shows "cb_run cb (map EvAllow nows) = cb \<and>
    fst (cb_Allow now (cb_run cb (map EvAllow nows)))"
proof -
  have "cb_run cb (map EvAllow nows) = cb"
    by (induction nows) (simp_all add: cb_Allow_def assms)
  with assms show ?thesis by (simp add: cb_Allow_def)
qed

theorem cb_half_open_unlimited_witness:
  "fst (cb_Allow 3 (cb_run ((cb_new 1 60)\<lparr>state := StateHalfOpen\<rparr>) (map EvAllow [1, 2])))"
  by (rule cb_half_open_unlimited [THEN conjunct2]) simp

end
