(* ===== verification/Buffer.thy ===== *)
theory Buffer
  imports GoLib "HOL-Library.Multiset"
begin

text \<open>
  Package \<open>buffer\<close>, the interface and the memory buffer (src/buffer/buffer.go).  The methods of
  an implementation hold its mutex for their whole body, so each is one atomic state
  transformer.  \<open>line_buffer\<close> is the contract of the Go interface \<open>Buffer\<close>; the memory buffer,
  the disk buffer (theory DiskBuffer) and the interface value itself (theory Pipeline) are
  interpreted as instances of it.
\<close>

section \<open>The interface\<close>

datatype buffer_error =
    ErrBufferFull
  | ErrCreatingDirectory
  | ErrListingSegments
  | ErrOpeningSegment string
  | ErrWritingSegment
  | ErrReadingSegment string

text \<open>
  The loop with which \<open>flush\<close> puts lines back into a buffer after a failed save (src/main.go),
  for any \<open>Write\<close>: the first component collects the lines whose write failed, which the code
  logs and drops.
\<close>

fun rebuffer :: "('b \<Rightarrow> string \<Rightarrow> buffer_error option \<times> 'b) \<Rightarrow> string list \<Rightarrow> 'b \<Rightarrow>
    string list \<times> 'b" where
  "rebuffer wr [] b = ([], b)"
| "rebuffer wr (l # ls) b =
     (case wr b l of
        (None, b') \<Rightarrow> rebuffer wr ls b'
      | (Some e, b') \<Rightarrow> (case rebuffer wr ls b' of (dropped, b'') \<Rightarrow> (l # dropped, b'')))"

text \<open>A list of lines fits when each fits the buffer its predecessors leave.\<close>

fun fits_all :: "('b \<Rightarrow> string \<Rightarrow> buffer_error option \<times> 'b) \<Rightarrow> ('b \<Rightarrow> string \<Rightarrow> bool) \<Rightarrow>
    'b \<Rightarrow> string list \<Rightarrow> bool" where
  "fits_all wr fits b [] = True"
| "fits_all wr fits b (l # ls) \<longleftrightarrow> fits b l \<and> fits_all wr fits (snd (wr b l)) ls"

text \<open>
  The contract.  \<open>lines\<close> is the abstract content, \<open>okw\<close> says that a write is within the limits
  the buffer is designed for, \<open>fits\<close> that it will succeed.  A successful write appends the
  line, a failed one changes nothing, and \<open>ReadAll\<close> returns the content and empties the buffer.
\<close>

locale line_buffer =
  fixes wr :: "'b \<Rightarrow> string \<Rightarrow> buffer_error option \<times> 'b"
    and read_all :: "'b \<Rightarrow> (buffer_error + string list) \<times> 'b"
    and len :: "'b \<Rightarrow> int"
    and lines :: "'b \<Rightarrow> string list"
    and inv :: "'b \<Rightarrow> bool"
    and okw :: "'b \<Rightarrow> string \<Rightarrow> bool"
    and fits :: "'b \<Rightarrow> string \<Rightarrow> bool"
  assumes write_ok:
      "inv b \<Longrightarrow> okw b l \<Longrightarrow> wr b l = (None, b') \<Longrightarrow> inv b' \<and> lines b' = lines b @ [l]"
    and write_err: "inv b \<Longrightarrow> okw b l \<Longrightarrow> wr b l = (Some e, b') \<Longrightarrow> b' = b"
    and fits_okw: "inv b \<Longrightarrow> fits b l \<Longrightarrow> okw b l \<and> fst (wr b l) = None"
    and read_all_ok: "inv b \<Longrightarrow> fst (read_all b) = Inr (lines b)"
    and read_all_empty: "inv b \<Longrightarrow> inv (snd (read_all b)) \<and> lines (snd (read_all b)) = []"
    and len_lines: "inv b \<Longrightarrow> len b = int (length (lines b))"
begin

lemma write_fits:
  assumes "inv b" and "fits b l"
  obtains b' where "wr b l = (None, b')" and "inv b'" and "lines b' = lines b @ [l]"
  using assms fits_okw write_ok by (metis prod.collapse)

lemma rebuffer_fits:
  "inv b \<Longrightarrow> fits_all wr fits b ls \<Longrightarrow>
   \<exists>b'. rebuffer wr ls b = ([], b') \<and> inv b' \<and> lines b' = lines b @ ls"
proof (induction ls arbitrary: b)
  case Nil
  then show ?case by simp
next
  case (Cons l ls)
  from Cons.prems obtain b1 where b1: "wr b l = (None, b1)" "inv b1" "lines b1 = lines b @ [l]"
    by (auto elim: write_fits)
  with Cons.IH [of b1] Cons.prems show ?case by simp
qed

text \<open>Draining a buffer and putting the lines back restores its content, in order.\<close>

lemma drain_rebuffer:
  assumes "inv b" and "read_all b = (Inr ls, b')" and "fits_all wr fits b' ls"
  shows "\<exists>b''. rebuffer wr ls b' = ([], b'') \<and> inv b'' \<and> lines b'' = lines b \<and> ls = lines b"
  using assms read_all_ok [OF assms(1)] read_all_empty [OF assms(1)] rebuffer_fits [of b' ls]
  by simp

lemma len_empty: "inv b \<Longrightarrow> len (snd (read_all b)) = 0"
  using read_all_empty len_lines by (metis list.size(3) of_nat_0)

end

text \<open>A buffer all of whose writes are within its limits: nothing is ever lost silently.\<close>

locale total_line_buffer = line_buffer +
  assumes always_okw: "inv b \<Longrightarrow> okw b l"
begin

lemma rebuffer_total:
  "inv b \<Longrightarrow> rebuffer wr ls b = (dropped, b') \<Longrightarrow>
   inv b' \<and> (\<exists>kept. lines b' = lines b @ kept \<and> subseq kept ls \<and>
     mset kept + mset dropped = mset ls)"
proof (induction ls arbitrary: b dropped)
  case Nil
  then show ?case by simp
next
  case (Cons l ls)
  obtain r b1 where w: "wr b l = (r, b1)" by fastforce
  show ?case
  proof (cases r)
    case None
    with w Cons.prems write_ok always_okw have b1: "inv b1" "lines b1 = lines b @ [l]" by blast+
    from None w Cons.prems have "rebuffer wr ls b1 = (dropped, b')" by simp
    from Cons.IH [OF b1(1) this] obtain kept where
      "inv b'" "lines b' = lines b1 @ kept" "subseq kept ls" "mset kept + mset dropped = mset ls"
      by blast
    with b1 show ?thesis by (intro conjI exI [of _ "l # kept"]) simp_all
  next
    case (Some e)
    with w Cons.prems write_err always_okw have "b1 = b" by blast
    with Some w Cons.prems obtain d where d: "rebuffer wr ls b = (d, b')" "dropped = l # d"
      by (auto split: prod.splits)
    from Cons.IH [OF Cons.prems(1) d(1)] obtain kept where
      "inv b'" "lines b' = lines b @ kept" "subseq kept ls" "mset kept + mset d = mset ls"
      by blast
    with d show ?thesis by (intro conjI exI [of _ kept]) (simp_all add: list_emb_Cons)
  qed
qed

end

section \<open>The memory buffer\<close>

record mem_buffer =
  mem_lines :: "string list"
  mem_maxSize :: int

text \<open>
  \<open>make([]string, 0, maxSize)\<close> panics for a negative capacity: \<^const>\<open>None\<close>.
\<close>

definition NewMemoryBuffer :: "int \<Rightarrow> mem_buffer option" where
  "NewMemoryBuffer maxSize =
     (if maxSize < 0 then None else Some \<lparr>mem_lines = [], mem_maxSize = maxSize\<rparr>)"

definition mem_Write :: "mem_buffer \<Rightarrow> string \<Rightarrow> buffer_error option \<times> mem_buffer" where
  "mem_Write b line =
     (if int (length (mem_lines b)) \<ge> mem_maxSize b then (Some ErrBufferFull, b)
      else (None, b\<lparr>mem_lines := mem_lines b @ [line]\<rparr>))"

definition mem_ReadAll :: "mem_buffer \<Rightarrow> (buffer_error + string list) \<times> mem_buffer" where
  "mem_ReadAll b = (Inr (mem_lines b), b\<lparr>mem_lines := []\<rparr>)"

definition mem_Replay :: "mem_buffer \<Rightarrow> (buffer_error + string list) \<times> mem_buffer" where
  "mem_Replay b = (Inr [], b)"

definition mem_Len :: "mem_buffer \<Rightarrow> int" where
  "mem_Len b = int (length (mem_lines b))"

definition mem_inv :: "mem_buffer \<Rightarrow> bool" where
  "mem_inv b \<longleftrightarrow> mem_Len b \<le> mem_maxSize b"

definition mem_fits :: "mem_buffer \<Rightarrow> string \<Rightarrow> bool" where
  "mem_fits b l \<longleftrightarrow> mem_Len b < mem_maxSize b"

lemmas mem_defs = mem_Write_def mem_ReadAll_def mem_Replay_def mem_Len_def mem_inv_def mem_fits_def

interpretation mem: total_line_buffer mem_Write mem_ReadAll mem_Len mem_lines mem_inv
  "\<lambda>b l. True" mem_fits
  by unfold_locales (auto simp: mem_defs split: if_splits)

lemma mem_fits_all:
  "mem_Len b + int (length ls) \<le> mem_maxSize b \<Longrightarrow> fits_all mem_Write mem_fits b ls"
  by (induction ls arbitrary: b) (auto simp: mem_defs)

text \<open>The content of a memory buffer after any sequence of calls on it.\<close>

datatype buf_op = OpWrite string | OpReadAll

fun mem_apply :: "mem_buffer \<Rightarrow> buf_op \<Rightarrow> mem_buffer" where
  "mem_apply b (OpWrite l) = snd (mem_Write b l)"
| "mem_apply b OpReadAll = snd (mem_ReadAll b)"

lemma mem_run_inv:
  "mem_inv b \<Longrightarrow> mem_inv (foldl mem_apply b ops) \<and>
   mem_maxSize (foldl mem_apply b ops) = mem_maxSize b"
proof (induction ops arbitrary: b)
  case (Cons x ops)
  have "mem_inv (mem_apply b x)" and "mem_maxSize (mem_apply b x) = mem_maxSize b"
    using Cons.prems by (cases x; simp add: mem_defs)+
  with Cons.IH show ?case by simp
qed simp

text \<open>
  The capacity of a memory buffer is never exceeded: after any sequence of writes and reads
  on a new buffer it holds at most \<open>maxSize\<close> lines; a write fails, with \<open>ErrBufferFull\<close> and no
  effect, exactly when it holds \<open>maxSize\<close> of them.
\<close>

theorem mem_capacity:
  assumes "NewMemoryBuffer maxSize = Some b0" and "b = foldl mem_apply b0 ops"
  shows "mem_Len b \<le> maxSize \<and>
    mem_Write b l = (if mem_Len b = maxSize then (Some ErrBufferFull, b)
                     else (None, b\<lparr>mem_lines := mem_lines b @ [l]\<rparr>))"
proof -
  from assms(1) have "mem_inv b0" and "mem_maxSize b0 = maxSize"
    by (auto simp: NewMemoryBuffer_def mem_defs split: if_splits)
  then have "mem_inv b" and "mem_maxSize b = maxSize"
    using mem_run_inv assms(2) by simp_all
  then show ?thesis by (auto simp: mem_defs)
qed

theorem mem_capacity_witness:
  "fst (mem_Write (foldl mem_apply \<lparr>mem_lines = [], mem_maxSize = 1\<rparr> [OpWrite ''a'']) ''b'') =
   Some ErrBufferFull"
  using mem_capacity [of 1 "\<lparr>mem_lines = [], mem_maxSize = 1\<rparr>" _ "[OpWrite ''a'']" "''b''"]
  by (simp add: NewMemoryBuffer_def mem_defs)

end
