(* ===== verification/DiskBuffer.thy ===== *)
theory DiskBuffer
  imports Buffer
begin

text \<open>
  The disk buffer (src/buffer/disk.go).  The segment directory is part of the state: an
  association list from file names to contents, \<open>dir\<close>.  Paths are the base names of the files
  in the buffer directory, whose own path is assumed to hold no \<open>filepath.Glob\<close>
  metacharacters.  Whether an operating system call fails is decided by the argument
  \<open>disk_io\<close>, one record per call of a method; \<open>io_ok\<close> is the environment in which none fails.
  Sizes and counters stay far below \<open>2 ^ 63\<close> and are plain \<^typ>\<open>int\<close>s.
\<close>

section \<open>Files\<close>

type_synonym directory = "(string \<times> string) list"

definition file_content :: "directory \<Rightarrow> string \<Rightarrow> string" where
  "file_content d f = (case map_of d f of None \<Rightarrow> [] | Some c \<Rightarrow> c)"

text \<open>\<open>os.Create\<close> truncates an existing file.\<close>

definition dir_create :: "string \<Rightarrow> directory \<Rightarrow> directory" where
  "dir_create f d =
     (if f \<in> fst ` set d then map (\<lambda>(g, c). (g, if g = f then [] else c)) d else d @ [(f, [])])"

definition dir_append :: "string \<Rightarrow> string \<Rightarrow> directory \<Rightarrow> directory" where
  "dir_append f data d = map (\<lambda>(g, c). (g, if g = f then c @ data else c)) d"

definition dir_remove :: "string \<Rightarrow> directory \<Rightarrow> directory" where
  "dir_remove f d = filter (\<lambda>(g, c). g \<noteq> f) d"

text \<open>
  What the operating system does: which calls succeed, after how many bytes a read of a file
  fails (\<open>None\<close>: it does not), and after how many bytes a write fails.
\<close>

record disk_io =
  mkdir_ok :: bool
  glob_ok :: bool
  stat_ok :: "string \<Rightarrow> bool"
  open_ok :: "string \<Rightarrow> bool"
  create_ok :: "string \<Rightarrow> bool"
  remove_ok :: "string \<Rightarrow> bool"
  close_ok :: bool
  read_fail :: "string \<Rightarrow> nat option"
  write_fail :: "nat option"

definition io_ok :: disk_io where
  "io_ok = \<lparr>mkdir_ok = True, glob_ok = True, stat_ok = (\<lambda>_. True), open_ok = (\<lambda>_. True),
     create_ok = (\<lambda>_. True), remove_ok = (\<lambda>_. True), close_ok = True,
     read_fail = (\<lambda>_. None), write_fail = None\<rparr>"

lemma io_ok_simps [simp]:
  "mkdir_ok io_ok" "glob_ok io_ok" "stat_ok io_ok f" "open_ok io_ok f" "create_ok io_ok f"
  "remove_ok io_ok f" "close_ok io_ok" "read_fail io_ok f = None" "write_fail io_ok = None"
  by (simp_all add: io_ok_def)

section \<open>Segments\<close>

definition maxSegmentBytes :: int where "maxSegmentBytes = 10 * 1024 * 1024"
definition segmentPrefix :: string where "segmentPrefix = ''segment-''"
definition segmentSuffix :: string where "segmentSuffix = ''.log''"

text \<open>The default token limit of \<open>bufio.Scanner\<close>, which the disk buffer does not raise.\<close>

definition maxScanTokenSize :: nat where "maxScanTokenSize = 64 * 1024"

text \<open>\<open>fmt.Sprintf("%06d", n)\<close>: the sign counts towards the width.\<close>

definition show_06d :: "int \<Rightarrow> string" where
  "show_06d n = (if n < 0 then CHR ''-'' # pad_zero 5 (nat (- n)) else pad_zero 6 (nat n))"

definition segmentName :: "int \<Rightarrow> string" where
  "segmentName n = segmentPrefix @ show_06d n @ segmentSuffix"

text \<open>
  \<open>listSegments\<close>: the names that match \<open>segment-*.log\<close>, sorted.  The prefix and the suffix
  cannot overlap, so the pattern of \<open>filepath.Glob\<close> and the check after it select the same names.
\<close>

definition is_segment :: "string \<Rightarrow> bool" where
  "is_segment f \<longleftrightarrow> has_prefix f segmentPrefix \<and> has_suffix f segmentSuffix"

definition listSegments :: "disk_io \<Rightarrow> directory \<Rightarrow> string list option" where
  "listSegments io d = (if glob_ok io then Some (sort (filter is_segment (map fst d))) else None)"

text \<open>
  Scanning a file: the lines delivered, and whether the scan ended in an error (a read error,
  after which the bytes read so far are still scanned, or a line over the token limit).
\<close>

definition scan_file :: "disk_io \<Rightarrow> directory \<Rightarrow> string \<Rightarrow> string list \<times> bool" where
  "scan_file io d f =
     (case read_fail io f of
        None \<Rightarrow> scan_lines maxScanTokenSize (file_content d f)
      | Some k \<Rightarrow> (fst (scan_lines maxScanTokenSize (take k (file_content d f))), True))"

section \<open>The buffer\<close>

record disk_buffer =
  dir :: directory
  maxBytes :: int
  currentFile :: "string option"
  currentBytes :: int
  segmentCounter :: int
  lineCount :: int

text \<open>\<open>NewDiskBuffer\<close>: the loop over the existing segments, then the next segment number.\<close>

fun count_segments :: "disk_io \<Rightarrow> directory \<Rightarrow> string list \<Rightarrow> int \<Rightarrow> int \<Rightarrow> int \<times> int" where
  "count_segments io d [] bytes nlines = (bytes, nlines)"
| "count_segments io d (seg # segs) bytes nlines =
     (if \<not> stat_ok io seg then count_segments io d segs bytes nlines
      else let bytes = bytes + int (length (file_content d seg)) in
        if \<not> open_ok io seg then count_segments io d segs bytes nlines
        else count_segments io d segs bytes (nlines + int (length (fst (scan_file io d seg)))))"

definition next_segment :: "string list \<Rightarrow> int" where
  "next_segment segments =
     (if segments = [] then 0
      else let numStr = trim_suffix (trim_prefix (last segments) segmentPrefix) segmentSuffix in
        case atoi numStr of Some n \<Rightarrow> n + 1 | None \<Rightarrow> int (length segments))"

definition NewDiskBuffer :: "disk_io \<Rightarrow> directory \<Rightarrow> int \<Rightarrow> buffer_error + disk_buffer" where
  "NewDiskBuffer io d maxB =
     (if \<not> mkdir_ok io then Inl ErrCreatingDirectory
      else case listSegments io d of
          None \<Rightarrow> Inl ErrListingSegments
        | Some segments \<Rightarrow>
            case count_segments io d segments 0 0 of (bytes, nlines) \<Rightarrow>
              Inr \<lparr>dir = d, maxBytes = maxB, currentFile = None, currentBytes = bytes,
                   segmentCounter = next_segment segments, lineCount = nlines\<rparr>)"

text \<open>\<open>openSegment\<close>: \<open>False\<close> and the new state, or \<open>True\<close> for an error.\<close>

definition openSegment :: "disk_io \<Rightarrow> disk_buffer \<Rightarrow> bool \<times> disk_buffer" where
  "openSegment io b =
     (let b = b\<lparr>currentFile := None\<rparr>; name = segmentName (segmentCounter b) in
      if \<not> create_ok io name then (True, b)
      else (False, b\<lparr>dir := dir_create name (dir b), currentFile := Some name,
                    segmentCounter := segmentCounter b + 1\<rparr>))"

definition needsRotation :: "disk_io \<Rightarrow> disk_buffer \<Rightarrow> int \<Rightarrow> bool" where
  "needsRotation io b n =
     (case currentFile b of
        None \<Rightarrow> True
      | Some f \<Rightarrow>
          if \<not> stat_ok io f then True
          else int (length (file_content (dir b) f)) + n > maxSegmentBytes)"

text \<open>\<open>currentFile.Write(data)\<close> and the accounting after it.\<close>

definition append_current :: "disk_io \<Rightarrow> disk_buffer \<Rightarrow> string \<Rightarrow> buffer_error option \<times> disk_buffer" where
  "append_current io b data =
     (case currentFile b of
        None \<Rightarrow> (Some ErrWritingSegment, b)
      | Some f \<Rightarrow>
          case write_fail io of
            Some n \<Rightarrow> (Some ErrWritingSegment, b\<lparr>dir := dir_append f (take n data) (dir b)\<rparr>)
          | None \<Rightarrow> (None, b\<lparr>dir := dir_append f data (dir b),
                            currentBytes := currentBytes b + int (length data),
                            lineCount := lineCount b + 1\<rparr>))"

definition disk_Write :: "disk_io \<Rightarrow> disk_buffer \<Rightarrow> string \<Rightarrow> buffer_error option \<times> disk_buffer" where
  "disk_Write io b line =
     (let data = line @ [nl]; n = int (length data) in
      if maxBytes b > 0 \<and> currentBytes b + n > maxBytes b then (Some ErrBufferFull, b)
      else if currentFile b = None \<or> currentBytes b > 0 \<and> needsRotation io b n
      then case openSegment io b of
          (True, b') \<Rightarrow> (Some (ErrOpeningSegment (segmentName (segmentCounter b'))), b')
        | (False, b') \<Rightarrow> append_current io b' data
      else append_current io b data)"

text \<open>\<open>ReadAll\<close>: the reading loop, the removal loop, and the method.\<close>

fun read_segments :: "disk_io \<Rightarrow> directory \<Rightarrow> string list \<Rightarrow> buffer_error + string list" where
  "read_segments io d [] = Inr []"
| "read_segments io d (seg # segs) =
     (if \<not> open_ok io seg then Inl (ErrOpeningSegment seg)
      else case scan_file io d seg of (ls, err) \<Rightarrow>
        if err then Inl (ErrReadingSegment seg)
        else case read_segments io d segs of Inl e \<Rightarrow> Inl e | Inr rest \<Rightarrow> Inr (ls @ rest))"

definition remove_segments :: "disk_io \<Rightarrow> string list \<Rightarrow> directory \<Rightarrow> directory" where
  "remove_segments io segs d = foldl (\<lambda>d seg. if remove_ok io seg then dir_remove seg d else d) d segs"

definition disk_ReadAll :: "disk_io \<Rightarrow> disk_buffer \<Rightarrow> (buffer_error + string list) \<times> disk_buffer" where
  "disk_ReadAll io b =
     (let b = b\<lparr>currentFile := None\<rparr> in
      case listSegments io (dir b) of
        None \<Rightarrow> (Inl ErrListingSegments, b)
      | Some segments \<Rightarrow>
          if segments = [] then (Inr [], b)
          else case read_segments io (dir b) segments of
              Inl e \<Rightarrow> (Inl e, b)
            | Inr ls \<Rightarrow>
                (Inr ls, b\<lparr>dir := remove_segments io segments (dir b), currentBytes := 0,
                           lineCount := 0, segmentCounter := 0\<rparr>))"

definition disk_Replay :: "disk_io \<Rightarrow> disk_buffer \<Rightarrow> (buffer_error + string list) \<times> disk_buffer" where
  "disk_Replay io b = disk_ReadAll io b"

definition disk_Len :: "disk_buffer \<Rightarrow> int" where
  "disk_Len b = lineCount b"

text \<open>\<open>Close\<close>: \<open>True\<close> for an error.\<close>

definition disk_Close :: "disk_io \<Rightarrow> disk_buffer \<Rightarrow> bool \<times> disk_buffer" where
  "disk_Close io b =
     (case currentFile b of
        None \<Rightarrow> (False, b)
      | Some _ \<Rightarrow> (\<not> close_ok io, b\<lparr>currentFile := None\<rparr>))"

section \<open>Segment names\<close>

text \<open>
  Sorting segment names as strings orders the segments by number, as \<open>ReadAll\<close> needs, as
  long as the numbers stay below a million (the width of \<open>%06d\<close>).
\<close>

theorem segmentName_mono:
  assumes "n < m" and "m < 1000000"
  shows "segmentName (int n) < segmentName (int m)"
proof -
  have len: "length (pad_zero 6 n) = 6" "length (pad_zero 6 m) = 6"
    using assms by (simp_all add: length_pad_zero_eq)
  then have "pad_zero 6 n < pad_zero 6 m"
    using assms(1) by (simp add: digits_val_less_iff pad_zero_digits)
  with len show ?thesis
    by (simp add: segmentName_def show_06d_def less_append_left less_append_same)
qed

theorem segmentName_mono_witness: "segmentName 9 < segmentName 10"
  using segmentName_mono [of 9 10] by simp

text \<open>
  Beyond that width the order breaks: segment 1000000 sorts before segment 999999.
\<close>

theorem segmentName_order_breaks: "segmentName 1000000 < segmentName 999999"
  by (simp add: segmentName_def show_06d_def pad_zero_def show_nat.simps less_append_left digit_eval
      less_char_def)

lemma is_segment_segmentName [simp]: "is_segment (segmentName n)"
  using has_suffix_append [of "segmentPrefix @ show_06d n" segmentSuffix]
  by (simp add: is_segment_def segmentName_def)

lemma segmentName_inject:
  assumes "0 \<le> n" and "0 \<le> m" and "segmentName n = segmentName m"
  shows "n = m"
proof -
  have "pad_zero 6 (nat n) = pad_zero 6 (nat m)"
    using assms by (simp add: segmentName_def show_06d_def)
  then have "nat n = nat m" by (metis digits_val_pad_zero)
  with assms show ?thesis by simp
qed

lemma sorted_segmentNames:
  "sorted_wrt (<) ns \<Longrightarrow> \<forall>n\<in>set ns. n < 1000000 \<Longrightarrow>
   sorted (map (\<lambda>n. segmentName (int n)) ns) \<and> distinct (map (\<lambda>n. segmentName (int n)) ns)"
proof (induction ns)
  case (Cons n ns)
  have "segmentName (int n) < segmentName (int m)" if "m \<in> set ns" for m
    using Cons.prems that by (intro segmentName_mono) auto
  with Cons show ?case by fastforce
qed simp

lemma atoi_segment_number:
  "0 \<le> n \<Longrightarrow> n < 1000000 \<Longrightarrow>
   atoi (trim_suffix (trim_prefix (segmentName n) segmentPrefix) segmentSuffix) = Some n"
  by (simp add: segmentName_def show_06d_def atoi_pad_zero)

section \<open>Content and invariant\<close>

text \<open>
  The segment files of a directory, in directory order, and the lines they hold.  The
  invariant: their names are the names of increasing numbers, all below the counter; each can be
  scanned; the byte and line counts are exact; an open file is the last segment and ends in a
  complete line.
\<close>

definition segs :: "directory \<Rightarrow> directory" where
  "segs d = filter (\<lambda>(f, c). is_segment f) d"

definition content_lines :: "string \<Rightarrow> string list" where
  "content_lines c = fst (scan_lines maxScanTokenSize c)"

definition disk_lines :: "disk_buffer \<Rightarrow> string list" where
  "disk_lines b = concat (map (\<lambda>(f, c). content_lines c) (segs (dir b)))"

definition seg_sizes :: "directory \<Rightarrow> int" where
  "seg_sizes d = (\<Sum>(f, c)\<leftarrow>segs d. int (length c))"

definition numbered :: "nat list \<Rightarrow> directory \<Rightarrow> bool" where
  "numbered ns d \<longleftrightarrow> map fst (segs d) = map (\<lambda>n. segmentName (int n)) ns \<and> sorted_wrt (<) ns \<and>
     (\<forall>n\<in>set ns. n < 1000000)"

definition readable :: "directory \<Rightarrow> bool" where
  "readable d \<longleftrightarrow> (\<forall>(f, c)\<in>set (segs d). \<not> snd (scan_lines maxScanTokenSize c))"

definition open_last :: "disk_buffer \<Rightarrow> bool" where
  "open_last b \<longleftrightarrow>
     (case currentFile b of
        None \<Rightarrow> True
      | Some f \<Rightarrow> segs (dir b) \<noteq> [] \<and> fst (last (segs (dir b))) = f \<and>
                  line_closed (snd (last (segs (dir b)))))"

definition disk_inv :: "disk_buffer \<Rightarrow> bool" where
  "disk_inv b \<longleftrightarrow>
     (\<exists>ns. numbered ns (dir b) \<and> (\<forall>n\<in>set ns. int n < segmentCounter b)) \<and>
     0 \<le> segmentCounter b \<and> segmentCounter b \<le> 1000000 \<and> readable (dir b) \<and> open_last b \<and>
     currentBytes b = seg_sizes (dir b) \<and> lineCount b = int (length (disk_lines b))"

definition disk_okw :: "disk_buffer \<Rightarrow> string \<Rightarrow> bool" where
  "disk_okw b l \<longleftrightarrow> plain_line maxScanTokenSize l \<and> segmentCounter b < 1000000"

definition disk_fits :: "disk_buffer \<Rightarrow> string \<Rightarrow> bool" where
  "disk_fits b l \<longleftrightarrow> disk_okw b l \<and>
     (maxBytes b \<le> 0 \<or> currentBytes b + int (length l) + 1 \<le> maxBytes b)"

lemma numbered_distinct: "numbered ns d \<Longrightarrow> distinct (map fst (segs d))"
  using sorted_segmentNames by (auto simp: numbered_def)

lemma numbered_name:
  assumes "numbered ns d" and "f \<in> fst ` set (segs d)"
  obtains n where "n \<in> set ns" and "f = segmentName (int n)"
proof -
  have "f \<in> set (map fst (segs d))" using assms(2) by simp
  then have "f \<in> set (map (\<lambda>n. segmentName (int n)) ns)"
    using assms(1) by (simp only: numbered_def)
  with that show thesis by auto
qed

lemma map_of_segs: "is_segment f \<Longrightarrow> map_of (segs d) f = map_of d f"
  by (induction d) (auto simp: segs_def)

lemma segs_create:
  "is_segment f \<Longrightarrow> f \<notin> fst ` set (segs d) \<Longrightarrow> segs (dir_create f d) = segs d @ [(f, [])]"
  by (force simp: segs_def dir_create_def)

lemma segs_append: "segs (dir_append f data d) = dir_append f data (segs d)"
  by (induction d) (auto simp: segs_def dir_append_def)

lemma dir_append_last:
  assumes "distinct (map fst (xs @ [(f, c)]))"
  shows "dir_append f data (xs @ [(f, c)]) = xs @ [(f, c @ data)]"
proof -
  have "f \<notin> fst ` set xs" using assms by auto
  then have "dir_append f data xs = xs"
    by (induction xs) (auto simp: dir_append_def)
  then show ?thesis by (simp add: dir_append_def)
qed

section \<open>Every operation keeps the invariant\<close>

lemma disk_lines_snoc:
  "segs (dir b) = xs @ [(f, c)] \<Longrightarrow>
   disk_lines b = concat (map (\<lambda>(f, c). content_lines c) xs) @ content_lines c"
  by (simp add: disk_lines_def)

lemma append_current_segs:
  assumes inv: "disk_inv b" and cur: "currentFile b = Some f"
  obtains xs c where "segs (dir b) = xs @ [(f, c)]" and "line_closed c"
    and "\<not> snd (scan_lines maxScanTokenSize c)"
    and "\<And>data. segs (dir_append f data (dir b)) = xs @ [(f, c @ data)]"
proof -
  obtain ns where ns: "numbered ns (dir b)"
    using inv by (auto simp: disk_inv_def)
  from inv cur have "segs (dir b) \<noteq> []" and "fst (last (segs (dir b))) = f"
    and "line_closed (snd (last (segs (dir b))))"
    by (auto simp: disk_inv_def open_last_def)
  then obtain xs c where segs: "segs (dir b) = xs @ [(f, c)]" and closed: "line_closed c"
    by (metis append_butlast_last_id prod.collapse)
  have "segs (dir_append f data (dir b)) = xs @ [(f, c @ data)]" for data
    using dir_append_last [of xs f c] numbered_distinct [OF ns] segs
    by (simp add: segs_append)
  moreover have "\<not> snd (scan_lines maxScanTokenSize c)"
    using inv segs by (auto simp: disk_inv_def readable_def)
  ultimately show thesis using that segs closed by blast
qed

lemma append_current_step:
  assumes inv: "disk_inv b" and cur: "currentFile b = Some f"
    and plain: "plain_line maxScanTokenSize l"
  shows "\<exists>b'. append_current io_ok b (l @ [nl]) = (None, b') \<and> disk_inv b' \<and>
    disk_lines b' = disk_lines b @ [l]"
proof -
  obtain ns where ns: "numbered ns (dir b)" "\<forall>n\<in>set ns. int n < segmentCounter b"
    using inv by (auto simp: disk_inv_def)
  from inv cur obtain xs c where segs: "segs (dir b) = xs @ [(f, c)]" and closed: "line_closed c"
    and ok: "\<not> snd (scan_lines maxScanTokenSize c)"
    and segs': "segs (dir_append f (l @ [nl]) (dir b)) = xs @ [(f, c @ l @ [nl])]"
    by (rule append_current_segs) blast
  let ?d = "dir_append f (l @ [nl]) (dir b)"
  have scan: "scan_lines maxScanTokenSize (c @ l @ [nl]) = (content_lines c @ [l], False)"
    using scan_lines_snoc [OF closed ok plain] by (simp add: content_lines_def)
  let ?b = "b\<lparr>dir := ?d, currentBytes := currentBytes b + int (length (l @ [nl])),
              lineCount := lineCount b + 1\<rparr>"
  have lines: "disk_lines ?b = disk_lines b @ [l]"
    using disk_lines_snoc [of ?b xs f "c @ l @ [nl]"] disk_lines_snoc [of b xs f c] segs segs' scan
    by (simp add: content_lines_def)
  have "numbered ns ?d" using ns(1) segs segs' by (simp add: numbered_def)
  moreover have "readable ?d" using inv segs segs' scan by (auto simp: disk_inv_def readable_def)
  moreover have "open_last ?b" using cur segs' by (simp add: open_last_def line_closed_def)
  moreover have "seg_sizes ?d = seg_sizes (dir b) + int (length (l @ [nl]))"
    using segs segs' by (simp add: seg_sizes_def)
  ultimately have "disk_inv ?b"
    using inv ns(2) lines by (auto simp: disk_inv_def)
  with lines cur show ?thesis by (simp add: append_current_def)
qed

lemma openSegment_step:
  assumes inv: "disk_inv b" and room: "segmentCounter b < 1000000"
  shows "\<exists>b' f. openSegment io_ok b = (False, b') \<and> disk_inv b' \<and> currentFile b' = Some f \<and>
    disk_lines b' = disk_lines b \<and> segs (dir b') = segs (dir b) @ [(f, [])]"
proof -
  obtain ns where ns: "numbered ns (dir b)" "\<forall>n\<in>set ns. int n < segmentCounter b"
    using inv by (auto simp: disk_inv_def)
  have k: "0 \<le> segmentCounter b" using inv by (simp add: disk_inv_def)
  let ?k = "segmentCounter b" and ?f = "segmentName (segmentCounter b)"
  have new: "?f \<notin> fst ` set (segs (dir b))"
  proof
    assume "?f \<in> fst ` set (segs (dir b))"
    with ns(1) obtain n where "n \<in> set ns" and "?f = segmentName (int n)"
      by (rule numbered_name)
    with segmentName_inject [of "int n" ?k] k ns(2) show False by fastforce
  qed
  let ?d = "dir_create ?f (dir b)"
  have segs': "segs ?d = segs (dir b) @ [(?f, [])]" by (rule segs_create [OF _ new]) simp
  let ?b = "b\<lparr>dir := ?d, currentFile := Some ?f, segmentCounter := ?k + 1\<rparr>"
  have "numbered (ns @ [nat ?k]) ?d"
    using ns k room segs' by (auto simp: numbered_def sorted_wrt_append)
  moreover have "\<forall>n\<in>set (ns @ [nat ?k]). int n < ?k + 1" using ns(2) k by auto
  moreover have "readable ?d" using inv segs' by (auto simp: disk_inv_def readable_def)
  moreover have "open_last ?b" using segs' by (simp add: open_last_def line_closed_def)
  moreover have "seg_sizes ?d = seg_sizes (dir b)" using segs' by (simp add: seg_sizes_def)
  moreover have lines: "disk_lines ?b = disk_lines b"
    using segs' by (simp add: disk_lines_def content_lines_def)
  ultimately have "disk_inv ?b"
    using inv k room unfolding disk_inv_def by (auto intro!: exI [of _ "ns @ [nat ?k]"])
  with lines segs' show ?thesis by (simp add: openSegment_def Let_def)
qed

lemma disk_Write_cases:
  assumes "disk_inv b" and "disk_okw b l"
  shows "if maxBytes b > 0 \<and> currentBytes b + int (length l) + 1 > maxBytes b
    then disk_Write io_ok b l = (Some ErrBufferFull, b)
    else \<exists>b'. disk_Write io_ok b l = (None, b') \<and> disk_inv b' \<and> disk_lines b' = disk_lines b @ [l]"
proof (cases "maxBytes b > 0 \<and> currentBytes b + int (length l) + 1 > maxBytes b")
  case True
  then show ?thesis by (simp add: disk_Write_def Let_def add.assoc)
next
  case False
  have plain: "plain_line maxScanTokenSize l" and room: "segmentCounter b < 1000000"
    using assms(2) by (simp_all add: disk_okw_def)
  show ?thesis
  proof (cases "currentFile b = None \<or> currentBytes b > 0 \<and>
      needsRotation io_ok b (int (length (l @ [nl])))")
    case True
    from openSegment_step [OF assms(1) room] obtain b1 f where
      b1: "openSegment io_ok b = (False, b1)" "disk_inv b1" "currentFile b1 = Some f"
      "disk_lines b1 = disk_lines b"
      by blast
    from append_current_step [OF b1(2,3) plain] b1(1,4) True False show ?thesis
      by (auto simp: disk_Write_def Let_def)
  next
    case no_rotation: False
    then obtain f where "currentFile b = Some f" by auto
    from append_current_step [OF assms(1) this plain] no_rotation False show ?thesis
      by (auto simp: disk_Write_def Let_def)
  qed
qed

lemma listSegments_inv:
  assumes "numbered ns d"
  shows "listSegments io_ok d = Some (map fst (segs d))"
proof -
  have "filter is_segment (map fst d) = map fst (segs d)"
    by (induction d) (auto simp: segs_def)
  moreover have "sorted (map fst (segs d))"
    using assms sorted_segmentNames by (auto simp: numbered_def)
  ultimately show ?thesis by (simp add: listSegments_def sorted_sort_id)
qed

lemma file_content_segs:
  assumes "distinct (map fst (segs d))" and "(f, c) \<in> set (segs d)"
  shows "file_content d f = c"
proof -
  have "is_segment f" using assms(2) by (auto simp: segs_def)
  then have "map_of d f = Some c"
    using map_of_is_SomeI [OF assms] map_of_segs [of f d] by simp
  then show ?thesis by (simp add: file_content_def)
qed

lemma read_segments_ok:
  "\<forall>(f, c)\<in>set xs. file_content d f = c \<and> \<not> snd (scan_lines maxScanTokenSize c) \<Longrightarrow>
   read_segments io_ok d (map fst xs) = Inr (concat (map (\<lambda>(f, c). content_lines c) xs))"
proof (induction xs)
  case (Cons x xs)
  obtain f c where x: "x = (f, c)" by fastforce
  then have "scan_file io_ok d f = (content_lines c, False)"
    using Cons.prems by (auto simp: scan_file_def content_lines_def prod_eq_iff)
  with Cons x show ?case by simp
qed simp

lemma remove_segments_eq:
  "remove_segments io_ok fs d = filter (\<lambda>(g, c). g \<notin> set fs) d"
proof (induction fs arbitrary: d)
  case (Cons f fs)
  then have "remove_segments io_ok (f # fs) d = filter (\<lambda>(g, c). g \<notin> set fs) (dir_remove f d)"
    by (simp add: remove_segments_def)
  then show ?case by (simp add: dir_remove_def filter_filter split_def conj_commute)
qed (simp add: remove_segments_def)

lemma disk_ReadAll_step:
  assumes inv: "disk_inv b"
  shows "\<exists>b'. disk_ReadAll io_ok b = (Inr (disk_lines b), b') \<and> disk_inv b' \<and> segs (dir b') = [] \<and>
    disk_lines b' = [] \<and> maxBytes b' = maxBytes b \<and> currentFile b' = None \<and>
    currentBytes b' = 0 \<and> (segs (dir b) \<noteq> [] \<longrightarrow> segmentCounter b' = 0)"
proof -
  obtain ns where ns: "numbered ns (dir b)" using inv by (auto simp: disk_inv_def)
  have list: "listSegments io_ok (dir b) = Some (map fst (segs (dir b)))"
    by (rule listSegments_inv [OF ns])
  show ?thesis
  proof (cases "segs (dir b) = []")
    case True
    then have "disk_lines b = []" and "currentBytes b = 0"
      using inv by (simp_all add: disk_lines_def disk_inv_def seg_sizes_def)
    moreover have "disk_inv (b\<lparr>currentFile := None\<rparr>)"
      using inv by (simp add: disk_inv_def open_last_def disk_lines_def)
    ultimately show ?thesis using True list by (simp add: disk_ReadAll_def disk_lines_def)
  next
    case False
    have read: "read_segments io_ok (dir b) (map fst (segs (dir b))) = Inr (disk_lines b)"
      unfolding disk_lines_def
      using inv file_content_segs [OF numbered_distinct [OF ns]]
      by (intro read_segments_ok) (auto simp: disk_inv_def readable_def)
    let ?d = "remove_segments io_ok (map fst (segs (dir b))) (dir b)"
    have empty: "segs ?d = []"
      by (force simp: remove_segments_eq segs_def filter_empty_conv)
    let ?b = "b\<lparr>currentFile := None, dir := ?d, currentBytes := 0, lineCount := 0,
                segmentCounter := 0\<rparr>"
    have "disk_inv ?b"
      using empty unfolding disk_inv_def
      by (auto simp: numbered_def readable_def open_last_def seg_sizes_def disk_lines_def
          intro!: exI [of _ "[]"])
    with False list read empty show ?thesis
      by (simp add: disk_ReadAll_def Let_def disk_lines_def)
  qed
qed

interpretation disk: line_buffer "disk_Write io_ok" "disk_ReadAll io_ok" disk_Len disk_lines
  disk_inv disk_okw disk_fits
proof unfold_locales
  fix b l b'
  assume "disk_inv b" "disk_okw b l" "disk_Write io_ok b l = (None, b')"
  with disk_Write_cases [of b l] show "disk_inv b' \<and> disk_lines b' = disk_lines b @ [l]"
    by (auto split: if_splits)
next
  fix b l e b'
  assume "disk_inv b" "disk_okw b l" "disk_Write io_ok b l = (Some e, b')"
  with disk_Write_cases [of b l] show "b' = b" by (auto split: if_splits)
next
  fix b l
  assume "disk_inv b" "disk_fits b l"
  with disk_Write_cases [of b l] show "disk_okw b l \<and> fst (disk_Write io_ok b l) = None"
    by (auto simp: disk_fits_def)
next
  fix b
  assume inv: "disk_inv b"
  from disk_ReadAll_step [OF inv] show "fst (disk_ReadAll io_ok b) = Inr (disk_lines b)"
    and "disk_inv (snd (disk_ReadAll io_ok b)) \<and> disk_lines (snd (disk_ReadAll io_ok b)) = []"
    by auto
  from inv show "disk_Len b = int (length (disk_lines b))"
    by (simp add: disk_Len_def disk_inv_def)
qed

section \<open>What the disk buffer guarantees\<close>

text \<open>
  On a buffer that satisfies the invariant, with no operating system error, a write of a
  trimmed line either is refused with \<open>ErrBufferFull\<close>, changing nothing, exactly when it would
  exceed \<open>maxBytes\<close>, or appends that line to the content.
\<close>

theorem disk_Write_spec:
  assumes "disk_inv b" and "plain_line maxScanTokenSize l" and "segmentCounter b < 1000000"
  shows "if maxBytes b > 0 \<and> currentBytes b + int (length l) + 1 > maxBytes b
    then disk_Write io_ok b l = (Some ErrBufferFull, b)
    else \<exists>b'. disk_Write io_ok b l = (None, b') \<and> disk_inv b' \<and> disk_lines b' = disk_lines b @ [l]"
  using disk_Write_cases assms by (simp add: disk_okw_def)

definition disk_empty :: "int \<Rightarrow> disk_buffer" where
  "disk_empty maxB = \<lparr>dir = [], maxBytes = maxB, currentFile = None, currentBytes = 0,
     segmentCounter = 0, lineCount = 0\<rparr>"

lemma disk_inv_empty: "disk_inv (disk_empty maxB)"
  by (auto simp: disk_inv_def disk_empty_def numbered_def segs_def readable_def open_last_def
      seg_sizes_def disk_lines_def intro!: exI [of _ "[]"])

lemma NewDiskBuffer_empty: "NewDiskBuffer io_ok [] maxB = Inr (disk_empty maxB)"
  by (simp add: NewDiskBuffer_def listSegments_def next_segment_def disk_empty_def)

theorem disk_Write_spec_witness:
  "disk_Write io_ok (disk_empty 2) ''ab'' = (Some ErrBufferFull, disk_empty 2) \<and>
   (\<exists>b'. disk_Write io_ok (disk_empty 3) ''ab'' = (None, b') \<and> disk_lines b' = [''ab''])"
  using disk_Write_spec [OF disk_inv_empty, of "''ab''" 2]
    disk_Write_spec [OF disk_inv_empty, of "''ab''" 3]
  by (auto simp: disk_empty_def plain_line_def maxScanTokenSize_def has_suffix_def
      disk_lines_def segs_def)

text \<open>
  C15. Round trip: lines written to a disk buffer come back from \<open>ReadAll\<close> in the order they were
  written, after those already there, over any number of segment rotations; the files are gone
  and the buffer is empty afterwards.
\<close>

theorem disk_roundtrip:
  assumes "disk_inv b" and "fits_all (disk_Write io_ok) disk_fits b ls"
    and "rebuffer (disk_Write io_ok) ls b = (dropped, b')"
  shows "dropped = [] \<and> fst (disk_ReadAll io_ok b') = Inr (disk_lines b @ ls) \<and>
    segs (dir (snd (disk_ReadAll io_ok b'))) = [] \<and> disk_Len (snd (disk_ReadAll io_ok b')) = 0"
proof -
  from disk.rebuffer_fits [OF assms(1,2)] assms(3) have b': "dropped = []" "disk_inv b'"
    "disk_lines b' = disk_lines b @ ls"
    by auto
  from disk_ReadAll_step [OF b'(2)] b' disk.len_empty [OF b'(2)] show ?thesis by auto
qed

theorem disk_roundtrip_witness:
  "fst (disk_ReadAll io_ok (snd (rebuffer (disk_Write io_ok) [''a'', ''b''] (disk_empty 0)))) =
   Inr [''a'', ''b'']"
proof -
  let ?r = "rebuffer (disk_Write io_ok) [''a'', ''b''] (disk_empty 0)"
  have "fits_all (disk_Write io_ok) disk_fits (disk_empty 0) [''a'', ''b'']"
    by (simp add: disk_fits_def disk_okw_def plain_line_def maxScanTokenSize_def has_suffix_def
        disk_Write_def disk_empty_def Let_def openSegment_def append_current_def needsRotation_def
        split: option.split)
  from disk_roundtrip [OF disk_inv_empty this, of "fst ?r" "snd ?r"]
  have "fst (disk_ReadAll io_ok (snd ?r)) = Inr (disk_lines (disk_empty 0) @ [''a'', ''b''])"
    by simp
  then show ?thesis by (simp add: disk_empty_def disk_lines_def segs_def)
qed

section \<open>Crash recovery\<close>

lemma count_segments_ok:
  "\<forall>(f, c)\<in>set xs. file_content d f = c \<Longrightarrow>
   count_segments io_ok d (map fst xs) bytes nlines =
     (bytes + (\<Sum>(f, c)\<leftarrow>xs. int (length c)),
      nlines + int (length (concat (map (\<lambda>(f, c). content_lines c) xs))))"
proof (induction xs arbitrary: bytes nlines)
  case (Cons x xs)
  obtain f c where x: "x = (f, c)" by fastforce
  then have "fst (scan_file io_ok d f) = content_lines c" and "file_content d f = c"
    using Cons.prems by (auto simp: scan_file_def content_lines_def)
  with Cons x show ?case by (simp add: Let_def)
qed simp

text \<open>Opening a buffer on a directory of another session restores content and invariant.\<close>

lemma NewDiskBuffer_step:
  assumes "numbered ns d" and "readable d"
  shows "\<exists>b. NewDiskBuffer io_ok d maxB = Inr b \<and> disk_inv b \<and> dir b = d \<and> maxBytes b = maxB \<and>
    currentFile b = None \<and>
    (\<forall>n. 0 \<le> n \<longrightarrow> (\<forall>m\<in>set ns. int m < n) \<longrightarrow> segmentCounter b \<le> n)"
proof -
  have list: "listSegments io_ok d = Some (map fst (segs d))"
    by (rule listSegments_inv [OF assms(1)])
  have "\<forall>(f, c)\<in>set (segs d). file_content d f = c"
    using file_content_segs [OF numbered_distinct [OF assms(1)]] by auto
  then have counted: "count_segments io_ok d (map fst (segs d)) 0 0 =
      (seg_sizes d, int (length (concat (map (\<lambda>(f, c). content_lines c) (segs d)))))"
    by (simp add: count_segments_ok seg_sizes_def)
  have names: "map fst (segs d) = map (\<lambda>n. segmentName (int n)) ns"
    and sorted: "sorted_wrt (<) ns" and small: "\<forall>n\<in>set ns. n < 1000000"
    using assms(1) by (auto simp: numbered_def)
  have next_eq: "next_segment (map fst (segs d)) = (if ns = [] then 0 else int (last ns) + 1)"
    using small names
    by (auto simp: next_segment_def Let_def last_map atoi_segment_number)
  have below: "n \<le> last ns" if "n \<in> set ns" for n
    using sorted that by (induction ns) (auto dest: bspec [OF _ last_in_set])
  let ?b = "\<lparr>dir = d, maxBytes = maxB, currentFile = None, currentBytes = seg_sizes d,
      segmentCounter = next_segment (map fst (segs d)),
      lineCount = int (length (concat (map (\<lambda>(f, c). content_lines c) (segs d))))\<rparr>"
  have "last ns < 1000000" if "ns \<noteq> []" using small that by simp
  then have "disk_inv ?b"
    unfolding disk_inv_def using assms below next_eq
    by (fastforce simp: open_last_def disk_lines_def)
  moreover have "next_segment (map fst (segs d)) \<le> n" if "0 \<le> n" "\<forall>m\<in>set ns. int m < n" for n
    using that next_eq by (cases "ns = []") (simp_all add: zless_imp_add1_zle)
  ultimately show ?thesis using list counted by (simp add: NewDiskBuffer_def)
qed

text \<open>
  C16. Crash recovery: lines are written to a disk buffer, then a crash loses everything but the
  directory.  A new buffer on that directory (with any byte limit) reports their number and
  replays them, in order, behind those that were there before.  And when it is written to before it
  is read, its new segments come behind the old ones: a drain gives the old lines, the lines written before
  the crash, and the lines written after it.
\<close>

theorem disk_crash_recovery:
  assumes "disk_inv b" and "fits_all (disk_Write io_ok) disk_fits b ls"
    and "rebuffer (disk_Write io_ok) ls b = (dropped, b1)"
  shows "dropped = [] \<and>
    (\<exists>b2. NewDiskBuffer io_ok (dir b1) maxB = Inr b2 \<and>
      disk_Len b2 = disk_Len b + int (length ls) \<and>
      fst (disk_Replay io_ok b2) = Inr (disk_lines b @ ls) \<and>
      (fits_all (disk_Write io_ok) disk_fits b2 ms \<longrightarrow>
        (\<exists>b3. rebuffer (disk_Write io_ok) ms b2 = ([], b3) \<and>
          fst (disk_ReadAll io_ok b3) = Inr (disk_lines b @ ls @ ms))))"
proof -
  from disk.rebuffer_fits [OF assms(1,2)] assms(3) have b1: "dropped = []" "disk_inv b1"
    "disk_lines b1 = disk_lines b @ ls"
    by auto
  then obtain ns where ns: "numbered ns (dir b1)" "readable (dir b1)" by (auto simp: disk_inv_def)
  from NewDiskBuffer_step [OF ns] obtain b2 where
    b2: "NewDiskBuffer io_ok (dir b1) maxB = Inr b2" "disk_inv b2" "dir b2 = dir b1"
    by blast
  have lines: "disk_lines b2 = disk_lines b @ ls" using b2(3) b1(3) by (simp add: disk_lines_def)
  moreover have "fst (disk_Replay io_ok b2) = Inr (disk_lines b2)"
    using disk.read_all_ok [OF b2(2)] by (simp add: disk_Replay_def)
  moreover have "disk_Len b2 = disk_Len b + int (length ls)"
    using disk.len_lines [OF b2(2)] disk.len_lines [OF assms(1)] lines by simp
  moreover have "\<exists>b3. rebuffer (disk_Write io_ok) ms b2 = ([], b3) \<and>
      fst (disk_ReadAll io_ok b3) = Inr (disk_lines b @ ls @ ms)"
    if fit: "fits_all (disk_Write io_ok) disk_fits b2 ms"
    using disk.rebuffer_fits [OF b2(2) fit] disk.read_all_ok lines by auto
  ultimately show ?thesis using b1(1) b2(1) by auto
qed

theorem disk_crash_recovery_witness:
  "\<exists>b1 b2 b3. disk_Write io_ok (disk_empty 0) ''a'' = (None, b1) \<and>
     NewDiskBuffer io_ok (dir b1) 0 = Inr b2 \<and> fst (disk_Replay io_ok b2) = Inr [''a''] \<and>
     disk_Write io_ok b2 ''b'' = (None, b3) \<and> fst (disk_ReadAll io_ok b3) = Inr [''a'', ''b'']"
proof -
  have fit: "fits_all (disk_Write io_ok) disk_fits b [l]"
    if "maxBytes b = 0" "segmentCounter b \<le> 1" "l = ''a'' \<or> l = ''b''" for b l
    using that by (auto simp: disk_fits_def disk_okw_def plain_line_def maxScanTokenSize_def has_suffix_def)
  have a: "fits_all (disk_Write io_ok) disk_fits (disk_empty 0) [''a'']"
    by (rule fit) (simp_all add: disk_empty_def)
  obtain b1 where b1: "disk_Write io_ok (disk_empty 0) ''a'' = (None, b1)" "segmentCounter b1 = 1"
    by (simp add: disk_empty_def disk_Write_def Let_def openSegment_def append_current_def needsRotation_def)
  then have run: "rebuffer (disk_Write io_ok) [''a''] (disk_empty 0) = ([], b1)" by simp
  from disk.rebuffer_fits [OF disk_inv_empty a] run obtain ns where
    ns: "numbered ns (dir b1)" "readable (dir b1)" "\<forall>n\<in>set ns. int n < segmentCounter b1"
    by (auto simp: disk_inv_def)
  from NewDiskBuffer_step [OF ns(1,2), of 0] ns(3) b1(2) obtain b2 where
    b2: "NewDiskBuffer io_ok (dir b1) 0 = Inr b2" "maxBytes b2 = 0" "segmentCounter b2 \<le> 1"
    by auto
  have "fits_all (disk_Write io_ok) disk_fits b2 [''b'']" using b2(2,3) by (intro fit) simp_all
  with disk_crash_recovery [OF disk_inv_empty a run, of 0 "[''b'']"] b2(1) obtain b3 where
    b3: "rebuffer (disk_Write io_ok) [''b''] b2 = ([], b3)"
      "fst (disk_ReadAll io_ok b3) = Inr (disk_lines (disk_empty 0) @ [''a''] @ [''b''])"
      "fst (disk_Replay io_ok b2) = Inr (disk_lines (disk_empty 0) @ [''a''])"
    by auto
  moreover have "disk_lines (disk_empty 0) = []" by (simp add: disk_empty_def disk_lines_def segs_def)
  moreover have "disk_Write io_ok b2 ''b'' = (None, b3)"
    using b3(1) by (auto split: prod.splits option.splits)
  ultimately show ?thesis using b1(1) b2(1) by (intro exI [of _ b1] exI [of _ b2] exI [of _ b3]) simp
qed

section \<open>Size limits\<close>

text \<open>
  What a write does to the counters, in any environment: the segment counter grows by at most
  one, and the byte count by the size of the line if it succeeds and not at all if it fails.
\<close>

lemma disk_Write_frame:
  assumes "disk_Write io b l = (r, b')"
  shows "maxBytes b' = maxBytes b \<and> segmentCounter b' \<le> segmentCounter b + 1 \<and>
    segmentCounter b \<le> segmentCounter b' \<and>
    currentBytes b' = currentBytes b + (if r = None then int (length l) + 1 else 0)"
  using assms
  by (auto simp: disk_Write_def Let_def append_current_def openSegment_def
      split: if_splits option.splits prod.splits bool.splits)

lemma disk_Write_within:
  assumes "disk_Write io b l = (r, b')" and "0 < maxBytes b" and "currentBytes b \<le> maxBytes b"
  shows "currentBytes b' \<le> maxBytes b"
proof (cases "r = None")
  case True
  then have "\<not> currentBytes b + (int (length l) + 1) > maxBytes b"
    using assms by (auto simp: disk_Write_def Let_def split: if_splits)
  with True disk_Write_frame [OF assms(1)] show ?thesis by simp
next
  case False
  with disk_Write_frame [OF assms(1)] assms(3) show ?thesis by simp
qed

definition seg_bounded :: "directory \<Rightarrow> bool" where
  "seg_bounded d \<longleftrightarrow> (\<forall>(f, c)\<in>set (segs d). int (length c) \<le> maxSegmentBytes)"

lemma seg_size_le: "(f, c) \<in> set (segs d) \<Longrightarrow> int (length c) \<le> seg_sizes d"
proof -
  have nonneg: "0 \<le> (\<Sum>(f, c)\<leftarrow>xs. int (length c))" for xs :: directory
    by (induction xs) auto
  have "(f, c) \<in> set xs \<Longrightarrow> int (length c) \<le> (\<Sum>(f, c)\<leftarrow>xs. int (length c))" for xs :: directory
    by (induction xs) (auto simp: nonneg intro: add_increasing)
  then show "(f, c) \<in> set (segs d) \<Longrightarrow> int (length c) \<le> seg_sizes d" by (simp add: seg_sizes_def)
qed

lemma append_current_bounded:
  assumes "disk_inv b" and "currentFile b = Some f" and "seg_bounded (dir b)"
    and "int (length (file_content (dir b) f)) + int (length data) \<le> maxSegmentBytes"
  shows "seg_bounded (dir (snd (append_current io_ok b data)))"
proof -
  from assms(1,2) obtain xs c where segs: "segs (dir b) = xs @ [(f, c)]"
    and segs': "segs (dir_append f data (dir b)) = xs @ [(f, c @ data)]"
    by (rule append_current_segs) blast
  obtain ns where "numbered ns (dir b)" using assms(1) by (auto simp: disk_inv_def)
  then have "file_content (dir b) f = c"
    by (rule file_content_segs [OF numbered_distinct]) (simp add: segs)
  with assms(2-4) segs segs' show ?thesis
    by (auto simp: seg_bounded_def append_current_def)
qed

lemma disk_Write_seg_bounded:
  assumes inv: "disk_inv b" and okw: "disk_okw b l" and bounded: "seg_bounded (dir b)"
  shows "seg_bounded (dir (snd (disk_Write io_ok b l)))"
proof -
  let ?data = "l @ [nl]"
  have short: "int (length ?data) \<le> maxSegmentBytes" and room: "segmentCounter b < 1000000"
    using okw by (simp_all add: disk_okw_def plain_line_def maxScanTokenSize_def maxSegmentBytes_def)
  consider (full) "maxBytes b > 0 \<and> currentBytes b + int (length ?data) > maxBytes b"
    | (rotate) "\<not> (maxBytes b > 0 \<and> currentBytes b + int (length ?data) > maxBytes b)"
        "currentFile b = None \<or> currentBytes b > 0 \<and> needsRotation io_ok b (int (length ?data))"
    | (append) f where "\<not> (maxBytes b > 0 \<and> currentBytes b + int (length ?data) > maxBytes b)"
        "currentFile b = Some f" "\<not> (currentBytes b > 0 \<and> needsRotation io_ok b (int (length ?data)))"
    by (cases "currentFile b") auto
  then show ?thesis
  proof cases
    case full
    with bounded show ?thesis by (simp add: disk_Write_def Let_def)
  next
    case rotate
    from openSegment_step [OF inv room] obtain b1 f where
      b1: "openSegment io_ok b = (False, b1)" "disk_inv b1" "currentFile b1 = Some f"
      and segs: "segs (dir b1) = segs (dir b) @ [(f, [])]"
      by blast
    obtain ns where "numbered ns (dir b1)" using b1(2) by (auto simp: disk_inv_def)
    then have "file_content (dir b1) f = []"
      by (rule file_content_segs [OF numbered_distinct]) (simp add: segs)
    moreover have "seg_bounded (dir b1)"
      using bounded segs by (simp add: seg_bounded_def maxSegmentBytes_def)
    ultimately have "seg_bounded (dir (snd (append_current io_ok b1 ?data)))"
      using append_current_bounded [OF b1(2,3)] short by simp
    with rotate b1(1) show ?thesis by (auto simp: disk_Write_def Let_def)
  next
    case append
    obtain ns where ns: "numbered ns (dir b)" using inv by (auto simp: disk_inv_def)
    from inv append(2) obtain xs c where segs: "segs (dir b) = xs @ [(f, c)]"
      by (rule append_current_segs) blast
    have content: "file_content (dir b) f = c"
      by (rule file_content_segs [OF numbered_distinct [OF ns]]) (simp add: segs)
    have "int (length c) \<le> currentBytes b"
      using seg_size_le [of f c "dir b"] segs inv by (simp add: disk_inv_def)
    then have "int (length c) + int (length ?data) \<le> maxSegmentBytes"
      using append(2,3) content short by (auto simp: needsRotation_def)
    then have "seg_bounded (dir (snd (append_current io_ok b ?data)))"
      using append_current_bounded [OF inv append(2) bounded] content by simp
    with append show ?thesis by (auto simp: disk_Write_def Let_def)
  qed
qed

text \<open>A session: writes of trimmed lines and drains, from a buffer on an empty directory.\<close>

fun disk_apply :: "disk_io \<Rightarrow> disk_buffer \<Rightarrow> buf_op \<Rightarrow> disk_buffer" where
  "disk_apply io b (OpWrite l) = snd (disk_Write io b l)"
| "disk_apply io b OpReadAll = snd (disk_ReadAll io b)"

fun plain_op :: "buf_op \<Rightarrow> bool" where
  "plain_op (OpWrite l) = plain_line maxScanTokenSize l"
| "plain_op OpReadAll = True"

definition disk_limits :: "disk_buffer \<Rightarrow> bool" where
  "disk_limits b \<longleftrightarrow> disk_inv b \<and> seg_bounded (dir b) \<and>
     (0 < maxBytes b \<longrightarrow> currentBytes b \<le> maxBytes b)"

lemma disk_ReadAll_counter:
  assumes "disk_inv b"
  shows "segmentCounter (snd (disk_ReadAll io_ok b)) \<le> segmentCounter b"
proof (cases "segs (dir b) = []")
  case True
  obtain ns where "numbered ns (dir b)" using assms by (auto simp: disk_inv_def)
  then have "listSegments io_ok (dir b) = Some []" using listSegments_inv True by auto
  then show ?thesis by (simp add: disk_ReadAll_def)
next
  case False
  then show ?thesis using disk_ReadAll_step [OF assms] assms by (auto simp: disk_inv_def)
qed

lemma disk_apply_limits:
  assumes "disk_limits b" and "plain_op x" and "segmentCounter b < 1000000"
  shows "disk_limits (disk_apply io_ok b x) \<and> maxBytes (disk_apply io_ok b x) = maxBytes b \<and>
    segmentCounter (disk_apply io_ok b x) \<le> segmentCounter b + 1"
proof (cases x)
  case (OpWrite l)
  obtain r b' where w: "disk_Write io_ok b l = (r, b')" by fastforce
  have inv: "disk_inv b" using assms(1) by (simp add: disk_limits_def)
  have okw: "disk_okw b l" using assms(2,3) OpWrite by (simp add: disk_okw_def)
  have "disk_inv b'"
    using disk.write_ok [OF inv okw] disk.write_err [OF inv okw] inv w by (cases r) auto
  moreover have "seg_bounded (dir b')"
    using disk_Write_seg_bounded [OF inv okw] assms(1) w by (simp add: disk_limits_def)
  ultimately show ?thesis
    using disk_Write_within [OF w] disk_Write_frame [OF w] assms(1) w OpWrite
    by (auto simp: disk_limits_def)
next
  case OpReadAll
  have inv: "disk_inv b" using assms(1) by (simp add: disk_limits_def)
  from disk_ReadAll_step [OF inv] obtain b' where b': "snd (disk_ReadAll io_ok b) = b'"
    "disk_inv b'" "segs (dir b') = []" "maxBytes b' = maxBytes b" "currentBytes b' = 0"
    "segs (dir b) \<noteq> [] \<longrightarrow> segmentCounter b' = 0"
    by auto
  have "segmentCounter b' \<le> segmentCounter b" using disk_ReadAll_counter [OF inv] b'(1) by simp
  with b' OpReadAll show ?thesis by (simp add: disk_limits_def seg_bounded_def)
qed

lemma disk_run_limits:
  "disk_limits b \<Longrightarrow> list_all plain_op ops \<Longrightarrow> segmentCounter b + int (length ops) \<le> 1000000 \<Longrightarrow>
   disk_limits (foldl (disk_apply io_ok) b ops) \<and>
   maxBytes (foldl (disk_apply io_ok) b ops) = maxBytes b"
proof (induction ops arbitrary: b)
  case (Cons x ops)
  from Cons.prems have step: "disk_limits (disk_apply io_ok b x)"
    "maxBytes (disk_apply io_ok b x) = maxBytes b"
    "segmentCounter (disk_apply io_ok b x) \<le> segmentCounter b + 1"
    using disk_apply_limits [of b x] by simp_all
  with Cons.IH [of "disk_apply io_ok b x"] Cons.prems show ?case by simp
qed simp

text \<open>
  C26. In a session of up to a million operations on a new buffer the segment files together
  never exceed \<open>maxBytes\<close> (when a limit is set), no segment exceeds 10 MB, and \<open>Len\<close> and the
  byte counter are exact.
\<close>

theorem disk_size_bounds:
  assumes "list_all plain_op ops" and "length ops \<le> 1000000"
    and "b = foldl (disk_apply io_ok) (disk_empty maxB) ops"
  shows "(0 < maxB \<longrightarrow> seg_sizes (dir b) \<le> maxB) \<and>
    (\<forall>(f, c)\<in>set (segs (dir b)). int (length c) \<le> maxSegmentBytes) \<and>
    currentBytes b = seg_sizes (dir b) \<and> disk_Len b = int (length (disk_lines b))"
proof -
  have "disk_limits (disk_empty maxB)"
    using disk_inv_empty by (simp add: disk_limits_def seg_bounded_def disk_empty_def segs_def)
  moreover have "segmentCounter (disk_empty maxB) + int (length ops) \<le> 1000000"
    using assms(2) by (simp add: disk_empty_def)
  ultimately have "disk_limits b" and "maxBytes b = maxB"
    using disk_run_limits assms(1,3) by (auto simp: disk_empty_def)
  then show ?thesis
    by (auto simp: disk_limits_def disk_inv_def seg_bounded_def disk_Len_def)
qed

theorem disk_size_bounds_witness:
  "seg_sizes (dir (foldl (disk_apply io_ok) (disk_empty 5) [OpWrite ''abc'', OpWrite ''d''])) \<le> 5"
  using disk_size_bounds [of "[OpWrite ''abc'', OpWrite ''d'']" _ 5]
  by (simp add: plain_line_def maxScanTokenSize_def has_suffix_def)

section \<open>Draining and writing back\<close>

text \<open>
  A buffer whose files hold its lines and nothing else, all of them lines the scanner gives back,
  within the byte limit: what is drained from it can be written back.
\<close>

definition disk_tight :: "disk_buffer \<Rightarrow> bool" where
  "disk_tight b \<longleftrightarrow> disk_inv b \<and> list_all (plain_line maxScanTokenSize) (disk_lines b) \<and>
     currentBytes b = int (length (unlines (disk_lines b))) \<and>
     (0 < maxBytes b \<longrightarrow> currentBytes b \<le> maxBytes b)"

lemma disk_tight_empty: "disk_tight (disk_empty maxB)"
  by (simp add: disk_tight_def disk_inv_empty) (simp add: disk_empty_def disk_lines_def segs_def)

lemma disk_tight_Write:
  assumes "disk_tight b" and "plain_line maxScanTokenSize l" and "segmentCounter b < 1000000"
    and "disk_Write io_ok b l = (r, b')"
  shows "disk_tight b'" and "r = None \<Longrightarrow> disk_lines b' = disk_lines b @ [l]" and "r \<noteq> None \<Longrightarrow> b' = b"
    and "segmentCounter b' \<le> segmentCounter b + 1" and "maxBytes b' = maxBytes b"
proof -
  have inv: "disk_inv b" and okw: "disk_okw b l" using assms by (simp_all add: disk_tight_def disk_okw_def)
  note frame = disk_Write_frame [OF assms(4)]
  show lines: "r = None \<Longrightarrow> disk_lines b' = disk_lines b @ [l]" and same: "r \<noteq> None \<Longrightarrow> b' = b"
    using disk.write_ok [OF inv okw] disk.write_err [OF inv okw] assms(4) by (cases r; blast)+
  show "segmentCounter b' \<le> segmentCounter b + 1" "maxBytes b' = maxBytes b" using frame by simp_all
  show "disk_tight b'"
  proof (cases "r = None")
    case True
    then have "disk_inv b'" using disk.write_ok [OF inv okw] assms(4) by blast
    then show ?thesis
      using True lines frame assms(1,2) disk_Write_within [OF assms(4)]
      by (auto simp: disk_tight_def)
  qed (use same assms(1) in simp)
qed

lemma disk_tight_ReadAll:
  assumes "disk_tight b"
  shows "\<exists>b'. disk_ReadAll io_ok b = (Inr (disk_lines b), b') \<and> disk_tight b' \<and> disk_lines b' = [] \<and>
    maxBytes b' = maxBytes b \<and> segs (dir b') = [] \<and> segmentCounter b' \<le> segmentCounter b \<and>
    (disk_lines b \<noteq> [] \<longrightarrow> segmentCounter b' = 0)"
proof -
  have inv: "disk_inv b" using assms by (simp add: disk_tight_def)
  have "disk_lines b \<noteq> [] \<longrightarrow> segs (dir b) \<noteq> []" by (auto simp: disk_lines_def)
  then show ?thesis
    using disk_ReadAll_step [OF inv] disk_ReadAll_counter [OF inv] by (auto simp: disk_tight_def)
qed

lemma disk_tight_Close:
  "disk_tight b \<Longrightarrow> disk_tight (snd (disk_Close io b)) \<and>
     disk_lines (snd (disk_Close io b)) = disk_lines b \<and>
     segmentCounter (snd (disk_Close io b)) = segmentCounter b"
  by (auto simp: disk_Close_def disk_tight_def disk_inv_def open_last_def disk_lines_def
      split: option.split)

lemma disk_tight_rebuffer:
  "disk_tight b \<Longrightarrow> list_all (plain_line maxScanTokenSize) ls \<Longrightarrow>
   segmentCounter b + int (length ls) \<le> 1000000 \<Longrightarrow>
   (0 < maxBytes b \<Longrightarrow> currentBytes b + int (length (unlines ls)) \<le> maxBytes b) \<Longrightarrow>
   \<exists>b'. rebuffer (disk_Write io_ok) ls b = ([], b') \<and> disk_tight b' \<and>
     disk_lines b' = disk_lines b @ ls \<and> maxBytes b' = maxBytes b \<and>
     segmentCounter b' \<le> segmentCounter b + int (length ls)"
proof (induction ls arbitrary: b)
  case Nil
  then show ?case by simp
next
  case (Cons l ls)
  have room: "segmentCounter b < 1000000" and plain: "plain_line maxScanTokenSize l"
    using Cons.prems(2,3) by simp_all
  have "disk_fits b l"
    using Cons.prems(4) room plain by (cases "0 < maxBytes b") (simp_all add: disk_fits_def disk_okw_def)
  moreover have "disk_inv b" using Cons.prems(1) by (simp add: disk_tight_def)
  ultimately obtain b1 where w: "disk_Write io_ok b l = (None, b1)"
    using disk.write_fits by blast
  note b1 = disk_tight_Write [OF Cons.prems(1) plain room w]
  have "currentBytes b1 = currentBytes b + int (length l) + 1"
    using disk_Write_frame [OF w] by simp
  with Cons.IH [of b1] Cons.prems b1 w show ?case by fastforce
qed

text \<open>Draining such a buffer and writing the lines back, as a failed flush does.\<close>

lemma disk_tight_drain_rebuffer:
  assumes "disk_tight b" and "disk_lines b \<noteq> []" and "length (disk_lines b) \<le> 1000000"
  shows "\<exists>b'. rebuffer (disk_Write io_ok) (disk_lines b) (snd (disk_ReadAll io_ok b)) = ([], b') \<and>
    disk_tight b' \<and> disk_lines b' = disk_lines b \<and> maxBytes b' = maxBytes b \<and>
    segmentCounter b' \<le> int (length (disk_lines b))"
proof -
  from disk_tight_ReadAll [OF assms(1)] assms(2) obtain b1 where
    read: "disk_ReadAll io_ok b = (Inr (disk_lines b), b1)"
    and b1: "disk_tight b1" "disk_lines b1 = []" "segmentCounter b1 = 0" "maxBytes b1 = maxBytes b"
    by blast
  have "currentBytes b1 = 0" using b1(1,2) by (simp add: disk_tight_def)
  then show ?thesis
    using disk_tight_rebuffer [OF b1(1), of "disk_lines b"] assms(1,3) b1 read
    by (auto simp: disk_tight_def)
qed

section \<open>A line over the scanner's token limit\<close>

text \<open>
  \<open>Write\<close> accepts lines of any length (the input scanner of \<open>main\<close> delivers lines of up to
  1 MB), but \<open>ReadAll\<close> scans the segments with the default limit of 64 KB.  A segment with a
  longer line makes every later \<open>ReadAll\<close> fail, and nothing ever removes that segment.
\<close>

definition poisoned :: "disk_buffer \<Rightarrow> bool" where
  "poisoned b \<longleftrightarrow> (\<exists>f c. is_segment f \<and> map_of (dir b) f = Some c \<and>
     snd (scan_lines maxScanTokenSize c) \<and> (\<forall>k\<ge>segmentCounter b. f \<noteq> segmentName k))"

lemma read_segments_err:
  "f \<in> set ss \<Longrightarrow> snd (scan_file io d f) \<Longrightarrow> \<exists>e. read_segments io d ss = Inl e"
  by (induction ss) (auto split: prod.splits sum.splits)

lemma poisoned_ReadAll:
  assumes "poisoned b"
  shows "(\<exists>e. fst (disk_ReadAll io b) = Inl e) \<and>
    snd (disk_ReadAll io b) = b\<lparr>currentFile := None\<rparr>"
proof -
  from assms obtain f c where f: "is_segment f" "map_of (dir b) f = Some c"
    "snd (scan_lines maxScanTokenSize c)"
    by (auto simp: poisoned_def)
  then have err: "snd (scan_file io (dir b) f)"
    by (auto simp: scan_file_def file_content_def split: option.split)
  show ?thesis
  proof (cases "listSegments io (dir b)")
    case None
    then show ?thesis by (simp add: disk_ReadAll_def)
  next
    case (Some ss)
    then have "f \<in> set ss"
      using f map_of_SomeD [OF f(2)] by (force simp: listSegments_def split: if_splits)
    moreover from this obtain e where "read_segments io (dir b) ss = Inl e"
      using read_segments_err [of f ss io "dir b"] err by blast
    ultimately show ?thesis using Some by (auto simp: disk_ReadAll_def Let_def)
  qed
qed

lemma map_of_dir_append:
  "map_of (dir_append g data d) f = map_option (\<lambda>c. if f = g then c @ data else c) (map_of d f)"
  by (induction d) (auto simp: dir_append_def)

lemma map_of_dir_create: "f \<noteq> g \<Longrightarrow> map_of (dir_create g d) f = map_of d f"
proof -
  assume "f \<noteq> g"
  then have "map_of (map (\<lambda>(h, c). (h, if h = g then [] else c)) d) f = map_of d f"
    by (induction d) auto
  with \<open>f \<noteq> g\<close> show ?thesis by (simp add: dir_create_def map_add_def split: option.split)
qed

lemma poisoned_openSegment: "poisoned b \<Longrightarrow> poisoned (snd (openSegment io b))"
  by (auto simp: poisoned_def openSegment_def Let_def map_of_dir_create)

lemma poisoned_dir_append:
  assumes "poisoned b" and "dir b' = dir_append g data (dir b)" and "segmentCounter b' = segmentCounter b"
  shows "poisoned b'"
proof -
  from assms(1) obtain f c where f: "is_segment f" "map_of (dir b) f = Some c"
    "snd (scan_lines maxScanTokenSize c)" "\<forall>k\<ge>segmentCounter b. f \<noteq> segmentName k"
    by (auto simp: poisoned_def)
  let ?c = "if f = g then c @ data else c"
  have "map_of (dir b') f = Some ?c" using f(2) assms(2) by (simp add: map_of_dir_append)
  moreover have "snd (scan_lines maxScanTokenSize ?c)"
    using f(3) scan_lines_err_append by simp
  ultimately show ?thesis using f(1,4) assms(3) unfolding poisoned_def by auto
qed

lemma poisoned_append_current: "poisoned b \<Longrightarrow> poisoned (snd (append_current io b data))"
  unfolding append_current_def
  by (auto split: option.split elim: poisoned_dir_append)

lemma poisoned_Write: "poisoned b \<Longrightarrow> poisoned (snd (disk_Write io b l))"
  using poisoned_append_current poisoned_openSegment [of b io]
  by (auto simp: disk_Write_def Let_def split: prod.split bool.split)

lemma poisoned_cong: "poisoned b \<Longrightarrow> poisoned (b\<lparr>currentFile := x\<rparr>)"
  by (simp add: poisoned_def)

text \<open>Operations on a disk buffer, each in an environment of its own.\<close>

fun disk_do :: "disk_buffer \<Rightarrow> disk_io \<times> buf_op \<Rightarrow> disk_buffer" where
  "disk_do b (io, x) = disk_apply io b x"

lemma poisoned_run: "poisoned b \<Longrightarrow> poisoned (foldl disk_do b ops)"
proof (induction ops arbitrary: b)
  case (Cons x ops)
  obtain io y where x: "x = (io, y)" by fastforce
  have "poisoned (disk_apply io b y)"
    using Cons.prems poisoned_Write poisoned_ReadAll poisoned_cong by (cases y) simp_all
  with Cons.IH x show ?case by simp
qed simp

lemma long_write_poisons:
  assumes inv: "disk_inv b" and long: "maxScanTokenSize \<le> length l" "nl \<notin> set l"
    and w: "append_current io_ok b (l @ [nl]) = (None, b')"
  shows "poisoned b'"
proof -
  from w obtain f where cur: "currentFile b = Some f"
    by (cases "currentFile b") (auto simp: append_current_def)
  from inv cur obtain xs c where segs: "segs (dir b) = xs @ [(f, c)]" and closed: "line_closed c"
    and ok: "\<not> snd (scan_lines maxScanTokenSize c)"
    by (rule append_current_segs) blast
  obtain ns where ns: "numbered ns (dir b)" "\<forall>n\<in>set ns. int n < segmentCounter b"
    using inv by (auto simp: disk_inv_def)
  have "(f, c) \<in> set (segs (dir b))" using segs by simp
  then have "is_segment f" by (auto simp: segs_def)
  moreover have "map_of (dir b) f = Some c"
    using map_of_is_SomeI [OF numbered_distinct [OF ns(1)], of f c] segs
      map_of_segs [OF \<open>is_segment f\<close>, of "dir b"] by simp
  then have "map_of (dir b') f = Some (c @ l @ [nl])"
    using w cur by (auto simp: append_current_def map_of_dir_append)
  moreover have "snd (scan_lines maxScanTokenSize (c @ l @ [nl]))"
    using scan_lines_append [OF closed ok, of "l @ [nl]"] scan_lines_step [OF long(2), of _ "[]"] long(1)
    by simp
  moreover have "f \<noteq> segmentName k" if "segmentCounter b \<le> k" for k
  proof -
    have "f \<in> fst ` set (segs (dir b))" using segs by simp
    with ns(1) obtain n where "n \<in> set ns" "f = segmentName (int n)" by (rule numbered_name)
    then show ?thesis using segmentName_inject [of "int n" k] ns(2) that by force
  qed
  moreover have "segmentCounter b' = segmentCounter b"
    using w cur by (auto simp: append_current_def)
  ultimately show ?thesis unfolding poisoned_def by metis
qed

text \<open>
  C27. One line of 64 KB or more wedges a disk buffer for good: the write succeeds, and after it,
  whatever is written or read and whatever the operating system does, every \<open>ReadAll\<close> fails
  and leaves the directory as it was.  No line in the buffer can be delivered any more.
\<close>

theorem disk_long_line_wedges:
  assumes "disk_inv b" and "segmentCounter b < 1000000" and "maxBytes b \<le> 0"
    and "maxScanTokenSize \<le> length l" and "nl \<notin> set l"
    and "b' = foldl disk_do (snd (disk_Write io_ok b l)) ops"
  shows "fst (disk_Write io_ok b l) = None \<and> (\<exists>e. fst (disk_ReadAll io b') = Inl e) \<and>
    dir (snd (disk_ReadAll io b')) = dir b'"
proof -
  have "\<exists>b1. disk_inv b1 \<and> currentFile b1 \<noteq> None \<and>
      disk_Write io_ok b l = append_current io_ok b1 (l @ [nl])"
  proof (cases "currentFile b = None \<or> currentBytes b > 0 \<and>
      needsRotation io_ok b (int (length (l @ [nl])))")
    case True
    with openSegment_step [OF assms(1,2)] assms(3) show ?thesis
      by (auto simp: disk_Write_def Let_def)
  next
    case False
    with assms(1,3) show ?thesis by (auto simp: disk_Write_def Let_def)
  qed
  then obtain b1 b2 where b1: "disk_inv b1" "append_current io_ok b1 (l @ [nl]) = (None, b2)"
    and eq: "disk_Write io_ok b l = (None, b2)"
    by (auto simp: append_current_def)
  from long_write_poisons [OF b1(1) assms(4,5) b1(2)] have "poisoned b'"
    using eq assms(6) poisoned_run by simp
  with poisoned_ReadAll [of b' io] eq show ?thesis by simp
qed

theorem disk_long_line_wedges_witness:
  "\<exists>e. fst (disk_ReadAll io_ok (foldl disk_do
     (snd (disk_Write io_ok (disk_empty 0) (replicate maxScanTokenSize CHR ''x'')))
     [(io_ok, OpReadAll), (io_ok, OpWrite ''ok'')])) = Inl e"
  using disk_long_line_wedges [OF disk_inv_empty, of 0 "replicate maxScanTokenSize CHR ''x''" _
      "[(io_ok, OpReadAll), (io_ok, OpWrite ''ok'')]" io_ok]
  by (simp add: disk_empty_def)

end
