(* ===== verification/Pipeline.thy ===== *)
theory Pipeline
  imports FilterChain Check CircuitBreaker DiskBuffer
begin

text \<open>
  The program itself (\<open>main.go\<close>): the buffer behind its interface, \<open>flush\<close>, the main loop, the
  timer, startup with its replay, shutdown and the \<open>-check\<close> mode.  Every operation here is one
  atomic step; theory Concurrency splits \<open>flush\<close> where another goroutine can run.
\<close>

section \<open>The buffer interface\<close>

datatype buf = Mem mem_buffer | Disk disk_buffer

fun buf_Write :: "disk_io \<Rightarrow> buf \<Rightarrow> string \<Rightarrow> buffer_error option \<times> buf" where
  "buf_Write io (Mem b) l = (case mem_Write b l of (r, b) \<Rightarrow> (r, Mem b))"
| "buf_Write io (Disk b) l = (case disk_Write io b l of (r, b) \<Rightarrow> (r, Disk b))"

fun buf_ReadAll :: "disk_io \<Rightarrow> buf \<Rightarrow> (buffer_error + string list) \<times> buf" where
  "buf_ReadAll io (Mem b) = (case mem_ReadAll b of (r, b) \<Rightarrow> (r, Mem b))"
| "buf_ReadAll io (Disk b) = (case disk_ReadAll io b of (r, b) \<Rightarrow> (r, Disk b))"

fun buf_Replay :: "disk_io \<Rightarrow> buf \<Rightarrow> (buffer_error + string list) \<times> buf" where
  "buf_Replay io (Mem b) = (case mem_Replay b of (r, b) \<Rightarrow> (r, Mem b))"
| "buf_Replay io (Disk b) = (case disk_Replay io b of (r, b) \<Rightarrow> (r, Disk b))"

fun buf_Len :: "buf \<Rightarrow> int" where
  "buf_Len (Mem b) = mem_Len b"
| "buf_Len (Disk b) = disk_Len b"

text \<open>Only the disk buffer is an \<open>io.Closer\<close>.\<close>

fun buf_Close :: "disk_io \<Rightarrow> buf \<Rightarrow> buf" where
  "buf_Close io (Mem b) = Mem b"
| "buf_Close io (Disk b) = Disk (snd (disk_Close io b))"

section \<open>State\<close>

text \<open>The Prometheus counters and gauges of \<open>main.go\<close>; \<open>batchSizes\<close> are the observations.\<close>

record metrics =
  linesProcessed :: int
  linesNotProcessed :: int
  linesRead :: int
  parseErrors :: int
  bufferSize :: int
  clickhouseUp :: int
  batchSizes :: "int list"
  cbStateGauge :: int
  cbRejections :: int
  linesFiltered :: int

definition metrics0 :: metrics where
  "metrics0 =
     \<lparr>linesProcessed = 0, linesNotProcessed = 0, linesRead = 0, parseErrors = 0, bufferSize = 0,
      clickhouseUp = 0, batchSizes = [], cbStateGauge = 0, cbRejections = 0, linesFiltered = 0\<rparr>"

text \<open>What does not change after startup, with the libraries the parts of the program call.\<close>

record ('w, 'e, 'p) services =
  s_cfg :: Config
  s_parser :: "gonx_reader option"
  s_chain :: "'p Chain option"
  s_driver :: "('w, 'e) driver"
  s_lib :: row_lib
  s_json :: json_lib
  s_run :: "'p runner"
  s_rand :: "nat \<Rightarrow> int \<Rightarrow> int"

record 'w app =
  app_buf :: buf
  app_cb :: "circuit_breaker option"
  app_client :: "'w client"
  app_draws :: "rat stream"
  app_metrics :: metrics
  app_down :: bool

abbreviation upd_metrics :: "(metrics \<Rightarrow> metrics) \<Rightarrow> 'w app \<Rightarrow> 'w app" where
  "upd_metrics f a \<equiv> a\<lparr>app_metrics := f (app_metrics a)\<rparr>"

section \<open>\<open>flush\<close>\<close>

definition parse_lines :: "('w, 'e, 'p) services \<Rightarrow> string list \<Rightarrow> log_entry list" where
  "parse_lines su lines =
     (case s_parser su of
        Some p \<Rightarrow> ParseLogs p lines
      | None \<Rightarrow> ParseJSONLogs (s_json su) lines)"

definition filter_entries ::
  "('w, 'e, 'p) services \<Rightarrow> log_entry list \<Rightarrow> rat stream \<Rightarrow> log_entry list \<times> rat stream" where
  "filter_entries su entries draws =
     (case s_chain su of
        None \<Rightarrow> (entries, draws)
      | Some c \<Rightarrow> Apply (s_run su) (parse_float (s_lib su)) c entries draws)"

text \<open>\<open>updateCBState\<close>: the gauge shows the state.\<close>

definition cb_gauge :: "circuit_breaker \<Rightarrow> int" where
  "cb_gauge cb =
     (if cb_State cb = cb_state_name StateClosed then 0
      else if cb_State cb = cb_state_name StateOpen then 1 else 2)"

definition updateCBState :: "circuit_breaker option \<Rightarrow> metrics \<Rightarrow> metrics" where
  "updateCBState cb m = (case cb of None \<Rightarrow> m | Some cb \<Rightarrow> m\<lparr>cbStateGauge := cb_gauge cb\<rparr>)"

text \<open>The check before the buffer is drained.\<close>

definition cb_gate :: "int \<Rightarrow> circuit_breaker option \<Rightarrow> bool \<times> circuit_breaker option" where
  "cb_gate now cb =
     (case cb of
        None \<Rightarrow> (True, None)
      | Some cb \<Rightarrow> (case cb_Allow now cb of (ok, cb) \<Rightarrow> (ok, Some cb)))"

definition flush_failed :: "disk_io \<Rightarrow> int \<Rightarrow> nat \<Rightarrow> string list \<Rightarrow> 'w app \<Rightarrow> 'w app" where
  "flush_failed io now n lines a =
     (let cb = map_option (cb_RecordFailure now) (app_cb a);
          b = snd (rebuffer (buf_Write io) lines (app_buf a)) in
      a\<lparr>app_cb := cb, app_buf := b,
        app_metrics := (updateCBState cb ((app_metrics a)
          \<lparr>linesNotProcessed := linesNotProcessed (app_metrics a) + int n,
           clickhouseUp := 0\<rparr>))\<lparr>bufferSize := buf_Len b\<rparr>\<rparr>)"

definition flush_saved :: "nat \<Rightarrow> 'w app \<Rightarrow> 'w app" where
  "flush_saved n a =
     (let cb = map_option cb_RecordSuccess (app_cb a) in
      a\<lparr>app_cb := cb,
        app_metrics := updateCBState cb ((app_metrics a)
          \<lparr>linesProcessed := linesProcessed (app_metrics a) + int n,
           clickhouseUp := 1\<rparr>)\<rparr>)"

text \<open>From the drained lines to the outcome; \<open>now\<close> is the clock when a failure is recorded.\<close>

definition flush_lines ::
  "('w, 'e, 'p) services \<Rightarrow> disk_io \<Rightarrow> int \<Rightarrow> string list \<Rightarrow> 'w app \<Rightarrow> 'w app" where
  "flush_lines su io now lines a =
     (let entries = parse_lines su lines;
          parseErrs = int (length lines) - int (length entries);
          (kept, draws) = filter_entries su entries (app_draws a);
          dropped = int (length entries) - int (length kept);
          m = app_metrics a;
          a = a\<lparr>app_draws := draws, app_metrics := m
            \<lparr>bufferSize := 0,
             parseErrors := parseErrors m + (if parseErrs > 0 then parseErrs else 0),
             linesFiltered := linesFiltered m + (if dropped > 0 then dropped else 0),
             batchSizes := batchSizes m @ [int (length kept)]\<rparr>\<rparr> in
      if kept = [] then a
      else case Save (s_rand su) (s_driver su) (s_lib su) (s_cfg su) kept (app_client a) of
          (Some e, c, _) \<Rightarrow> flush_failed io now (length kept) lines (a\<lparr>app_client := c\<rparr>)
        | (None, c, _) \<Rightarrow> flush_saved (length kept) (a\<lparr>app_client := c\<rparr>))"

text \<open>The clock is read when the breaker is asked (\<open>fst now\<close>) and when a failure is recorded.\<close>

definition flush ::
  "('w, 'e, 'p) services \<Rightarrow> disk_io \<Rightarrow> int \<times> int \<Rightarrow> 'w app \<Rightarrow> 'w app" where
  "flush su io now a =
     (case cb_gate (fst now) (app_cb a) of
        (False, cb) \<Rightarrow>
          upd_metrics (\<lambda>m. m\<lparr>cbRejections := cbRejections m + 1\<rparr>) (a\<lparr>app_cb := cb\<rparr>)
      | (True, cb) \<Rightarrow>
          (case buf_ReadAll io (app_buf a) of
             (Inl e, b) \<Rightarrow> a\<lparr>app_cb := cb, app_buf := b\<rparr>
           | (Inr lines, b) \<Rightarrow>
               (let a = a\<lparr>app_cb := cb, app_buf := b\<rparr> in
                if lines = [] then a else flush_lines su io (snd now) lines a)))"

section \<open>The main loop and shutdown\<close>

definition accept_line ::
  "('w, 'e, 'p) services \<Rightarrow> disk_io \<Rightarrow> int \<times> int \<Rightarrow> string \<Rightarrow> 'w app \<Rightarrow> 'w app" where
  "accept_line su io now raw_line a =
     (let a = upd_metrics (\<lambda>m. m\<lparr>linesRead := linesRead m + 1\<rparr>) a; line = trim_space raw_line in
      case buf_Write io (app_buf a) line of
        (Some e, b) \<Rightarrow>
          upd_metrics (\<lambda>m. m\<lparr>linesNotProcessed := linesNotProcessed m + 1\<rparr>) (a\<lparr>app_buf := b\<rparr>)
      | (None, b) \<Rightarrow>
          (let a = upd_metrics (\<lambda>m. m\<lparr>bufferSize := buf_Len b\<rparr>) (a\<lparr>app_buf := b\<rparr>) in
           if buf_Len b \<ge> MaxBufferSize (Settings (s_cfg su)) then flush su io now a else a))"

text \<open>\<open>doShutdown\<close>, guarded by \<open>sync.Once\<close>.\<close>

definition shutdown ::
  "('w, 'e, 'p) services \<Rightarrow> disk_io \<Rightarrow> int \<times> int \<Rightarrow> 'w app \<Rightarrow> 'w app" where
  "shutdown su io now a =
     (if app_down a then a
      else let a = flush su io now a in
        a\<lparr>app_client := snd (Close (s_driver su) (app_client a)),
          app_buf := buf_Close io (app_buf a), app_down := True\<rparr>)"

text \<open>
  What happens to a running program: a line arrives, the timer of \<open>flushLoop\<close> fires, or the line
  source ends or a signal arrives.  The shutdown ends the process (\<open>os.Exit\<close>).
\<close>

datatype event = Line string "int \<times> int" | Tick "int \<times> int" | Stop "int \<times> int"

definition app_step :: "('w, 'e, 'p) services \<Rightarrow> disk_io \<Rightarrow> 'w app \<Rightarrow> event \<Rightarrow> 'w app" where
  "app_step su io a ev =
     (if app_down a then a
      else case ev of
          Line l now \<Rightarrow> accept_line su io now l a
        | Tick now \<Rightarrow> flush su io now a
        | Stop now \<Rightarrow> shutdown su io now a)"

lemma app_step_simps [simp]:
  "app_down a \<Longrightarrow> app_step su io a ev = a"
  "\<not> app_down a \<Longrightarrow> app_step su io a (Line l now) = accept_line su io now l a"
  "\<not> app_down a \<Longrightarrow> app_step su io a (Tick now) = flush su io now a"
  "\<not> app_down a \<Longrightarrow> app_step su io a (Stop now) = shutdown su io now a"
  by (simp_all add: app_step_def)

text \<open>\<open>scanLines\<close>: at most 1 MB per line; the second component tells whether it ended in an error.\<close>

definition scanLines :: "string \<Rightarrow> string list \<times> bool" where
  "scanLines content = scan_lines (1024 * 1024) content"

section \<open>The buffer interface keeps its contract\<close>

fun buf_lines :: "buf \<Rightarrow> string list" where
  "buf_lines (Mem b) = mem_lines b"
| "buf_lines (Disk b) = disk_lines b"

fun buf_inv :: "buf \<Rightarrow> bool" where
  "buf_inv (Mem b) = mem_inv b"
| "buf_inv (Disk b) = disk_inv b"

fun buf_okw :: "buf \<Rightarrow> string \<Rightarrow> bool" where
  "buf_okw (Mem b) l = True"
| "buf_okw (Disk b) l = disk_okw b l"

fun buf_fits :: "buf \<Rightarrow> string \<Rightarrow> bool" where
  "buf_fits (Mem b) l = mem_fits b l"
| "buf_fits (Disk b) l = disk_fits b l"

interpretation buffer: line_buffer "buf_Write io_ok" "buf_ReadAll io_ok" buf_Len buf_lines
  buf_inv buf_okw buf_fits
proof
  fix b b' l e
  show "buf_inv b \<Longrightarrow> buf_okw b l \<Longrightarrow> buf_Write io_ok b l = (None, b') \<Longrightarrow>
      buf_inv b' \<and> buf_lines b' = buf_lines b @ [l]"
    by (cases b) (auto dest: mem.write_ok disk.write_ok split: prod.splits)
  show "buf_inv b \<Longrightarrow> buf_okw b l \<Longrightarrow> buf_Write io_ok b l = (Some e, b') \<Longrightarrow> b' = b"
    by (cases b) (auto dest: mem.write_err disk.write_err split: prod.splits)
  show "buf_inv b \<Longrightarrow> buf_fits b l \<Longrightarrow> buf_okw b l \<and> fst (buf_Write io_ok b l) = None"
    by (cases b) (auto dest: mem.fits_okw disk.fits_okw split: prod.splits)
  show "buf_inv b \<Longrightarrow> fst (buf_ReadAll io_ok b) = Inr (buf_lines b)"
    by (cases b) (auto dest: mem.read_all_ok disk.read_all_ok split: prod.splits)
  show "buf_inv b \<Longrightarrow>
      buf_inv (snd (buf_ReadAll io_ok b)) \<and> buf_lines (snd (buf_ReadAll io_ok b)) = []"
    by (cases b) (auto dest: mem.read_all_empty disk.read_all_empty split: prod.splits)
  show "buf_inv b \<Longrightarrow> buf_Len b = int (length (buf_lines b))"
    by (cases b) (simp_all add: mem.len_lines disk.len_lines)
qed

lemma rebuffer_mem:
  "rebuffer (buf_Write io) ls (Mem b) =
     (fst (rebuffer mem_Write ls b), Mem (snd (rebuffer mem_Write ls b)))"
  by (induction ls arbitrary: b) (auto split: prod.split option.split)

text \<open>A drained memory buffer takes its lines back, whatever happens to files.\<close>

lemma mem_drain_rebuffer:
  assumes "mem_inv b"
  shows "rebuffer mem_Write (mem_lines b) (b\<lparr>mem_lines := []\<rparr>) = ([], b)"
proof -
  have "rebuffer mem_Write ls (b\<lparr>mem_lines := pre\<rparr>) = ([], b\<lparr>mem_lines := pre @ ls\<rparr>)"
    if "int (length pre) + int (length ls) \<le> mem_maxSize b" for pre ls
    using that
  proof (induction ls arbitrary: pre)
    case (Cons l ls)
    then show ?case using Cons.IH [of "pre @ [l]"] by (simp add: mem_Write_def)
  qed simp
  from this [of "[]" "mem_lines b"] show ?thesis using assms by (simp add: mem_defs)
qed

section \<open>Outcomes of \<open>flush\<close>\<close>

text \<open>The entries a batch of lines comes to, after parsing and filtering.\<close>

definition kept_of :: "('w, 'e, 'p) services \<Rightarrow> string list \<Rightarrow> 'w app \<Rightarrow> log_entry list" where
  "kept_of su lines a = fst (filter_entries su (parse_lines su lines) (app_draws a))"

definition save_kept :: "('w, 'e, 'p) services \<Rightarrow> string list \<Rightarrow> 'w app \<Rightarrow>
    'e client_error option \<times> 'w client \<times> int list" where
  "save_kept su lines a =
     Save (s_rand su) (s_driver su) (s_lib su) (s_cfg su) (kept_of su lines a) (app_client a)"

lemma flush_lines_failed:
  assumes "kept_of su lines a \<noteq> []" and "save_kept su lines a = (Some e, c, sl)"
  shows "app_buf (flush_lines su io now lines a) = snd (rebuffer (buf_Write io) lines (app_buf a))"
    and "app_client (flush_lines su io now lines a) = c"
    and "app_cb (flush_lines su io now lines a) = map_option (cb_RecordFailure now) (app_cb a)"
    and "linesNotProcessed (app_metrics (flush_lines su io now lines a)) =
      linesNotProcessed (app_metrics a) + int (length (kept_of su lines a))"
    and "linesProcessed (app_metrics (flush_lines su io now lines a)) = linesProcessed (app_metrics a)"
  using assms
  by (cases "filter_entries su (parse_lines su lines) (app_draws a)";
      simp add: flush_lines_def kept_of_def save_kept_def flush_failed_def updateCBState_def Let_def
        split: option.split)+

lemma flush_lines_saved:
  assumes "kept_of su lines a \<noteq> []" and "save_kept su lines a = (None, c, sl)"
  shows "app_buf (flush_lines su io now lines a) = app_buf a"
    and "app_client (flush_lines su io now lines a) = c"
    and "app_cb (flush_lines su io now lines a) = map_option cb_RecordSuccess (app_cb a)"
    and "linesNotProcessed (app_metrics (flush_lines su io now lines a)) =
      linesNotProcessed (app_metrics a)"
    and "linesProcessed (app_metrics (flush_lines su io now lines a)) =
      linesProcessed (app_metrics a) + int (length (kept_of su lines a))"
  using assms
  by (cases "filter_entries su (parse_lines su lines) (app_draws a)";
      simp add: flush_lines_def kept_of_def save_kept_def flush_saved_def updateCBState_def Let_def
        split: option.split)+

lemma flush_lines_nothing:
  assumes "kept_of su lines a = []"
  shows "app_buf (flush_lines su io now lines a) = app_buf a"
    and "app_client (flush_lines su io now lines a) = app_client a"
    and "app_cb (flush_lines su io now lines a) = app_cb a"
    and "linesNotProcessed (app_metrics (flush_lines su io now lines a)) =
      linesNotProcessed (app_metrics a)"
    and "linesProcessed (app_metrics (flush_lines su io now lines a)) = linesProcessed (app_metrics a)"
  using assms
  by (cases "filter_entries su (parse_lines su lines) (app_draws a)";
      simp add: flush_lines_def kept_of_def Let_def)+

text \<open>The state of \<open>flush\<close> between draining the buffer and parsing.\<close>

definition drained :: "disk_io \<Rightarrow> int \<Rightarrow> 'w app \<Rightarrow> 'w app" where
  "drained io now a =
     a\<lparr>app_cb := snd (cb_gate now (app_cb a)), app_buf := snd (buf_ReadAll io (app_buf a))\<rparr>"

lemma flush_eq:
  assumes "fst (cb_gate (fst now) (app_cb a))" and "fst (buf_ReadAll io (app_buf a)) = Inr lines"
    and "lines \<noteq> []"
  shows "flush su io now a = flush_lines su io (snd now) lines (drained io (fst now) a)"
proof -
  obtain cb where "cb_gate (fst now) (app_cb a) = (True, cb)"
    using assms(1) by (metis (full_types) prod.collapse)
  moreover obtain b where "buf_ReadAll io (app_buf a) = (Inr lines, b)"
    using assms(2) by (metis prod.collapse)
  ultimately show ?thesis using assms(3) by (simp add: flush_def drained_def)
qed

lemma drained_simps [simp]:
  "app_client (drained io now a) = app_client a" "app_draws (drained io now a) = app_draws a"
  "app_metrics (drained io now a) = app_metrics a" "app_down (drained io now a) = app_down a"
  "app_buf (drained io now a) = snd (buf_ReadAll io (app_buf a))"
  "app_cb (drained io now a) = snd (cb_gate now (app_cb a))"
  by (simp_all add: drained_def)

lemma kept_of_drained [simp]: "kept_of su lines (drained io now a) = kept_of su lines a"
  by (simp add: kept_of_def)

lemma save_kept_drained [simp]: "save_kept su lines (drained io now a) = save_kept su lines a"
  by (simp add: save_kept_def)

text \<open>
  C7. A failed save loses no line: when the breaker lets a flush through and \<open>Save\<close> fails, the
  buffer, of either kind, holds the same lines in the same order afterwards and stays well
  formed, provided the lines fit the drained buffer (for the memory buffer they always do; for
  the disk buffer none may have 64 KB, and their bytes must not exceed the limit); the lines
  that passed the filters are counted as not processed, and the breaker records the failure.
\<close>

theorem flush_failure_keeps_lines:
  assumes "buf_inv (app_buf a)" and "fst (cb_gate (fst now) (app_cb a))"
    and "buf_lines (app_buf a) \<noteq> []"
    and "fits_all (buf_Write io_ok) buf_fits (snd (buf_ReadAll io_ok (app_buf a)))
      (buf_lines (app_buf a))"
    and "kept_of su (buf_lines (app_buf a)) a \<noteq> []"
    and "save_kept su (buf_lines (app_buf a)) a = (Some e, c, sleeps)"
  shows "buf_lines (app_buf (flush su io_ok now a)) = buf_lines (app_buf a) \<and>
    buf_inv (app_buf (flush su io_ok now a)) \<and>
    linesNotProcessed (app_metrics (flush su io_ok now a)) =
      linesNotProcessed (app_metrics a) + int (length (kept_of su (buf_lines (app_buf a)) a)) \<and>
    app_cb (flush su io_ok now a) =
      map_option (cb_RecordFailure (snd now)) (snd (cb_gate (fst now) (app_cb a)))"
proof -
  let ?ls = "buf_lines (app_buf a)" and ?b = "snd (buf_ReadAll io_ok (app_buf a))"
  have read: "buf_ReadAll io_ok (app_buf a) = (Inr ?ls, ?b)"
    using buffer.read_all_ok [OF assms(1)] by (metis prod.collapse)
  have eq: "flush su io_ok now a = flush_lines su io_ok (snd now) ?ls (drained io_ok (fst now) a)"
    by (intro flush_eq assms(2,3) buffer.read_all_ok assms(1))
  obtain b'' where "rebuffer (buf_Write io_ok) ?ls ?b = ([], b'')" "buf_inv b''" "buf_lines b'' = ?ls"
    using buffer.drain_rebuffer [OF assms(1) read assms(4)] by blast
  then show ?thesis
    using flush_lines_failed [of su ?ls "drained io_ok (fst now) a" e c sleeps io_ok "snd now"] assms(5,6)
    unfolding eq by simp
qed

text \<open>
  With the memory buffer a failed save leaves the buffer exactly as it was, whatever its
  lines are.
\<close>

theorem flush_failure_memory:
  assumes "app_buf a = Mem b" and "mem_inv b" and "mem_lines b \<noteq> []"
    and "fst (cb_gate (fst now) (app_cb a))"
    and "kept_of su (mem_lines b) a \<noteq> []"
    and "save_kept su (mem_lines b) a = (Some e, c, sleeps)"
  shows "app_buf (flush su io now a) = app_buf a"
proof -
  have read: "buf_ReadAll io (app_buf a) = (Inr (mem_lines b), Mem (b\<lparr>mem_lines := []\<rparr>))"
    using assms(1) by (simp add: mem_ReadAll_def)
  then have "flush su io now a = flush_lines su io (snd now) (mem_lines b) (drained io (fst now) a)"
    using assms(3,4) by (intro flush_eq) simp_all
  also have "app_buf \<dots> = snd (rebuffer (buf_Write io) (mem_lines b) (app_buf (drained io (fst now) a)))"
    by (rule flush_lines_failed(1)) (simp_all add: assms(5,6))
  finally show ?thesis
    using assms(1) by (simp add: mem_ReadAll_def rebuffer_mem mem_drain_rebuffer [OF assms(2)])
qed

text \<open>
  While the circuit is open and its cooldown has not passed, a flush does nothing but count a
  rejection: buffer, client, breaker and the counters of lines are untouched.
\<close>

theorem flush_open_circuit:
  assumes "app_cb a = Some cb" and "state cb = StateOpen"
    and "time_since (fst now) (openedAt cb) < cooldown cb"
  shows "flush su io now a =
    a\<lparr>app_metrics := (app_metrics a)\<lparr>cbRejections := cbRejections (app_metrics a) + 1\<rparr>\<rparr>"
proof -
  have "a\<lparr>app_cb := Some cb\<rparr> = a" using assms(1) by (cases a) simp
  with assms show ?thesis by (simp add: flush_def cb_gate_def cb_Allow_def)
qed

text \<open>
  C8. A flush whose save succeeds delivers: the rows of all its entries that the table accepts are
  stored in the order of the buffered lines, the buffer is empty, exactly the saved entries are
  counted as processed, and an enabled breaker is closed with its count reset.
\<close>

theorem flush_success_delivers:
  assumes "driver_ok (s_driver su) stored pending acc"
    and "0 \<le> MaxRetries (RetryCfg (Settings (s_cfg su)))"
    and "MaxRetries (RetryCfg (Settings (s_cfg su))) < 2 ^ 63 - 1"
    and "Columns (ClickHouse (s_cfg su)) \<noteq> []"
    and "buf_inv (app_buf a)" and "fst (cb_gate (fst now) (app_cb a))"
    and "buf_lines (app_buf a) \<noteq> []" and "kept_of su (buf_lines (app_buf a)) a \<noteq> []"
    and "save_kept su (buf_lines (app_buf a)) a = (None, c, sleeps)"
  shows "(\<exists>extra. stored (world (app_client (flush su io_ok now a))) =
      stored (world (app_client a)) @ extra @
      filter acc (batch_rows (s_lib su) (s_cfg su) (kept_of su (buf_lines (app_buf a)) a))) \<and>
    buf_lines (app_buf (flush su io_ok now a)) = [] \<and>
    linesProcessed (app_metrics (flush su io_ok now a)) =
      linesProcessed (app_metrics a) + int (length (kept_of su (buf_lines (app_buf a)) a)) \<and>
    (\<forall>cb. app_cb (flush su io_ok now a) = Some cb \<longrightarrow> state cb = StateClosed \<and> failures cb = 0)"
proof -
  let ?ls = "buf_lines (app_buf a)" and ?kept = "kept_of su (buf_lines (app_buf a)) a"
  have eq: "flush su io_ok now a = flush_lines su io_ok (snd now) ?ls (drained io_ok (fst now) a)"
    by (intro flush_eq assms(6,7) buffer.read_all_ok assms(5))
  have k: "kept_of su ?ls (drained io_ok (fst now) a) \<noteq> []"
    "save_kept su ?ls (drained io_ok (fst now) a) = (None, c, sleeps)"
    by (simp_all add: assms(8,9))
  note saved = flush_lines_saved [OF k, of io_ok "snd now"]
  have inv: "save_inv (s_driver su) stored pending acc (stored (world (app_client a))) (app_client a)"
    using assms(1) by (simp add: save_inv_def)
  have "save_done stored (stored (world (app_client a)))
      (filter acc (batch_rows (s_lib su) (s_cfg su) ?kept)) c"
    using save.retry_contract(2) [OF inv] assms(2-4,8,9)
    by (simp add: save_kept_def Save_def Let_def save_retries_def split: if_splits)
  then have rows: "\<exists>extra. stored (world (app_client (flush su io_ok now a))) =
      stored (world (app_client a)) @ extra @
      filter acc (batch_rows (s_lib su) (s_cfg su) ?kept)"
    unfolding eq saved(2) by (simp add: save_done_def)
  have empty: "buf_lines (app_buf (flush su io_ok now a)) = []"
    unfolding eq saved(1) using buffer.read_all_empty [OF assms(5)] by simp
  have processed: "linesProcessed (app_metrics (flush su io_ok now a)) =
      linesProcessed (app_metrics a) + int (length ?kept)"
    unfolding eq saved(5) by simp
  have "state cb = StateClosed \<and> failures cb = 0"
    if "app_cb (flush su io_ok now a) = Some cb" for cb
    using that unfolding eq saved(3) by (auto simp: cb_RecordSuccess_def)
  with rows empty processed show ?thesis by blast
qed

section \<open>The theorems at work\<close>

text \<open>
  A small installation: every line but \<open>bad\<close> is a JSON object with the line as \<open>remote_addr\<close>, no
  filters, the driver of theory Clickhouse, which refuses the first \<open>n\<close> pings.
\<close>

definition demo_services :: "(demo_world, string, unit) services" where
  "demo_services =
     \<lparr>s_cfg = demo_cfg 1, s_parser = None, s_chain = None, s_driver = demo_driver,
      s_lib = demo_lib,
      s_json = \<lparr>unmarshal = (\<lambda>l. if l = ''bad'' then None else Some [''remote_addr'' \<mapsto> JString l]),
        marshal = (\<lambda>_. None), sprint_v = (\<lambda>_. []), format_float = (\<lambda>_. []),
        out_of_range = (\<lambda>_. 0)\<rparr>,
      s_run = (\<lambda>_ _. None), s_rand = (\<lambda>_ n. n - 1)\<rparr>"

definition demo_app :: "nat \<Rightarrow> circuit_breaker option \<Rightarrow> string list \<Rightarrow> demo_world app" where
  "demo_app n cb ls =
     \<lparr>app_buf = Mem \<lparr>mem_lines = ls, mem_maxSize = 100\<rparr>, app_cb = cb,
      app_client = NewClient \<lparr>demo_down = n, demo_rows = [], demo_batch = []\<rparr>,
      app_draws = sconst 0, app_metrics = metrics0, app_down = False\<rparr>"

lemma demo_kept: "kept_of demo_services [''::1''] (demo_app n cb ls) \<noteq> []"
  by (simp add: kept_of_def filter_entries_def parse_lines_def demo_services_def ParseJSONLogs_def)

lemma demo_save_kept:
  "\<exists>e c sl. save_kept demo_services [''::1''] (demo_app 2 cb ls) = (Some e, c, sl)"
  "\<exists>c sl. save_kept demo_services [''::1''] (demo_app 1 cb ls) = (None, c, sl)"
  using demo_save_fails [OF demo_kept] demo_save_recovers [OF demo_kept]
  by (simp_all add: save_kept_def, simp_all add: demo_services_def demo_app_def)

lemma demo_app_simps [simp]:
  "app_buf (demo_app n cb ls) = Mem \<lparr>mem_lines = ls, mem_maxSize = 100\<rparr>"
  "app_cb (demo_app n cb ls) = cb" "app_metrics (demo_app n cb ls) = metrics0"
  "app_client (demo_app n cb ls) = NewClient \<lparr>demo_down = n, demo_rows = [], demo_batch = []\<rparr>"
  by (simp_all add: demo_app_def)

theorem flush_failure_memory_witness:
  "app_buf (flush demo_services io_ok (0, 0) (demo_app 2 None [''::1''])) =
   Mem \<lparr>mem_lines = [''::1''], mem_maxSize = 100\<rparr>"
proof -
  obtain e c sl where run:
    "save_kept demo_services [''::1''] (demo_app 2 None [''::1'']) = (Some e, c, sl)"
    using demo_save_kept by blast
  have "app_buf (flush demo_services io_ok (0, 0) (demo_app 2 None [''::1''])) =
      app_buf (demo_app 2 None [''::1''])"
    by (rule flush_failure_memory [where b = "\<lparr>mem_lines = [''::1''], mem_maxSize = 100\<rparr>"])
      (simp_all add: run demo_kept mem_defs cb_gate_def)
  then show ?thesis by simp
qed

theorem flush_failure_keeps_lines_witness:
  "buf_lines (app_buf (flush demo_services io_ok (0, 7)
      (demo_app 2 (Some (cb_new 1 60)) [''::1'']))) = [''::1''] \<and>
   map_option state (app_cb (flush demo_services io_ok (0, 7)
      (demo_app 2 (Some (cb_new 1 60)) [''::1'']))) = Some StateOpen"
proof -
  let ?a = "demo_app 2 (Some (cb_new 1 60)) [''::1'']"
  obtain e c sl where run: "save_kept demo_services [''::1''] ?a = (Some e, c, sl)"
    using demo_save_kept by blast
  have "buf_lines (app_buf (flush demo_services io_ok (0, 7) ?a)) = buf_lines (app_buf ?a) \<and>
    buf_inv (app_buf (flush demo_services io_ok (0, 7) ?a)) \<and>
    linesNotProcessed (app_metrics (flush demo_services io_ok (0, 7) ?a)) =
      linesNotProcessed (app_metrics ?a) +
        int (length (kept_of demo_services (buf_lines (app_buf ?a)) ?a)) \<and>
    app_cb (flush demo_services io_ok (0, 7) ?a) =
      map_option (cb_RecordFailure (snd (0::int, 7))) (snd (cb_gate (fst (0, 7::int)) (app_cb ?a)))"
    by (rule flush_failure_keeps_lines)
      (simp_all add: run [unfolded cb_new_def] demo_kept mem_defs cb_gate_def cb_Allow_def cb_new_def)
  then show ?thesis
    by (simp add: cb_gate_def cb_Allow_def cb_new_def cb_RecordFailure_def Let_def wrap64_def)
qed

theorem flush_open_circuit_witness:
  "cbRejections (app_metrics (flush demo_services io_ok (59, 59)
      (demo_app 0 (Some ((cb_new 1 60)\<lparr>state := StateOpen\<rparr>)) [''::1'']))) = 1"
  using flush_open_circuit
    [of "demo_app 0 (Some ((cb_new 1 60)\<lparr>state := StateOpen\<rparr>)) [''::1'']"
      "(cb_new 1 60)\<lparr>state := StateOpen\<rparr>" "(59, 59)" demo_services io_ok]
  by (simp add: cb_new_def time_since_def metrics0_def)

theorem flush_success_delivers_witness:
  "\<exists>extra. demo_rows (world (app_client (flush demo_services io_ok (0, 0) (demo_app 1 None [''::1''])))) =
     extra @ batch_rows demo_lib (demo_cfg 1) (kept_of demo_services [''::1''] (demo_app 1 None [''::1'']))"
proof -
  let ?a = "demo_app 1 None [''::1'']"
  obtain c sl where run: "save_kept demo_services [''::1''] ?a = (None, c, sl)"
    using demo_save_kept by blast
  have ok: "driver_ok (s_driver demo_services) demo_rows (\<lambda>w b. demo_batch w) (\<lambda>_. True)"
    using demo_driver_ok by (simp add: demo_services_def)
  have cfg: "s_cfg demo_services = demo_cfg 1" "s_lib demo_services = demo_lib"
    by (simp_all add: demo_services_def)
  have "(\<exists>extra. demo_rows (world (app_client (flush demo_services io_ok (0, 0) ?a))) =
      demo_rows (world (app_client ?a)) @ extra @
      filter (\<lambda>_. True) (batch_rows (s_lib demo_services) (s_cfg demo_services)
        (kept_of demo_services (buf_lines (app_buf ?a)) ?a))) \<and>
    buf_lines (app_buf (flush demo_services io_ok (0, 0) ?a)) = [] \<and>
    linesProcessed (app_metrics (flush demo_services io_ok (0, 0) ?a)) =
      linesProcessed (app_metrics ?a) +
        int (length (kept_of demo_services (buf_lines (app_buf ?a)) ?a)) \<and>
    (\<forall>cb. app_cb (flush demo_services io_ok (0, 0) ?a) = Some cb \<longrightarrow>
      state cb = StateClosed \<and> failures cb = 0)"
    by (rule flush_success_delivers [OF ok])
      (simp_all add: cfg demo_cfg_def run [simplified] demo_kept [simplified] mem_defs cb_gate_def)
  then show ?thesis by (auto simp: cfg NewClient_def)
qed

section \<open>Accounting\<close>

text \<open>The lines the counters account for, with those still in the buffer.\<close>

definition accounted :: "'w app \<Rightarrow> int" where
  "accounted a = linesProcessed (app_metrics a) + linesNotProcessed (app_metrics a) +
     parseErrors (app_metrics a) + linesFiltered (app_metrics a) + buf_Len (app_buf a)"

text \<open>A text parser that gives at most one result per line of its input, as \<open>gonx\<close> does.\<close>

definition parser_ok :: "('w, 'e, 'p) services \<Rightarrow> bool" where
  "parser_ok su \<longleftrightarrow>
     (case s_parser su of
        None \<Rightarrow> True
      | Some p \<Rightarrow> \<forall>text. length (p text) \<le> length (split_on nl text))"

definition mem_app :: "'w app \<Rightarrow> bool" where
  "mem_app a \<longleftrightarrow> (\<exists>b. app_buf a = Mem b \<and> mem_inv b \<and> (\<forall>l\<in>set (mem_lines b). nl \<notin> set l))"

lemma parse_lines_length:
  assumes "parser_ok su" and "\<forall>l\<in>set ls. nl \<notin> set l"
  shows "length (parse_lines su ls) \<le> length ls"
proof (cases "s_parser su")
  case None
  then show ?thesis by (simp add: parse_lines_def ParseJSONLogs_eq parse_json_lines_length)
next
  case (Some p)
  with assms have "length (ParseLogs p ls) \<le> length ls"
    by (intro ParseLogs_length) (auto simp: parser_ok_def)
  with Some show ?thesis by (simp add: parse_lines_def)
qed

lemma kept_length: "length (kept_of su ls a) \<le> length (parse_lines su ls)"
proof (cases "s_chain su")
  case None
  then show ?thesis by (simp add: kept_of_def filter_entries_def)
next
  case (Some c)
  let ?pf = "parse_float (s_lib su)" and ?es = "parse_lines su ls"
  have "subseq (fst (Apply (s_run su) ?pf c ?es (app_draws a))) ?es"
    by (cases "rules c = []") (simp_all add: Apply_eq apply_rules_subseq, simp add: Apply_def)
  then show ?thesis
    using Some by (auto simp: kept_of_def filter_entries_def dest: list_emb_length)
qed

lemma updateCBState_counts [simp]:
  "linesProcessed (updateCBState cb m) = linesProcessed m"
  "linesNotProcessed (updateCBState cb m) = linesNotProcessed m"
  "parseErrors (updateCBState cb m) = parseErrors m"
  "linesFiltered (updateCBState cb m) = linesFiltered m"
  "linesRead (updateCBState cb m) = linesRead m"
  by (simp_all add: updateCBState_def split: option.split)

text \<open>Counters after the lines have been handled: each line is counted once, in one of them.\<close>

lemma flush_lines_counts:
  assumes "length (kept_of su ls a) \<le> length (parse_lines su ls)"
    and "length (parse_lines su ls) \<le> length ls"
    and "m' = app_metrics (flush_lines su io now ls a)"
  shows "linesProcessed m' + linesNotProcessed m' + parseErrors m' + linesFiltered m' =
      linesProcessed (app_metrics a) + linesNotProcessed (app_metrics a) +
      parseErrors (app_metrics a) + linesFiltered (app_metrics a) + int (length ls) \<and>
    linesRead m' = linesRead (app_metrics a)"
proof -
  obtain kept draws where k: "filter_entries su (parse_lines su ls) (app_draws a) = (kept, draws)"
    by fastforce
  with assms(1) have "length kept \<le> length (parse_lines su ls)" by (simp add: kept_of_def)
  moreover obtain r c sl where
    "Save (s_rand su) (s_driver su) (s_lib su) (s_cfg su) kept (app_client a) = (r, c, sl)"
    using prod_cases3 by blast
  ultimately show ?thesis
    using assms(2) k
    by (cases r; cases "kept = []")
      (auto simp: assms(3) flush_lines_def Let_def flush_failed_def flush_saved_def)
qed

lemma flush_lines_buf:
  "app_buf (flush_lines su io now ls a) =
     (if kept_of su ls a \<noteq> [] \<and> fst (save_kept su ls a) \<noteq> None
      then snd (rebuffer (buf_Write io) ls (app_buf a)) else app_buf a)"
proof (cases "save_kept su ls a")
  case (fields r c sl)
  then show ?thesis
    using flush_lines_failed(1) [of su ls a] flush_lines_saved(1) [of su ls a]
      flush_lines_nothing(1) [of su ls a]
    by (cases r; cases "kept_of su ls a = []") auto
qed

lemma flush_accounts:
  assumes "parser_ok su" and "mem_app a"
  shows "mem_app (flush su io now a) \<and> accounted a \<le> accounted (flush su io now a) \<and>
    linesRead (app_metrics (flush su io now a)) = linesRead (app_metrics a)"
proof -
  obtain b where b: "app_buf a = Mem b" "mem_inv b" "\<forall>l\<in>set (mem_lines b). nl \<notin> set l"
    using assms(2) by (auto simp: mem_app_def)
  have read: "buf_ReadAll io (app_buf a) = (Inr (mem_lines b), Mem (b\<lparr>mem_lines := []\<rparr>))"
    using b(1) by (simp add: mem_ReadAll_def)
  have empty: "mem_inv (b\<lparr>mem_lines := []\<rparr>)" using b(2) by (auto simp: mem_defs)
  show ?thesis
  proof (cases "fst (cb_gate (fst now) (app_cb a)) \<and> mem_lines b \<noteq> []")
    case False
    then show ?thesis
      using b read
      by (auto simp: flush_def mem_app_def accounted_def mem_defs split: prod.split bool.split)
  next
    case True
    let ?d = "drained io (fst now) a" and ?ls = "mem_lines b"
    have eq: "flush su io now a = flush_lines su io (snd now) ?ls ?d"
      using True read by (intro flush_eq) simp_all
    have buf: "app_buf (flush su io now a) \<in> {app_buf a, Mem (b\<lparr>mem_lines := []\<rparr>)}"
      unfolding eq flush_lines_buf
      using b(1) read by (simp add: rebuffer_mem mem_drain_rebuffer [OF b(2)])
    have "length (parse_lines su ?ls) \<le> length ?ls"
      by (rule parse_lines_length [OF assms(1) b(3)])
    from flush_lines_counts [of su ?ls ?d "app_metrics (flush_lines su io (snd now) ?ls ?d)" io
        "snd now", OF kept_length this refl]
    show ?thesis
      using buf b empty unfolding eq [symmetric]
      by (auto simp: mem_app_def accounted_def mem_defs)
  qed
qed

lemma accept_line_accounts:
  assumes "parser_ok su" and "mem_app a" and "nl \<notin> set l"
  shows "mem_app (accept_line su io now l a) \<and>
    accounted a + 1 \<le> accounted (accept_line su io now l a) \<and>
    linesRead (app_metrics (accept_line su io now l a)) = linesRead (app_metrics a) + 1"
proof -
  obtain b where b: "app_buf a = Mem b" "mem_inv b" "\<forall>l\<in>set (mem_lines b). nl \<notin> set l"
    using assms(2) by (auto simp: mem_app_def)
  have l: "nl \<notin> set (trim_space l)" using assms(3) trim_space_set [of l] by blast
  show ?thesis
  proof (cases "int (length (mem_lines b)) \<ge> mem_maxSize b")
    case True
    then show ?thesis
      using b by (simp add: accept_line_def Let_def mem_Write_def mem_app_def accounted_def)
  next
    case False
    let ?b = "b\<lparr>mem_lines := mem_lines b @ [trim_space l]\<rparr>"
    let ?m = "(app_metrics a)\<lparr>linesRead := linesRead (app_metrics a) + 1, bufferSize := mem_Len ?b\<rparr>"
    let ?a = "a\<lparr>app_buf := Mem ?b, app_metrics := ?m\<rparr>"
    have step: "accept_line su io now l a =
        (if mem_Len ?b \<ge> MaxBufferSize (Settings (s_cfg su)) then flush su io now ?a else ?a)"
      using False b(1) by (simp add: accept_line_def Let_def mem_Write_def)
    have "mem_app ?a" using False b l by (auto simp: mem_app_def mem_defs)
    moreover have "accounted ?a = accounted a + 1" "linesRead (app_metrics ?a) = linesRead (app_metrics a) + 1"
      using b(1) by (simp_all add: accounted_def mem_defs)
    ultimately show ?thesis using flush_accounts [OF assms(1), of ?a io now] unfolding step by auto
  qed
qed

lemma shutdown_accounts:
  assumes "parser_ok su" and "mem_app a"
  shows "mem_app (shutdown su io now a) \<and> accounted a \<le> accounted (shutdown su io now a) \<and>
    linesRead (app_metrics (shutdown su io now a)) = linesRead (app_metrics a)"
  using flush_accounts [OF assms, of io now] assms(2)
  by (auto simp: shutdown_def Let_def mem_app_def accounted_def)

fun event_ok :: "event \<Rightarrow> bool" where
  "event_ok (Line l now) \<longleftrightarrow> nl \<notin> set l"
| "event_ok (Tick now) \<longleftrightarrow> True"
| "event_ok (Stop now) \<longleftrightarrow> True"

lemma app_step_accounts:
  assumes "parser_ok su" and "mem_app a" and "event_ok ev"
    and "linesRead (app_metrics a) \<le> accounted a"
  shows "mem_app (app_step su io a ev) \<and>
    linesRead (app_metrics (app_step su io a ev)) \<le> accounted (app_step su io a ev)"
proof (cases "app_down a")
  case True
  with assms(2,4) show ?thesis by simp
next
  case up: False
  show ?thesis
  proof (cases ev)
    case (Line l now)
    with up accept_line_accounts [OF assms(1,2), of l io now] assms(3,4) show ?thesis by simp
  next
    case (Tick now)
    with up flush_accounts [OF assms(1,2), of io now] assms(4) show ?thesis by simp
  next
    case (Stop now)
    with up shutdown_accounts [OF assms(1,2), of io now] assms(4) show ?thesis by simp
  qed
qed

text \<open>
  No line vanishes from the counters: with the memory buffer, after any sequence of lines, timer
  flushes and shutdowns, whether saves succeed or fail, the number of lines read is at most the
  sum of lines processed, not processed, unparsable, filtered and still buffered (a line
  that is retried is counted again, so the sum can be larger).
\<close>

theorem lines_accounted:
  assumes "parser_ok su" and "NewMemoryBuffer n = Some b"
    and "app_buf a = Mem b" and "app_metrics a = metrics0" and "list_all event_ok es"
  shows "linesRead (app_metrics (foldl (app_step su io) a es)) \<le> accounted (foldl (app_step su io) a es)"
proof -
  have "mem_app a \<and> linesRead (app_metrics a) \<le> accounted a"
    using assms(2-4)
    by (auto simp: mem_app_def accounted_def NewMemoryBuffer_def mem_defs metrics0_def split: if_splits)
  then have "mem_app (foldl (app_step su io) a es) \<and>
      linesRead (app_metrics (foldl (app_step su io) a es)) \<le> accounted (foldl (app_step su io) a es)"
    using assms(5) by (induction es arbitrary: a) (use app_step_accounts [OF assms(1)] in auto)
  then show ?thesis by simp
qed

theorem lines_accounted_witness:
  "linesRead (app_metrics (foldl (app_step demo_services io_ok) (demo_app 2 None [])
      [Line ''::1'' (0, 0), Tick (0, 0)])) \<le>
   accounted (foldl (app_step demo_services io_ok) (demo_app 2 None [])
      [Line ''::1'' (0, 0), Tick (0, 0)])"
  by (rule lines_accounted [where n = 100 and b = "\<lparr>mem_lines = [], mem_maxSize = 100\<rparr>"])
    (simp_all add: parser_ok_def demo_services_def NewMemoryBuffer_def)

end
