(* ===== verification/LineWise.thy ===== *)
theory LineWise
  imports Pipeline
begin

text \<open>
  What the delivery theorems need of parsing and filtering: that the entries of a batch are those
  of its lines, one by one, in their order or at least with their multiplicities.  JSON lines with
  a filter chain that does not sample are so in order; lines of a text format are, when the \<open>gonx\<close>
  reader parses each line of its input by itself, whatever the order of its answers.
\<close>

section \<open>Entries of lines\<close>

definition line_entries :: "('w, 'e, 'p) services \<Rightarrow> string \<Rightarrow> log_entry list" where
  "line_entries su l = fst (filter_entries su (parse_lines su [l]) (sconst 0))"

definition entries_of :: "('w, 'e, 'p) services \<Rightarrow> string list \<Rightarrow> log_entry list" where
  "entries_of su ls = concat (map (line_entries su) ls)"

lemma entries_of_simps [simp]:
  "entries_of su [] = []" "entries_of su (a @ b) = entries_of su a @ entries_of su b"
  by (simp_all add: entries_of_def)

definition in_order :: "('w, 'e, 'p) services \<Rightarrow> bool" where
  "in_order su \<longleftrightarrow>
     (\<forall>ls draws. fst (filter_entries su (parse_lines su ls) draws) = entries_of su ls)"

definition per_line :: "('w, 'e, 'p) services \<Rightarrow> bool" where
  "per_line su \<longleftrightarrow>
     (\<forall>ls draws. mset (fst (filter_entries su (parse_lines su ls) draws)) = mset (entries_of su ls))"

lemma in_order_per_line: "in_order su \<Longrightarrow> per_line su"
  by (simp add: in_order_def per_line_def)

section \<open>Chains that do not sample\<close>

definition chain_unsampled :: "('w, 'e, 'p) services \<Rightarrow> bool" where
  "chain_unsampled su \<longleftrightarrow>
     (case s_chain su of None \<Rightarrow> True | Some c \<Rightarrow> \<forall>r\<in>set (rules c). \<not> sampling r)"

lemma filter_unsampled:
  assumes "chain_unsampled su"
  obtains P where "\<And>es draws. filter_entries su es draws = (filter P es, draws)"
proof (cases "s_chain su")
  case None
  then show ?thesis by (intro that [of "\<lambda>_. True"]) (simp add: filter_entries_def)
next
  case (Some c)
  then have "\<forall>r\<in>set (rules c). \<not> sampling r" using assms by (simp add: chain_unsampled_def)
  then have "Apply (s_run su) pf c es draws = (filter (\<lambda>e. \<forall>r\<in>set (rules c).
      rule_keeps (s_run su) pf r (chain_fields c) e) es, draws)" for pf es draws
    by (cases "rules c = []") (simp_all add: Apply_eq apply_rules_filter, simp add: Apply_def)
  with Some show ?thesis
    by (intro that [of "\<lambda>e. \<forall>r\<in>set (rules c).
        rule_keeps (s_run su) (parse_float (s_lib su)) r (chain_fields c) e"])
      (simp add: filter_entries_def)
qed

lemma json_in_order:
  assumes "s_parser su = None" and "chain_unsampled su"
  shows "in_order su"
proof -
  obtain P where P: "\<And>es draws. filter_entries su es draws = (filter P es, draws)"
    using filter_unsampled [OF assms(2)] by blast
  have lines: "parse_lines su ls = parse_json_lines (s_json su) ls" for ls
    using assms(1) by (simp add: parse_lines_def ParseJSONLogs_eq)
  have "filter P (parse_lines su ls) = concat (map (\<lambda>l. filter P (parse_lines su [l])) ls)" for ls
    unfolding lines by (induction ls) (auto split: option.split)
  then show ?thesis
    unfolding in_order_def entries_of_def line_entries_def P fst_conv by (intro allI)
qed

text \<open>A reader that answers for each line of its input, in any order.\<close>

lemma split_on_join_concat:
  "ls \<noteq> [] \<Longrightarrow> split_on c (join [c] ls) = concat (map (split_on c) ls)"
  by (induction "[c]" ls rule: join.induct) (simp_all add: split_on_append_sep)

lemma text_per_line:
  assumes "s_parser su = Some p" and "chain_unsampled su"
    and "\<And>text. mset (List.map_filter id (p text)) = mset (List.map_filter q (split_on nl text))"
  shows "per_line su"
proof -
  obtain P where P: "\<And>es draws. filter_entries su es draws = (filter P es, draws)"
    using filter_unsampled [OF assms(2)] by blast
  have append: "List.map_filter q (xs @ ys) = List.map_filter q xs @ List.map_filter q ys" for xs ys
    by (simp add: List.map_filter_def)
  have all: "mset (ParseLogs p ls) =
      mset (concat (map (\<lambda>l. List.map_filter q (split_on nl l)) ls))" for ls
  proof (cases "ls = []")
    case False
    have "List.map_filter q (concat (map (split_on nl) ls)) =
        concat (map (\<lambda>l. List.map_filter q (split_on nl l)) ls)"
      by (induction ls) (simp_all only: list.map concat.simps append List.map_filter_simps)
    then show ?thesis using False by (simp add: ParseLogs_def assms(3) split_on_join_concat)
  qed (simp add: ParseLogs_def)
  have one: "mset (line_entries su l) = filter_mset P (mset (List.map_filter q (split_on nl l)))" for l
    using assms(1) all [of "[l]"] by (simp add: line_entries_def P parse_lines_def)
  have "mset (entries_of su ls) = filter_mset P (mset (ParseLogs p ls))" for ls
    unfolding all by (induction ls) (simp_all add: entries_of_def one)
  then show ?thesis using assms(1) by (simp add: per_line_def P parse_lines_def)
qed

section \<open>Rows of lines\<close>

text \<open>The rows the table accepts of a list of lines, and those of what \<open>flush\<close> saves of a batch.\<close>

definition rows_of :: "('w, 'e, 'p) services \<Rightarrow> (go_val list \<Rightarrow> bool) \<Rightarrow> string list \<Rightarrow>
    go_val list list" where
  "rows_of su acc ls = filter acc (batch_rows (s_lib su) (s_cfg su) (entries_of su ls))"

definition kept_rows :: "('w, 'e, 'p) services \<Rightarrow> (go_val list \<Rightarrow> bool) \<Rightarrow> string list \<Rightarrow> 'w app \<Rightarrow>
    go_val list list" where
  "kept_rows su acc ls a = filter acc (batch_rows (s_lib su) (s_cfg su) (kept_of su ls a))"

lemma rows_of_append [simp]: "rows_of su acc (a @ b) = rows_of su acc a @ rows_of su acc b"
  by (simp add: rows_of_def batch_rows_def)

lemma rows_of_Nil [simp]: "rows_of su acc [] = []"
  by (simp add: rows_of_def batch_rows_def)

lemma kept_of_mset: "per_line su \<Longrightarrow> mset (kept_of su ls a) = mset (entries_of su ls)"
  by (simp add: per_line_def kept_of_def)

lemma kept_of_empty: "per_line su \<Longrightarrow> kept_of su ls a = [] \<longleftrightarrow> entries_of su ls = []"
  by (metis kept_of_mset mset_zero_iff)

lemma entries_rows_mset:
  "mset es = mset (entries_of su ls) \<Longrightarrow>
   mset (filter acc (batch_rows (s_lib su) (s_cfg su) es)) = mset (rows_of su acc ls)"
  by (simp add: rows_of_def batch_rows_def)

lemma kept_rows_mset: "per_line su \<Longrightarrow> mset (kept_rows su acc ls a) = mset (rows_of su acc ls)"
  unfolding kept_rows_def by (intro entries_rows_mset kept_of_mset)

lemma kept_rows_in_order: "in_order su \<Longrightarrow> kept_rows su acc ls a = rows_of su acc ls"
  by (simp add: kept_rows_def rows_of_def in_order_def kept_of_def)

lemma rows_of_none: "entries_of su ls = [] \<Longrightarrow> rows_of su acc ls = []"
  by (simp add: rows_of_def batch_rows_def)

end
