(* ===== verification/SafeBuffer.thy ===== *)
theory SafeBuffer
  imports LineWise
begin

text \<open>
  What the delivery theorems need of a buffer, of either kind: enough room that the lines of a
  failed flush go back into it and that the following lines can be written.  The memory buffer
  has it always; a disk buffer has it while its lines are short, the operating system works and
  there are fewer than a million of lines and segments.
\<close>

definition buf_room :: "disk_io \<Rightarrow> bool \<Rightarrow> nat \<Rightarrow> buf \<Rightarrow> bool" where
  "buf_room io on_disk n b \<longleftrightarrow>
     (case b of
        Mem m \<Rightarrow> \<not> on_disk \<and> mem_inv m
      | Disk k \<Rightarrow> on_disk \<and> io = io_ok \<and> disk_tight k \<and>
          segmentCounter k + int n \<le> 1000000 \<and> length (disk_lines k) + n \<le> 1000000)"

text \<open>A line the buffer can hold, after the trimming of the main loop.\<close>

definition takes_line :: "bool \<Rightarrow> string \<Rightarrow> bool" where
  "takes_line on_disk l \<longleftrightarrow> on_disk \<longrightarrow> plain_line maxScanTokenSize l"

lemma buf_room_Mem [simp]: "buf_room io on_disk n (Mem m) \<longleftrightarrow> \<not> on_disk \<and> mem_inv m"
  by (simp add: buf_room_def)

lemma buf_room_Disk [simp]:
  "buf_room io on_disk n (Disk k) \<longleftrightarrow> on_disk \<and> io = io_ok \<and> disk_tight k \<and>
     segmentCounter k + int n \<le> 1000000 \<and> length (disk_lines k) + n \<le> 1000000"
  by (simp add: buf_room_def)

lemma buf_room_mono: "buf_room io on_disk n b \<Longrightarrow> m \<le> n \<Longrightarrow> buf_room io on_disk m b"
  by (cases b) auto

lemma rebuffer_disk:
  "rebuffer (buf_Write io) ls (Disk b) =
     (fst (rebuffer (disk_Write io) ls b), Disk (snd (rebuffer (disk_Write io) ls b)))"
  by (induction ls arbitrary: b) (auto split: prod.split option.split)

text \<open>Draining, and what writing back gives.\<close>

lemma room_drain:
  assumes "buf_room io on_disk n b"
  shows "\<exists>b'. buf_ReadAll io b = (Inr (buf_lines b), b') \<and> buf_lines b' = [] \<and> buf_room io on_disk n b'"
proof (cases b)
  case (Mem m)
  then show ?thesis using assms by (auto simp: mem_defs)
next
  case (Disk k)
  with assms disk_tight_ReadAll [of k] obtain k' where
    "disk_ReadAll io_ok k = (Inr (disk_lines k), k')" "disk_tight k'" "disk_lines k' = []"
    "segmentCounter k' \<le> segmentCounter k"
    by auto
  then show ?thesis using assms Disk by auto
qed

lemma room_drain_rebuffer:
  assumes "buf_room io on_disk n b" and "buf_lines b \<noteq> []"
  shows "\<exists>b'. rebuffer (buf_Write io) (buf_lines b) (snd (buf_ReadAll io b)) = ([], b') \<and>
    buf_lines b' = buf_lines b \<and> buf_room io on_disk n b'"
proof (cases b)
  case (Mem m)
  then have inv: "mem_inv m" using assms(1) by simp
  show ?thesis
    using Mem assms(1) by (simp add: mem_ReadAll_def rebuffer_mem mem_drain_rebuffer [OF inv])
next
  case (Disk k)
  then have k: "io = io_ok" "disk_tight k" "length (disk_lines k) + n \<le> 1000000" "disk_lines k \<noteq> []"
    using assms by simp_all
  moreover from this have "length (disk_lines k) \<le> 1000000" by simp
  ultimately obtain k' where
    "rebuffer (disk_Write io_ok) (disk_lines k) (snd (disk_ReadAll io_ok k)) = ([], k')"
    "disk_tight k'" "disk_lines k' = disk_lines k" "segmentCounter k' \<le> int (length (disk_lines k))"
    using disk_tight_drain_rebuffer [of k] by blast
  moreover have "snd (buf_ReadAll io b) = Disk (snd (disk_ReadAll io_ok k))"
    using Disk k(1) by (simp split: prod.split)
  ultimately show ?thesis using Disk k assms(1) by (simp add: rebuffer_disk)
qed

text \<open>A write.\<close>

lemma room_write:
  assumes "buf_room io on_disk (Suc n) b" and "takes_line on_disk l" and "buf_Write io b l = (r, b')"
  shows "buf_room io on_disk n b'" and "r = None \<Longrightarrow> buf_lines b' = buf_lines b @ [l]"
    and "r \<noteq> None \<Longrightarrow> b' = b"
proof -
  have "buf_room io on_disk n b' \<and> (r = None \<longrightarrow> buf_lines b' = buf_lines b @ [l]) \<and>
      (r \<noteq> None \<longrightarrow> b' = b)"
  proof (cases b)
    case (Mem m)
    then show ?thesis using assms by (auto simp: mem_defs split: if_splits)
  next
    case (Disk k)
    obtain k' where w: "disk_Write io_ok k l = (r, k')" and b': "b' = Disk k'"
      using Disk assms(1,3) by (auto split: prod.splits)
    have k: "disk_tight k" "plain_line maxScanTokenSize l" "segmentCounter k < 1000000"
      using Disk assms(1,2) by (simp_all add: takes_line_def)
    note step = disk_tight_Write [OF k w]
    have "length (disk_lines k') \<le> length (disk_lines k) + 1" using step(2,3) by (cases "r = None") auto
    then show ?thesis using Disk b' step assms(1) by auto
  qed
  then show "buf_room io on_disk n b'" "r = None \<Longrightarrow> buf_lines b' = buf_lines b @ [l]"
    "r \<noteq> None \<Longrightarrow> b' = b" by simp_all
qed

lemma room_close:
  assumes "buf_room io on_disk n b"
  shows "buf_room io on_disk n (buf_Close io b) \<and> buf_lines (buf_Close io b) = buf_lines b"
  using assms disk_tight_Close by (cases b) auto

end
