(* ===== verification/Delivery.thy ===== *)
theory Delivery
  imports SafeBuffer
begin

text \<open>
  End to end: runs of the program against a server that may fail, with parsing and filters that
  work line by line (theory LineWise).  Whatever the server does, the rows of every accepted line
  are stored at least once or the line is still buffered; once it answers again, the next flush
  the breaker lets through stores what is buffered; and while it answers every line is delivered
  exactly once, and in order when the parser keeps the order.
\<close>

section \<open>A server that answers\<close>

text \<open>
  \<open>up\<close> describes the worlds in which the server answers: connecting succeeds, a batch that is
  prepared, filled with rows that fit the table, and sent is stored, and each of these leads to such
  a world again.  Nothing is said of a batch with a row that does not fit: \<open>clickhouse-go\<close>
  invalidates a batch after a failed \<open>Append\<close>, and its \<open>Send\<close> then fails; a driver that skips such
  rows is covered with \<open>fits\<close> true everywhere.
\<close>

definition driver_up :: "('w, 'e) driver \<Rightarrow> ClickHouseConfig \<Rightarrow> (go_val list \<Rightarrow> bool) \<Rightarrow>
    ('w \<Rightarrow> bool) \<Rightarrow> bool" where
  "driver_up drv k fits up \<longleftrightarrow>
     atoi (Port k) \<noteq> None \<and> (\<exists>t. tls_options drv k = Inr t) \<and>
     (\<forall>w. up w \<longrightarrow>
        (\<forall>opts. \<exists>h w'. Open drv opts w = (Inr h, w') \<and> up w') \<and>
        (\<forall>h. \<exists>w'. Ping drv h w = (None, w') \<and> up w') \<and>
        (\<forall>h st q. \<exists>b w'. PrepareBatch drv h st q w = (Inr b, w') \<and>
           (\<forall>rows. list_all fits rows \<longrightarrow>
              (\<exists>w''. Send drv b (append_rows drv b rows w') = (None, w'') \<and> up w''))))"

lemma driver_upD:
  assumes "driver_up drv k fits up" and "up w"
  shows "\<exists>h w'. Open drv opts w = (Inr h, w') \<and> up w'" and "\<exists>w'. Ping drv h w = (None, w') \<and> up w'"
    and "list_all fits rows \<Longrightarrow> \<exists>b w' w''. PrepareBatch drv h st q w = (Inr b, w') \<and>
      Send drv b (append_rows drv b rows w') = (None, w'') \<and> up w''"
proof -
  note calls = assms(1) [unfolded driver_up_def, THEN conjunct2, THEN conjunct2, rule_format, OF assms(2)]
  show "\<exists>h w'. Open drv opts w = (Inr h, w') \<and> up w'" "\<exists>w'. Ping drv h w = (None, w') \<and> up w'"
    using calls by blast+
  show "list_all fits rows \<Longrightarrow> \<exists>b w' w''. PrepareBatch drv h st q w = (Inr b, w') \<and>
      Send drv b (append_rows drv b rows w') = (None, w'') \<and> up w''"
    using calls by blast
qed

text \<open>A server that accepts any batch, in the words of its single calls.\<close>

lemma append_rows_up:
  "\<forall>w b row. up w \<longrightarrow> up (snd (Append drv b row w)) \<Longrightarrow> up w \<Longrightarrow> up (append_rows drv b rows w)"
  by (induction rows arbitrary: w) simp_all

lemma driver_upI:
  assumes "atoi (Port k) \<noteq> None" and "\<exists>t. tls_options drv k = Inr t"
    and "\<And>w opts. up w \<Longrightarrow> \<exists>h w'. Open drv opts w = (Inr h, w') \<and> up w'"
    and "\<And>w h. up w \<Longrightarrow> \<exists>w'. Ping drv h w = (None, w') \<and> up w'"
    and "\<And>w h st q. up w \<Longrightarrow> \<exists>b w'. PrepareBatch drv h st q w = (Inr b, w') \<and> up w'"
    and "\<And>w b row. up w \<Longrightarrow> up (snd (Append drv b row w))"
    and "\<And>w b. up w \<Longrightarrow> \<exists>w'. Send drv b w = (None, w') \<and> up w'"
  shows "driver_up drv k fits up"
  unfolding driver_up_def
proof (intro conjI assms allI impI)
  fix w h st q assume "up w"
  then obtain b w' where prep: "PrepareBatch drv h st q w = (Inr b, w')" "up w'" using assms(5) by blast
  have "\<exists>w''. Send drv b (append_rows drv b rows w') = (None, w'') \<and> up w''" for rows
    by (rule assms(7), rule append_rows_up [where up = up]) (simp_all add: assms(6) prep(2))
  then have "PrepareBatch drv h st q w = (Inr b, w') \<and> (\<forall>rows. list_all fits rows \<longrightarrow>
      (\<exists>w''. Send drv b (append_rows drv b rows w') = (None, w'') \<and> up w''))"
    using prep(1) by simp
  then show "\<exists>b w'. PrepareBatch drv h st q w = (Inr b, w') \<and>
      (\<forall>rows. list_all fits rows \<longrightarrow>
        (\<exists>w''. Send drv b (append_rows drv b rows w') = (None, w'') \<and> up w''))"
    by (intro exI)
qed

lemma connect_up:
  assumes "driver_up drv k fits up" and "up (world c)"
  shows "\<exists>c'. connect drv k c = (None, c') \<and> up (world c')"
proof (cases "conn c = None")
  case True
  obtain port t where "atoi (Port k) = Some port" "tls_options drv k = Inr t"
    using assms(1) by (auto simp: driver_up_def)
  moreover obtain h w where open_ok: "Open drv (ch_opts k port t) (world c) = (Inr h, w)" and w: "up w"
    using driver_upD(1) [OF assms] by blast
  moreover obtain w' where "Ping drv h w = (None, w')" and "up w'"
    using driver_upD(2) [OF assms(1) w] by blast
  ultimately show ?thesis using True by (simp add: connect_def)
qed (simp add: connect_def assms(2))

lemma save_attempt_up:
  assumes "driver_up drv (ClickHouse cfg) fits up" and "up (world c)"
    and "list_all fits (batch_rows lib cfg entries)"
  shows "\<exists>c'. save_attempt drv lib cfg entries c = (None, c') \<and> up (world c')"
proof -
  obtain c1 where c1: "connect drv (ClickHouse cfg) c = (None, c1)" "up (world c1)"
    using connect_up [OF assms(1,2)] by blast
  let ?st = "if UseServerSideBatching (ClickHouse cfg) then async_settings else []"
  obtain b w w' where "PrepareBatch drv (the (conn c1)) ?st (insert_query (ClickHouse cfg)) (world c1) =
      (Inr b, w)"
    and "Send drv b (append_rows drv b (batch_rows lib cfg entries) w) = (None, w')" and "up w'"
    using driver_upD(3) [OF assms(1) c1(2) assms(3)] by blast
  then show ?thesis using c1 by (simp add: save_attempt_def)
qed

lemma Save_up:
  assumes "driver_ok drv stored pending acc" and "driver_up drv (ClickHouse cfg) fits up"
    and "up (world c)" and "list_all fits (batch_rows lib cfg entries)" and "entries \<noteq> []" and "Columns (ClickHouse cfg) \<noteq> []"
    and "0 \<le> MaxRetries (RetryCfg (Settings cfg))"
    and "MaxRetries (RetryCfg (Settings cfg)) < 2 ^ 63 - 1"
  shows "\<exists>c'. Save rand_N drv lib cfg entries c = (None, c', []) \<and> up (world c') \<and>
    stored (world c') = stored (world c) @ filter acc (batch_rows lib cfg entries)"
proof -
  obtain c' where c': "save_attempt drv lib cfg entries c = (None, c')" "up (world c')"
    using save_attempt_up [OF assms(2-4)] by blast
  let ?m = "save_retries (RetryCfg (Settings cfg))"
  have m: "0 \<le> ?m" "?m < 2 ^ 63 - 1" using assms(7,8) by (simp_all add: save_retries_def)
  then have "wrap64 (?m + 1) = ?m + 1" by (intro wrap64_idI) simp_all
  then have "nat (wrap64 (?m + 1)) = Suc (nat ?m)" using m(1) by simp
  then have "Save rand_N drv lib cfg entries c = (None, c', [])"
    using assms(5,6) c' by (simp add: Save_def Let_def retry_Do_def)
  then show ?thesis using save_attempt_stores(1) [OF assms(1) c'(1)] c'(2) by blast
qed

section \<open>The run\<close>

text \<open>The assumptions on the installation.\<close>

definition installed :: "('w, 'e, 'p) services \<Rightarrow> ('w \<Rightarrow> go_val list list) \<Rightarrow>
    ('w \<Rightarrow> nat \<Rightarrow> go_val list list) \<Rightarrow> (go_val list \<Rightarrow> bool) \<Rightarrow> bool" where
  "installed su stored pending acc \<longleftrightarrow>
     per_line su \<and> driver_ok (s_driver su) stored pending acc \<and>
     Columns (ClickHouse (s_cfg su)) \<noteq> [] \<and>
     0 \<le> MaxRetries (RetryCfg (Settings (s_cfg su))) \<and>
     MaxRetries (RetryCfg (Settings (s_cfg su))) < 2 ^ 63 - 1"

lemma installedD:
  assumes "installed su stored pending acc"
  shows "per_line su" and "driver_ok (s_driver su) stored pending acc"
  using assms by (simp_all add: installed_def)

text \<open>Lines whose rows all fit the table; the rows of a batch are those of its lines.\<close>

definition sendable :: "('w, 'e, 'p) services \<Rightarrow> (go_val list \<Rightarrow> bool) \<Rightarrow> string list \<Rightarrow> bool" where
  "sendable su fits ls \<longleftrightarrow> list_all fits (batch_rows (s_lib su) (s_cfg su) (entries_of su ls))"

lemma sendable_append [simp]:
  "sendable su fits (a @ b) \<longleftrightarrow> sendable su fits a \<and> sendable su fits b"
  "sendable su fits []"
  by (simp_all add: sendable_def batch_rows_def)

lemma sendable_any [simp]: "sendable su (\<lambda>_. True) ls"
  by (simp add: sendable_def list_all_iff)

lemma sendable_kept:
  assumes "per_line su" and "sendable su fits ls"
  shows "list_all fits (batch_rows (s_lib su) (s_cfg su) (kept_of su ls a))"
  using assms(2) mset_eq_setD [OF kept_of_mset [OF assms(1), of ls a]]
  by (simp add: sendable_def batch_rows_def list_all_iff)

text \<open>What a flush does, by the answer of the breaker and of the save.\<close>

lemma gate_closed:
  "(\<forall>cb. app_cb a = Some cb \<longrightarrow> state cb = StateClosed) \<Longrightarrow> cb_gate now (app_cb a) = (True, app_cb a)"
  by (cases "app_cb a") (auto simp: cb_gate_def cb_Allow_def)

lemma flush_down [simp]: "app_down (flush su io now a) = app_down a"
proof -
  have "app_down (flush_lines su io t ls a) = app_down a" for t ls and a :: "'a app"
    by (simp add: flush_lines_def Let_def flush_failed_def flush_saved_def
        split: prod.split option.split)
  then show ?thesis by (simp add: flush_def Let_def split: prod.split bool.split sum.split)
qed

lemma flush_rejected:
  "\<not> fst (cb_gate (fst now) (app_cb a)) \<Longrightarrow>
   app_buf (flush su io now a) = app_buf a \<and> app_client (flush su io now a) = app_client a"
  by (cases "cb_gate (fst now) (app_cb a)") (simp add: flush_def)

lemma flush_empty:
  "fst (cb_gate (fst now) (app_cb a)) \<Longrightarrow> buf_ReadAll io (app_buf a) = (Inr [], b) \<Longrightarrow>
   flush su io now a = a\<lparr>app_cb := snd (cb_gate (fst now) (app_cb a)), app_buf := b\<rparr>"
  by (cases "cb_gate (fst now) (app_cb a)") (simp add: flush_def)

text \<open>A flush the breaker lets through stores everything when the server answers.\<close>

lemma flush_delivers:
  assumes "installed su stored pending acc" and "driver_up (s_driver su) (ClickHouse (s_cfg su)) fits up"
    and "up (world (app_client a))"
    and "buf_room io on_disk n (app_buf a)" and "fst (cb_gate (fst now) (app_cb a))"
    and "sendable su fits (buf_lines (app_buf a))"
  shows "app_buf (flush su io now a) = snd (buf_ReadAll io (app_buf a)) \<and>
    stored (world (app_client (flush su io now a))) =
      stored (world (app_client a)) @ kept_rows su acc (buf_lines (app_buf a)) a \<and>
    up (world (app_client (flush su io now a))) \<and>
    app_cb (flush su io now a) =
      (if entries_of su (buf_lines (app_buf a)) = [] then snd (cb_gate (fst now) (app_cb a))
       else map_option cb_RecordSuccess (snd (cb_gate (fst now) (app_cb a))))"
proof -
  let ?ls = "buf_lines (app_buf a)" and ?d = "drained io (fst now) a"
  note per = installedD(1) [OF assms(1)]
  obtain b' where read: "buf_ReadAll io (app_buf a) = (Inr ?ls, b')"
    using room_drain [OF assms(4)] by blast
  show ?thesis
  proof (cases "?ls = []")
    case True
    then show ?thesis
      using flush_empty [OF assms(5), of io b' su] read assms(3) kept_of_empty [OF per, of "[]" a]
      by (simp add: kept_rows_def batch_rows_def)
  next
    case False
    have eq: "flush su io now a = flush_lines su io (snd now) ?ls ?d"
      using assms(5) read False by (intro flush_eq) simp_all
    note kept = kept_of_empty [OF per, of ?ls a]
    show ?thesis
    proof (cases "entries_of su ?ls = []")
      case True
      then show ?thesis
        using flush_lines_nothing(1-3) [of su ?ls ?d io "snd now"] kept assms(3)
        unfolding eq by (simp add: kept_rows_def batch_rows_def)
    next
      case ne: False
      obtain c' where c': "save_kept su ?ls ?d = (None, c', [])" and up: "up (world c')"
        and stored: "stored (world c') = stored (world (app_client a)) @ kept_rows su acc ?ls a"
        using Save_up [of "s_driver su" stored pending acc "s_cfg su" fits up "app_client a" "s_lib su"
            "kept_of su ?ls a" "s_rand su"] assms(1-3) ne kept sendable_kept [OF per assms(6)]
        by (auto simp: installed_def save_kept_def kept_rows_def)
      have "kept_of su ?ls ?d \<noteq> []" using ne kept by simp
      note saved = flush_lines_saved [OF this c', of io "snd now"]
      show ?thesis unfolding eq saved(1-3) using stored up ne by simp
    qed
  qed
qed

section \<open>At least once, whatever the server does\<close>

text \<open>The rows that are stored or still buffered.\<close>

definition safe_rows :: "('w, 'e, 'p) services \<Rightarrow> ('w \<Rightarrow> go_val list list) \<Rightarrow>
    (go_val list \<Rightarrow> bool) \<Rightarrow> 'w app \<Rightarrow> go_val list multiset" where
  "safe_rows su stored acc a =
     mset (stored (world (app_client a))) + mset (rows_of su acc (buf_lines (app_buf a)))"

lemma safe_rows_metrics [simp]:
  "safe_rows su stored acc (a\<lparr>app_metrics := m\<rparr>) = safe_rows su stored acc a"
  by (simp add: safe_rows_def)

text \<open>
  One \<open>Save\<close> of a batch: what was stored stays, and when it succeeds the rows of the batch are there.
\<close>

lemma save_kept_stores:
  assumes "installed su stored pending acc" and "kept_of su ls a \<noteq> []"
    and "save_kept su ls a = (r, c, sl)"
  shows "prefix (stored (world (app_client a))) (stored (world c))"
    and "r = None \<Longrightarrow> \<exists>extra. stored (world c) = stored (world (app_client a)) @ extra @ kept_rows su acc ls a"
proof -
  let ?kept = "kept_of su ls a" and ?R = "RetryCfg (Settings (s_cfg su))"
  have inv: "save_inv (s_driver su) stored pending acc (stored (world (app_client a))) (app_client a)"
    using assms(1) by (simp add: save_inv_def installed_def)
  have run: "retry_Do (s_rand su) (save_retries ?R) (save_initial ?R) (save_max_delay ?R)
      (save_attempt (s_driver su) (s_lib su) (s_cfg su) ?kept) (app_client a) = (r, c, sl)"
    using assms by (simp add: save_kept_def Save_def Let_def installed_def)
  show "prefix (stored (world (app_client a))) (stored (world c))"
    using save.retry_contract(1) [OF inv run] by (simp add: save_inv_def)
  assume "r = None"
  then have "save_done stored (stored (world (app_client a))) (kept_rows su acc ls a) c"
    using save.retry_contract(2) [OF inv run] assms(1)
    by (simp add: installed_def save_retries_def kept_rows_def split: if_splits)
  then show "\<exists>extra. stored (world c) = stored (world (app_client a)) @ extra @ kept_rows su acc ls a"
    by (simp add: save_done_def)
qed

text \<open>
  A flush leaves the lines in the buffer or takes them all out; in the second case their rows have
  been stored (or there were none).  Nothing stored is lost.
\<close>

lemma flush_safe:
  assumes "installed su stored pending acc" and "buf_room io on_disk n (app_buf a)"
  shows "buf_room io on_disk n (app_buf (flush su io now a)) \<and>
    safe_rows su stored acc a \<subseteq># safe_rows su stored acc (flush su io now a)"
proof (cases "fst (cb_gate (fst now) (app_cb a))")
  case False
  then show ?thesis using flush_rejected [of now a su io] assms(2) by (simp add: safe_rows_def)
next
  case gate: True
  let ?ls = "buf_lines (app_buf a)" and ?d = "drained io (fst now) a"
  obtain b' where read: "buf_ReadAll io (app_buf a) = (Inr ?ls, b')" "buf_lines b' = []"
    "buf_room io on_disk n b'" using room_drain [OF assms(2)] by blast
  show ?thesis
  proof (cases "?ls = []")
    case True
    then show ?thesis using flush_empty [OF gate, of io b' su] read by (simp add: safe_rows_def)
  next
    case False
    have eq: "flush su io now a = flush_lines su io (snd now) ?ls ?d"
      using gate read(1) False by (intro flush_eq) simp_all
    have d: "app_buf ?d = b'" "app_client ?d = app_client a" using read(1) by simp_all
    show ?thesis
    proof (cases "kept_of su ?ls ?d = []")
      case True
      then have "rows_of su acc ?ls = []"
        using kept_of_empty [OF installedD(1) [OF assms(1)]] by (simp add: rows_of_none)
      then show ?thesis
        unfolding eq safe_rows_def flush_lines_nothing(1,2) [OF True] d using read by simp
    next
      case ne: False
      obtain r c sl where run: "save_kept su ?ls ?d = (r, c, sl)" by (cases "save_kept su ?ls ?d")
      note stores = save_kept_stores [OF assms(1) ne run, unfolded d(2)]
      show ?thesis
      proof (cases r)
        case (Some e)
        with run have "save_kept su ?ls ?d = (Some e, c, sl)" by simp
        note failed = flush_lines_failed(1,2) [OF ne this, of io "snd now"]
        obtain b'' where "rebuffer (buf_Write io) ?ls b' = ([], b'')" "buf_lines b'' = ?ls"
          "buf_room io on_disk n b''"
          using room_drain_rebuffer [OF assms(2) False] read(1) by auto
        moreover obtain extra where "stored (world c) = stored (world (app_client a)) @ extra"
          using stores(1) by (auto simp: prefix_def)
        ultimately show ?thesis unfolding eq safe_rows_def failed d by simp
      next
        case None
        with run have "save_kept su ?ls ?d = (None, c, sl)" by simp
        note saved = flush_lines_saved(1,2) [OF ne this, of io "snd now"]
        have "mset (kept_rows su acc ?ls ?d) = mset (rows_of su acc ?ls)"
          by (rule kept_rows_mset [OF installedD(1) [OF assms(1)]])
        moreover obtain extra where
          "stored (world c) = stored (world (app_client a)) @ extra @ kept_rows su acc ?ls ?d"
          using stores(2) None by blast
        ultimately show ?thesis unfolding eq safe_rows_def saved d using read by simp
      qed
    qed
  qed
qed

text \<open>The lines of a run that the buffer accepted, trimmed, in the order read.\<close>

fun accepted :: "('w, 'e, 'p) services \<Rightarrow> disk_io \<Rightarrow> 'w app \<Rightarrow> event list \<Rightarrow> string list" where
  "accepted su io a [] = []"
| "accepted su io a (e # es) =
     (case e of
        Line l now \<Rightarrow>
          if \<not> app_down a \<and> fst (buf_Write io (app_buf a) (trim_space l)) = None
          then [trim_space l] else []
      | _ \<Rightarrow> []) @ accepted su io (app_step su io a e) es"


lemma accept_line_eq:
  assumes "buf_Write io (app_buf a) (trim_space l) = (r, b)"
  shows "accept_line su io now l a =
    (let a1 = upd_metrics (\<lambda>m. m\<lparr>linesRead := linesRead m + 1\<rparr>) (a\<lparr>app_buf := b\<rparr>);
         a2 = upd_metrics (\<lambda>m. m\<lparr>bufferSize := buf_Len b\<rparr>) a1 in
     if r \<noteq> None then upd_metrics (\<lambda>m. m\<lparr>linesNotProcessed := linesNotProcessed m + 1\<rparr>) a1
     else if buf_Len b \<ge> MaxBufferSize (Settings (s_cfg su)) then flush su io now a2 else a2)"
  using assms by (cases r) (simp_all add: accept_line_def Let_def)

lemma Close_stored:
  "driver_ok drv stored pending acc \<Longrightarrow> stored (world (snd (Close drv c))) = stored (world c)"
  using driver_okD(3) [of drv stored pending acc]
  by (simp add: Close_def split: option.split prod.split) (metis snd_conv)

lemma Close_conn: "conn (snd (Close drv c)) = None"
  by (simp add: Close_def split: option.split prod.split)

lemma shutdown_eq:
  "\<not> app_down a \<Longrightarrow> shutdown su io now a =
     (let b = flush su io now a in
      b\<lparr>app_client := snd (Close (s_driver su) (app_client b)),
        app_buf := buf_Close io (app_buf b), app_down := True\<rparr>)"
  by (simp add: shutdown_def)

text \<open>The lines of the events are such that the buffer can hold them.\<close>

fun takes_event :: "bool \<Rightarrow> event \<Rightarrow> bool" where
  "takes_event on_disk (Line l now) \<longleftrightarrow> takes_line on_disk (trim_space l)"
| "takes_event on_disk (Tick now) \<longleftrightarrow> True"
| "takes_event on_disk (Stop now) \<longleftrightarrow> True"

lemma app_step_safe:
  assumes "installed su stored pending acc" and "buf_room io on_disk (Suc n) (app_buf a)"
    and "takes_event on_disk e"
  shows "buf_room io on_disk n (app_buf (app_step su io a e)) \<and>
    safe_rows su stored acc a + mset (rows_of su acc (accepted su io a [e]))
      \<subseteq># safe_rows su stored acc (app_step su io a e)"
proof (cases "app_down a")
  case True
  then show ?thesis using buf_room_mono [OF assms(2)] by (cases e) simp_all
next
  case up: False
  show ?thesis
  proof (cases e)
    case (Line l now)
    obtain r b where w: "buf_Write io (app_buf a) (trim_space l) = (r, b)" by fastforce
    have "takes_line on_disk (trim_space l)" using assms(3) Line by simp
    note room = room_write [OF assms(2) this w]
    let ?m = "\<lambda>m. m\<lparr>linesRead := linesRead m + 1\<rparr>"
    let ?a2 = "a\<lparr>app_buf := b, app_metrics := (?m (app_metrics a))\<lparr>bufferSize := buf_Len b\<rparr>\<rparr>"
    show ?thesis
    proof (cases "r = None")
      case False
      then have "b = app_buf a" using room(3) by simp
      then show ?thesis
        using Line up False room(1) w by (auto simp: accept_line_eq [OF w] Let_def safe_rows_def)
    next
      case True
      then have step: "app_step su io a e =
          (if buf_Len b \<ge> MaxBufferSize (Settings (s_cfg su)) then flush su io now ?a2 else ?a2)"
        using Line up by (simp add: accept_line_eq [OF w] Let_def)
      have acc: "accepted su io a [e] = [trim_space l]" using True Line up w by simp
      have ready: "buf_room io on_disk n (app_buf ?a2)" using room(1) by simp
      have rows: "safe_rows su stored acc ?a2 =
          safe_rows su stored acc a + mset (rows_of su acc [trim_space l])"
        using room(2) True by (simp add: safe_rows_def)
      show ?thesis
        using flush_safe [OF assms(1) ready, of now] ready
        unfolding step acc rows [symmetric] by simp
    qed
  next
    case (Tick now)
    then show ?thesis
      using up flush_safe [OF assms(1) buf_room_mono [OF assms(2)], of n now] by simp
  next
    case (Stop now)
    have ok: "driver_ok (s_driver su) stored pending acc" using assms(1) by (simp add: installed_def)
    let ?f = "flush su io now a"
    have f: "buf_room io on_disk n (app_buf ?f)" "safe_rows su stored acc a \<subseteq># safe_rows su stored acc ?f"
      using flush_safe [OF assms(1) buf_room_mono [OF assms(2)], of n now] by simp_all
    have "app_step su io a e = ?f\<lparr>app_client := snd (Close (s_driver su) (app_client ?f)),
        app_buf := buf_Close io (app_buf ?f), app_down := True\<rparr>"
      using Stop up by (simp add: shutdown_eq Let_def)
    then show ?thesis
      using f Stop room_close [OF f(1)] by (simp add: safe_rows_def Close_stored [OF ok])
  qed
qed

lemma run_safe:
  assumes "installed su stored pending acc"
    and "buf_room io on_disk (length es + n) (app_buf a)" and "list_all (takes_event on_disk) es"
  shows "buf_room io on_disk n (app_buf (foldl (app_step su io) a es)) \<and>
    safe_rows su stored acc a + mset (rows_of su acc (accepted su io a es))
      \<subseteq># safe_rows su stored acc (foldl (app_step su io) a es)"
  using assms(2,3)
proof (induction es arbitrary: a)
  case Nil
  then show ?case by simp
next
  case (Cons e es)
  let ?a1 = "app_step su io a e"
  have one: "buf_room io on_disk (length es + n) (app_buf ?a1)"
    "safe_rows su stored acc a + mset (rows_of su acc (accepted su io a [e]))
      \<subseteq># safe_rows su stored acc ?a1"
    using app_step_safe [OF assms(1), of io on_disk "length es + n" a e] Cons.prems by simp_all
  have "list_all (takes_event on_disk) es" using Cons.prems(2) by simp
  note rest = Cons.IH [OF one(1) this]
  have "accepted su io a (e # es) = accepted su io a [e] @ accepted su io ?a1 es" by simp
  then have "safe_rows su stored acc a + mset (rows_of su acc (accepted su io a (e # es))) =
      (safe_rows su stored acc a + mset (rows_of su acc (accepted su io a [e]))) +
        mset (rows_of su acc (accepted su io ?a1 es))"
    by (simp only: rows_of_append mset_append ac_simps)
  also have "\<dots> \<subseteq># safe_rows su stored acc ?a1 + mset (rows_of su acc (accepted su io ?a1 es))"
    by (rule subset_mset.add_right_mono [OF one(2)])
  also have "\<dots> \<subseteq># safe_rows su stored acc (foldl (app_step su io) ?a1 es)"
    using rest by blast
  finally show ?case using rest by (simp only: foldl.simps simp_thms)
qed

text \<open>
  C2. At least once: from any state with a buffer of either kind that has room, whatever the server
  does (any call may fail at any time, also after storing a part of a batch), whatever lines,
  timer flushes and shutdown follow, and whatever the breaker decides, every row of a line the
  buffer accepted, every row buffered before and every row stored before is, with its
  multiplicity, stored or still in the buffer.  Rows are those of the entries that pass the
  filters; parsing and filtering must work line by line.  (A memory buffer always has room; for a disk
  buffer the operating system must work, lines have less than 64 KB, and there are fewer than a
  million lines and events.)
\<close>

theorem at_least_once:
  assumes "installed su stored pending acc" and "buf_room io on_disk (length es) (app_buf a)"
    and "list_all (takes_event on_disk) es" and "z = foldl (app_step su io) a es"
  shows "mset (stored (world (app_client a))) +
      mset (rows_of su acc (buf_lines (app_buf a) @ accepted su io a es)) \<subseteq>#
    mset (stored (world (app_client z))) + mset (rows_of su acc (buf_lines (app_buf z)))"
  using run_safe [of su stored pending acc io on_disk es 0 a] assms
  by (simp add: safe_rows_def ac_simps)

lemma gate_open_elapsed:
  assumes "\<forall>cb. app_cb a = Some cb \<and> state cb = StateOpen \<longrightarrow> cooldown cb \<le> time_since now (openedAt cb)"
  shows "fst (cb_gate now (app_cb a))"
  using assms
  by (cases "app_cb a") (auto simp: cb_gate_def cb_Allow_def split: prod.split cb_state.split)

lemma gate_opens:
  "fst (cb_gate now cb) \<Longrightarrow> map_option state (snd (cb_gate now cb)) =
     map_option (\<lambda>cb. if state cb = StateOpen then StateHalfOpen else state cb) cb"
  by (cases cb) (auto simp: cb_gate_def cb_Allow_def split: cb_state.splits if_splits prod.splits)

text \<open>
  C3. Recovery, when one operation runs at a time: after any run, with any failures, that has not shut
  down, if the server answers from now on and the cool-down of an open breaker has passed, the
  next timer flush empties the buffer, memory or disk, and then all rows of all lines the buffer
  accepted in the run are stored.  If the buffered lines yielded entries the breaker is closed
  again; if not, nothing was sent, and an open breaker is half-open after the flush.
\<close>

theorem recovery_delivers:
  assumes "installed su stored pending acc" and "driver_up (s_driver su) (ClickHouse (s_cfg su)) fits up"
    and "buf_room io on_disk (length es) (app_buf a)" and "list_all (takes_event on_disk) es"
    and "z = foldl (app_step su io) a es" and "\<not> app_down z" and "up (world (app_client z))"
    and "\<forall>cb. app_cb z = Some cb \<and> state cb = StateOpen \<longrightarrow>
      cooldown cb \<le> time_since (fst now) (openedAt cb)"
    and "sendable su fits (buf_lines (app_buf z))" and "y = app_step su io z (Tick now)"
  shows "buf_lines (app_buf y) = [] \<and>
    mset (stored (world (app_client a))) +
      mset (rows_of su acc (buf_lines (app_buf a) @ accepted su io a es)) \<subseteq>#
      mset (stored (world (app_client y))) \<and>
    (if entries_of su (buf_lines (app_buf z)) \<noteq> []
     then \<forall>cb. app_cb y = Some cb \<longrightarrow> state cb = StateClosed \<and> failures cb = 0
     else map_option state (app_cb y) =
       map_option (\<lambda>cb. if state cb = StateOpen then StateHalfOpen else state cb) (app_cb z))"
proof -
  have safe: "buf_room io on_disk 0 (app_buf z)"
    "safe_rows su stored acc a + mset (rows_of su acc (accepted su io a es)) \<subseteq>#
      safe_rows su stored acc z"
    using run_safe [of su stored pending acc io on_disk es 0 a] assms(1,3-5) by simp_all
  have y: "y = flush su io now z" using assms(6,10) by simp
  note gate = gate_open_elapsed [OF assms(8)]
  note deliver = flush_delivers [OF assms(1,2,7) safe(1) gate assms(9), folded y]
  have rows: "mset (stored (world (app_client y))) = safe_rows su stored acc z"
    using deliver kept_rows_mset [OF installedD(1) [OF assms(1)]] by (simp add: safe_rows_def)
  have "buf_lines (app_buf y) = []" using deliver room_drain [OF safe(1)] by auto
  moreover have "safe_rows su stored acc a + mset (rows_of su acc (accepted su io a es)) \<subseteq>#
      mset (stored (world (app_client y)))"
    unfolding rows by (rule safe(2))
  moreover have "if entries_of su (buf_lines (app_buf z)) \<noteq> []
     then \<forall>cb. app_cb y = Some cb \<longrightarrow> state cb = StateClosed \<and> failures cb = 0
     else map_option state (app_cb y) =
       map_option (\<lambda>cb. if state cb = StateOpen then StateHalfOpen else state cb) (app_cb z)"
    using deliver gate_opens [OF gate] by (auto simp: cb_RecordSuccess_def)
  ultimately show ?thesis
    by (simp add: safe_rows_def ac_simps)
qed

section \<open>Exactly once, in order, while the server answers\<close>

definition installed_in_order :: "('w, 'e, 'p) services \<Rightarrow> ('w \<Rightarrow> go_val list list) \<Rightarrow>
    ('w \<Rightarrow> nat \<Rightarrow> go_val list list) \<Rightarrow> (go_val list \<Rightarrow> bool) \<Rightarrow> bool" where
  "installed_in_order su stored pending acc \<longleftrightarrow> installed su stored pending acc \<and> in_order su"

text \<open>
  A buffer that refuses no line while it holds fewer lines than the main loop flushes at: a memory
  buffer of the configured size, or a disk buffer without a byte limit.
\<close>

definition never_full :: "('w, 'e, 'p) services \<Rightarrow> buf \<Rightarrow> bool" where
  "never_full su b \<longleftrightarrow>
     (case b of
        Mem m \<Rightarrow> mem_maxSize m = MaxBufferSize (Settings (s_cfg su))
      | Disk k \<Rightarrow> maxBytes k \<le> 0)"

lemma never_full_drain:
  assumes "buf_room io on_disk n b" and "never_full su b"
  shows "never_full su (snd (buf_ReadAll io b))"
proof (cases b)
  case (Disk k)
  with assms disk_tight_ReadAll [of k] show ?thesis by (auto simp: never_full_def)
qed (use assms in \<open>simp add: never_full_def mem_ReadAll_def\<close>)

lemma never_full_write:
  assumes "buf_room io on_disk (Suc n) b" and "never_full su b" and "takes_line on_disk l"
    and "int (length (buf_lines b)) < MaxBufferSize (Settings (s_cfg su))"
  shows "\<exists>b'. buf_Write io b l = (None, b') \<and> never_full su b' \<and> buf_room io on_disk n b' \<and>
    buf_lines b' = buf_lines b @ [l]"
proof -
  obtain r b' where w: "buf_Write io b l = (r, b')" by fastforce
  have "r = None \<and> never_full su b'"
  proof (cases b)
    case (Mem m)
    then show ?thesis using assms w by (auto simp: never_full_def mem_defs split: if_splits)
  next
    case (Disk k)
    obtain k' where w': "disk_Write io_ok k l = (r, k')" and b': "b' = Disk k'"
      using Disk assms(1) w by (auto split: prod.splits)
    have "disk_inv k" "disk_okw k l" using Disk assms(1,3) by (simp_all add: disk_tight_def disk_okw_def takes_line_def)
    from disk_Write_cases [OF this] Disk assms(2) w' have "r = None" by (auto simp: never_full_def)
    moreover have "maxBytes k' = maxBytes k" using disk_Write_frame [OF w'] by simp
    ultimately show ?thesis using Disk b' assms(2) by (simp add: never_full_def)
  qed
  then show ?thesis using w room_write [OF assms(1,3) w] by auto
qed

lemma room_len: "buf_room io on_disk n b \<Longrightarrow> buf_Len b = int (length (buf_lines b))"
  by (cases b) (auto simp: mem_Len_def disk_tight_def disk.len_lines)

text \<open>
  The state between events: such a buffer with room for \<open>n\<close> more events, not due for a flush, and a
  breaker that is off or closed.
\<close>

definition running :: "('w, 'e, 'p) services \<Rightarrow> ('w \<Rightarrow> bool) \<Rightarrow> disk_io \<Rightarrow> bool \<Rightarrow> nat \<Rightarrow> 'w app \<Rightarrow> bool" where
  "running su up io on_disk n a \<longleftrightarrow>
     buf_room io on_disk n (app_buf a) \<and> never_full su (app_buf a) \<and>
     int (length (buf_lines (app_buf a))) < MaxBufferSize (Settings (s_cfg su)) \<and>
     (\<forall>cb. app_cb a = Some cb \<longrightarrow> state cb = StateClosed) \<and> up (world (app_client a)) \<and>
     \<not> app_down a"

lemma running_mono: "running su up io on_disk n a \<Longrightarrow> m \<le> n \<Longrightarrow> running su up io on_disk m a"
  using buf_room_mono by (auto simp: running_def)

text \<open>One flush in such a state (or with the buffer just due for it) stores what is buffered.\<close>

lemma flush_running:
  assumes "installed_in_order su stored pending acc"
    and "driver_up (s_driver su) (ClickHouse (s_cfg su)) fits up"
    and "buf_room io on_disk n (app_buf a)" and "never_full su (app_buf a)"
    and "0 < MaxBufferSize (Settings (s_cfg su))"
    and "\<forall>cb. app_cb a = Some cb \<longrightarrow> state cb = StateClosed"
    and "up (world (app_client a))" and "\<not> app_down a" and "sendable su fits (buf_lines (app_buf a))"
  shows "running su up io on_disk n (flush su io now a) \<and> buf_lines (app_buf (flush su io now a)) = [] \<and>
    stored (world (app_client (flush su io now a))) =
      stored (world (app_client a)) @ rows_of su acc (buf_lines (app_buf a))"
proof -
  have gate: "cb_gate (fst now) (app_cb a) = (True, app_cb a)" by (rule gate_closed [OF assms(6)])
  then have open_gate: "fst (cb_gate (fst now) (app_cb a))" by simp
  have inst: "installed su stored pending acc" and order: "in_order su"
    using assms(1) by (simp_all add: installed_in_order_def)
  note deliver = flush_delivers [OF inst assms(2,7,3) open_gate assms(9)]
  have "\<forall>cb. app_cb (flush su io now a) = Some cb \<longrightarrow> state cb = StateClosed"
    using deliver gate assms(6) by (auto simp: cb_RecordSuccess_def)
  moreover have "buf_lines (app_buf (flush su io now a)) = []" "buf_room io on_disk n (app_buf (flush su io now a))"
    using deliver room_drain [OF assms(3)] by auto
  ultimately show ?thesis
    using deliver never_full_drain [OF assms(3,4)] assms(5,8)
      kept_rows_in_order [OF order, of acc "buf_lines (app_buf a)" a]
    by (simp add: running_def)
qed

lemma accept_line_running:
  assumes "installed_in_order su stored pending acc"
    and "driver_up (s_driver su) (ClickHouse (s_cfg su)) fits up"
    and "running su up io on_disk (Suc n) a" and "takes_line on_disk (trim_space l)"
    and "sendable su fits (buf_lines (app_buf a) @ [trim_space l])"
  shows "running su up io on_disk n (accept_line su io now l a) \<and>
    stored (world (app_client (accept_line su io now l a))) @
      rows_of su acc (buf_lines (app_buf (accept_line su io now l a))) =
    stored (world (app_client a)) @ rows_of su acc (buf_lines (app_buf a)) @
      rows_of su acc [trim_space l] \<and>
    sendable su fits (buf_lines (app_buf (accept_line su io now l a)))"
proof -
  note run = assms(3) [unfolded running_def]
  obtain b where b: "buf_Write io (app_buf a) (trim_space l) = (None, b)" "never_full su b"
    "buf_room io on_disk n b" "buf_lines b = buf_lines (app_buf a) @ [trim_space l]"
    using never_full_write [of io on_disk n "app_buf a" su "trim_space l"] run assms(4) by blast
  let ?m = "(app_metrics a)\<lparr>linesRead := linesRead (app_metrics a) + 1, bufferSize := buf_Len b\<rparr>"
  let ?a2 = "a\<lparr>app_buf := b, app_metrics := ?m\<rparr>"
  have step: "accept_line su io now l a =
      (if buf_Len b \<ge> MaxBufferSize (Settings (s_cfg su)) then flush su io now ?a2 else ?a2)"
    by (simp add: accept_line_eq [OF b(1)] Let_def)
  have pos: "0 < MaxBufferSize (Settings (s_cfg su))" using run by simp
  have "running su up io on_disk n (flush su io now ?a2) \<and> buf_lines (app_buf (flush su io now ?a2)) = [] \<and>
      stored (world (app_client (flush su io now ?a2))) =
        stored (world (app_client ?a2)) @ rows_of su acc (buf_lines (app_buf ?a2))"
    by (rule flush_running [OF assms(1,2) _ _ pos]) (use run b assms(5) in simp_all)
  then show ?thesis
    unfolding step using run b assms(5) room_len [OF b(3)] by (auto simp: running_def)
qed

text \<open>The lines of a run.\<close>

fun event_lines :: "event list \<Rightarrow> string list" where
  "event_lines [] = []"
| "event_lines (Line l now # es) = l # event_lines es"
| "event_lines (Tick now # es) = event_lines es"
| "event_lines (Stop now # es) = event_lines es"

lemma takes_events:
  "list_all (takes_event on_disk) es \<longleftrightarrow>
   list_all (\<lambda>l. takes_line on_disk (trim_space l)) (event_lines es)"
  by (induction es rule: event_lines.induct) simp_all

fun is_stop :: "event \<Rightarrow> bool" where
  "is_stop (Stop now) = True"
| "is_stop _ = False"

lemma app_step_running:
  assumes "installed_in_order su stored pending acc"
    and "driver_up (s_driver su) (ClickHouse (s_cfg su)) fits up"
    and "running su up io on_disk (Suc n) a" and "\<not> is_stop e" and "takes_event on_disk e"
    and "sendable su fits (buf_lines (app_buf a) @ map trim_space (event_lines [e]))"
  shows "running su up io on_disk n (app_step su io a e) \<and>
    stored (world (app_client (app_step su io a e))) @
      rows_of su acc (buf_lines (app_buf (app_step su io a e))) =
    stored (world (app_client a)) @
      rows_of su acc (buf_lines (app_buf a) @ map trim_space (event_lines [e])) \<and>
    sendable su fits (buf_lines (app_buf (app_step su io a e)))"
proof (cases e)
  case (Line l now)
  then show ?thesis
    using accept_line_running [OF assms(1-3), of l now] assms(3,5,6) by (simp add: running_def)
next
  case (Tick now)
  note run = running_mono [OF assms(3), of n, unfolded running_def, simplified]
  have pos: "0 < MaxBufferSize (Settings (s_cfg su))" using run by simp
  have "running su up io on_disk n (flush su io now a) \<and> buf_lines (app_buf (flush su io now a)) = [] \<and>
      stored (world (app_client (flush su io now a))) =
        stored (world (app_client a)) @ rows_of su acc (buf_lines (app_buf a))"
    by (rule flush_running [OF assms(1,2) _ _ pos]) (use run assms(6) Tick in simp_all)
  with Tick run show ?thesis by simp
qed (use assms(4) in simp)

lemma run_delivers:
  assumes "installed_in_order su stored pending acc"
    and "driver_up (s_driver su) (ClickHouse (s_cfg su)) fits up"
    and "running su up io on_disk (length es) a" and "list_all (\<lambda>e. \<not> is_stop e) es"
    and "list_all (takes_event on_disk) es"
    and "sendable su fits (buf_lines (app_buf a) @ map trim_space (event_lines es))"
  shows "running su up io on_disk 0 (foldl (app_step su io) a es) \<and>
    stored (world (app_client (foldl (app_step su io) a es))) @
      rows_of su acc (buf_lines (app_buf (foldl (app_step su io) a es))) =
    stored (world (app_client a)) @
      rows_of su acc (buf_lines (app_buf a) @ map trim_space (event_lines es)) \<and>
    sendable su fits (buf_lines (app_buf (foldl (app_step su io) a es)))"
  using assms(3-6)
proof (induction es arbitrary: a)
  case Nil
  then show ?case by simp
next
  case (Cons e es)
  let ?a1 = "app_step su io a e"
  have split: "event_lines (e # es) = event_lines [e] @ event_lines es" by (cases e) simp_all
  then have fits: "sendable su fits (buf_lines (app_buf a) @ map trim_space (event_lines [e]))"
    "sendable su fits (map trim_space (event_lines es))"
    using Cons.prems(4) by (simp_all del: event_lines.simps)
  have "\<not> is_stop e" "takes_event on_disk e" "running su up io on_disk (Suc (length es)) a"
    using Cons.prems(1-3) by simp_all
  note one = app_step_running [OF assms(1,2) this(3,1,2) fits(1)]
  have "list_all (\<lambda>e. \<not> is_stop e) es" "list_all (takes_event on_disk) es"
    "sendable su fits (buf_lines (app_buf ?a1) @ map trim_space (event_lines es))"
    using one Cons.prems(2,3) fits(2) by simp_all
  note rest = Cons.IH [OF one [THEN conjunct1] this]
  from split have "stored (world (app_client a)) @
      rows_of su acc (buf_lines (app_buf a) @ map trim_space (event_lines (e # es))) =
    (stored (world (app_client ?a1)) @ rows_of su acc (buf_lines (app_buf ?a1))) @
      rows_of su acc (map trim_space (event_lines es))"
    using one by (simp del: event_lines.simps)
  with rest show ?case by (simp del: event_lines.simps)
qed

lemma shutdown_delivers:
  assumes "installed_in_order su stored pending acc"
    and "driver_up (s_driver su) (ClickHouse (s_cfg su)) fits up"
    and "running su up io on_disk n a" and "sendable su fits (buf_lines (app_buf a))"
    and "z = shutdown su io now a"
  shows "stored (world (app_client z)) =
      stored (world (app_client a)) @ rows_of su acc (buf_lines (app_buf a)) \<and>
    buf_lines (app_buf z) = [] \<and> conn (app_client z) = None \<and> app_down z"
proof -
  note run = assms(3) [unfolded running_def]
  have pos: "0 < MaxBufferSize (Settings (s_cfg su))" using run by simp
  have f: "running su up io on_disk n (flush su io now a)" "buf_lines (app_buf (flush su io now a)) = []"
    "stored (world (app_client (flush su io now a))) =
        stored (world (app_client a)) @ rows_of su acc (buf_lines (app_buf a))"
    using flush_running [OF assms(1,2) _ _ pos _ _ _ assms(4), of io on_disk n now] run by blast+
  have ok: "driver_ok (s_driver su) stored pending acc" using assms(1) by (simp add: installed_in_order_def installed_def)
  have "\<not> app_down a" "buf_lines (buf_Close io (app_buf (flush su io now a))) = []"
    using run f(2) room_close [of io on_disk n "app_buf (flush su io now a)"] f(1) by (simp_all add: running_def)
  then show ?thesis
    using f by (simp add: assms(5) shutdown_eq Let_def Close_stored [OF ok] Close_conn)
qed

text \<open>
  C4. Exactly-once delivery while the server answers, when one operation runs at a time: from a
  running program with either buffer, any sequence of lines and timer flushes, each run to its
  end, followed by the shutdown, stores the rows of the lines buffered at the start and of all
  lines read, trimmed, each once and in the order read, on top of what was stored before (lines
  that do not parse, entries the filters drop, and rows the table rejects excepted), for any
  parser and filters that work line by line and in order.  Afterwards the buffer is empty and the
  connection is closed.  A memory buffer has the configured size; a disk buffer has no byte limit, a
  working operating system, lines below 64 KB, and fewer than a million lines and events.  (With
  overlapping operations the theorems of Concurrency and ExactlyOnce apply.)
\<close>

theorem run_stores_all_lines:
  assumes "installed_in_order su stored pending acc"
    and "driver_up (s_driver su) (ClickHouse (s_cfg su)) fits up" and "up (world (app_client a))"
    and "buf_room io on_disk (length es) (app_buf a)" and "never_full su (app_buf a)"
    and "int (length (buf_lines (app_buf a))) < MaxBufferSize (Settings (s_cfg su))"
    and "\<forall>cb. app_cb a = Some cb \<longrightarrow> state cb = StateClosed" and "\<not> app_down a"
    and "list_all (\<lambda>e. \<not> is_stop e) es" and "list_all (takes_event on_disk) es"
    and "sendable su fits (buf_lines (app_buf a) @ map trim_space (event_lines es))"
    and "z = shutdown su io now (foldl (app_step su io) a es)"
  shows "stored (world (app_client z)) =
      stored (world (app_client a)) @ rows_of su acc (buf_lines (app_buf a) @ map trim_space (event_lines es)) \<and>
    buf_lines (app_buf z) = [] \<and> conn (app_client z) = None \<and> app_down z"
proof -
  have "running su up io on_disk (length es) a" using assms(3-8) by (simp add: running_def)
  note run = run_delivers [OF assms(1,2) this assms(9-11)]
  then have "running su up io on_disk 0 (foldl (app_step su io) a es)"
    "sendable su fits (buf_lines (app_buf (foldl (app_step su io) a es)))" by blast+
  from shutdown_delivers [OF assms(1,2) this assms(12)] run show ?thesis by simp
qed

section \<open>The theorems at work\<close>

lemma accept_line_mem:
  assumes "app_buf a = Mem b" and "mem_Len b < mem_maxSize b"
  shows "accept_line su io now l a =
    (let b1 = b\<lparr>mem_lines := mem_lines b @ [trim_space l]\<rparr>;
         a2 = a\<lparr>app_buf := Mem b1, app_metrics := (app_metrics a)
           \<lparr>linesRead := linesRead (app_metrics a) + 1, bufferSize := mem_Len b1\<rparr>\<rparr> in
     if mem_Len b1 \<ge> MaxBufferSize (Settings (s_cfg su)) then flush su io now a2 else a2)"
  using assms by (simp add: accept_line_def Let_def mem_Write_def mem_Len_def)

lemma demo_driver_up: "driver_up demo_driver (ClickHouse (demo_cfg 1)) fits (\<lambda>w. demo_down w = 0)"
  by (rule driver_upI) (simp_all add: demo_driver_def demo_cfg_def tls_options_def atoi_9000
      del: atoi.simps)

lemma demo_in_order: "in_order demo_services"
  by (rule json_in_order) (simp_all add: demo_services_def chain_unsampled_def)

lemma demo_installed: "installed demo_services demo_rows (\<lambda>w b. demo_batch w) (\<lambda>_. True)"
  using demo_driver_ok in_order_per_line [OF demo_in_order]
  by (simp add: installed_def) (simp add: demo_services_def demo_cfg_def)

lemma demo_installed_in_order:
  "installed_in_order demo_services demo_rows (\<lambda>w b. demo_batch w) (\<lambda>_. True)"
  using demo_installed demo_in_order by (simp add: installed_in_order_def)

lemma demo_services_up:
  "driver_up (s_driver demo_services) (ClickHouse (s_cfg demo_services)) (\<lambda>_. True) (\<lambda>w. demo_down w = 0)"
  using demo_driver_up by (simp add: demo_services_def)

lemma demo_max [simp]: "MaxBufferSize (Settings (s_cfg demo_services)) = 100"
  by (simp add: demo_services_def demo_cfg_def)

lemma demo_app_down [simp]: "\<not> app_down (demo_app n cb ls)"
  by (simp add: demo_app_def)

theorem run_stores_all_lines_witness:
  "demo_rows (world (app_client (shutdown demo_services io_ok (0, 0)
      (foldl (app_step demo_services io_ok) (demo_app 0 None [])
        [Line ''::1 '' (0, 0), Line ''bad'' (0, 0), Tick (1, 1), Line ''::2'' (0, 0)])))) =
   rows_of demo_services (\<lambda>_. True) (map trim_space [''::1 '', ''bad'', ''::2''])"
proof -
  let ?es = "[Line ''::1 '' (0, 0), Line ''bad'' (0, 0), Tick (1, 1), Line ''::2'' (0, 0)]"
  let ?a = "demo_app 0 None []"
  have "buf_room io_ok False (length ?es) (app_buf ?a)" "never_full demo_services (app_buf ?a)"
    by (simp_all add: mem_defs never_full_def)
  moreover have "list_all (takes_event False) ?es" by (simp add: takes_line_def)
  ultimately show ?thesis
    using run_stores_all_lines [OF demo_installed_in_order demo_services_up _ _ _ _ _ _ _ _ sendable_any refl,
        of ?a io_ok False ?es "(0, 0)"]
    by (simp add: NewClient_def del: foldl.simps list.map)
qed

text \<open>A server that refuses the connections of one flush and then answers.\<close>

theorem at_least_once_witness:
  "mset (rows_of demo_services (\<lambda>_. True) (accepted demo_services io_ok (demo_app 2 None [])
      [Line ''::1'' (0, 0), Tick (0, 0), Line ''::2'' (0, 0)])) \<subseteq>#
   mset (demo_rows (world (app_client (foldl (app_step demo_services io_ok) (demo_app 2 None [])
      [Line ''::1'' (0, 0), Tick (0, 0), Line ''::2'' (0, 0)])))) +
   mset (rows_of demo_services (\<lambda>_. True) (buf_lines (app_buf (foldl (app_step demo_services io_ok)
      (demo_app 2 None []) [Line ''::1'' (0, 0), Tick (0, 0), Line ''::2'' (0, 0)]))))"
  using at_least_once [OF demo_installed, of io_ok False
      "[Line ''::1'' (0, 0), Tick (0, 0), Line ''::2'' (0, 0)]" "demo_app 2 None []", OF _ _ refl]
  by (simp add: mem_defs takes_line_def NewClient_def del: foldl.simps accepted.simps)

text \<open>An open breaker keeps two lines in the buffer until its cool-down has passed.\<close>

theorem recovery_delivers_witness:
  "\<exists>z. z = foldl (app_step demo_services io_ok)
       (demo_app 0 (Some ((cb_new 1 60)\<lparr>state := StateOpen\<rparr>)) [''::1'']) [Line ''::2'' (0, 0)] \<and>
     buf_lines (app_buf z) = [''::1'', ''::2''] \<and>
     buf_lines (app_buf (app_step demo_services io_ok z (Tick (60, 60)))) = []"
proof -
  let ?a = "demo_app 0 (Some ((cb_new 1 60)\<lparr>state := StateOpen\<rparr>)) [''::1'']"
  have trim: "trim_space ''::2'' = ''::2''" by code_simp
  obtain z where z: "z = foldl (app_step demo_services io_ok) ?a [Line ''::2'' (0, 0)]" by blast
  then have state: "buf_lines (app_buf z) = [''::1'', ''::2'']" "\<not> app_down z"
    "demo_down (world (app_client z)) = 0" "app_cb z = Some ((cb_new 1 60)\<lparr>state := StateOpen\<rparr>)"
    by (simp_all add: accept_line_mem [of _ "\<lparr>mem_lines = [''::1''], mem_maxSize = 100\<rparr>"] Let_def
        mem_Len_def trim NewClient_def)
  have "buf_room io_ok False (length [Line ''::2'' (0, 0)]) (app_buf ?a)" by (simp add: mem_defs)
  from recovery_delivers [OF demo_installed demo_services_up this _ z state(2,3), of "(60, 60)",
      OF _ _ sendable_any refl]
  have "buf_lines (app_buf (app_step demo_services io_ok z (Tick (60, 60)))) = []"
    by (simp add: state(4) cb_new_def time_since_def takes_line_def)
  with z state(1) show ?thesis by blast
qed

end
