(* ===== verification/Startup.thy ===== *)
theory Startup
  imports Delivery
begin

text \<open>
  Startup of the program (\<open>main\<close> in \<open>main.go\<close>), from the configuration to the running state: the
  defaults, the parser, the filter chain, the buffer with its replay and the circuit breaker; the
  choice of the line source, the health endpoint, and the \<open>-check\<close> mode.  Theory Program puts them
  together.
\<close>

section \<open>From the configuration to the services\<close>

text \<open>\<open>logrus.Fatal\<close> ends the process, as does a panic.\<close>

datatype fatal =
  FatalConfig read_error | FatalLogFormat | FatalFilters chain_error | FatalDiskBuffer buffer_error | PanicBufferSize
| FatalOpenLog | FatalTail

text \<open>What the program gets from its surroundings; \<open>os.Hostname\<close> is \<^const>\<open>None\<close> for an error.\<close>

record ('w, 'e, 'p) platform =
  p_hostname :: "string option"
  p_new_parser :: "string \<Rightarrow> string \<Rightarrow> gonx_reader option"
  p_compile :: "'p compiler"
  p_run :: "'p runner"
  p_driver :: "('w, 'e) driver"
  p_lib :: row_lib
  p_json :: json_lib
  p_rand :: "nat \<Rightarrow> int \<Rightarrow> int"

definition defaultMaxBufferSize :: int where "defaultMaxBufferSize = 10000"

definition resolve_hostname :: "string option \<Rightarrow> Config \<Rightarrow> Config" where
  "resolve_hostname hostname cfg =
     (if Hostname (Enrichments (Settings cfg)) = ''auto''
      then (case hostname of None \<Rightarrow> cfg | Some h \<Rightarrow> upd_enrich (\<lambda>e. e\<lparr>Hostname := h\<rparr>) cfg)
      else cfg)"

definition default_buffer_size :: "Config \<Rightarrow> Config" where
  "default_buffer_size cfg =
     (if MaxBufferSize (Settings cfg) = 0
      then upd_settings (\<lambda>s. s\<lparr>MaxBufferSize := defaultMaxBufferSize\<rparr>) cfg else cfg)"

text \<open>The log fields that the columns map to (in the order of the map's entries).\<close>

definition filter_fields :: "Config \<Rightarrow> string list" where
  "filter_fields cfg =
     filter (\<lambda>source. \<not> has_prefix source ''_'') (map snd (Columns (ClickHouse cfg)))"

definition make_parser ::
  "('w, 'e, 'p) platform \<Rightarrow> Config \<Rightarrow> fatal + gonx_reader option" where
  "make_parser pl cfg =
     (if LogFormatType (Nginx cfg) \<noteq> ''json''
      then (case NewParser (p_new_parser pl) (LogFormat (Nginx cfg)) (LogType (Nginx cfg)) of
              None \<Rightarrow> Inl FatalLogFormat
            | Some p \<Rightarrow> Inr (Some p))
      else Inr None)"

definition make_chain :: "('w, 'e, 'p) platform \<Rightarrow> Config \<Rightarrow> fatal + 'p Chain option" where
  "make_chain pl cfg =
     (if Filters (Settings cfg) \<noteq> []
      then (case NewChain (p_compile pl) (Filters (Settings cfg)) (filter_fields cfg) of
              Inl e \<Rightarrow> Inl (FatalFilters e)
            | Inr c \<Rightarrow> Inr (Some c))
      else Inr None)"

definition prepare :: "('w, 'e, 'p) platform \<Rightarrow> Config \<Rightarrow> fatal + ('w, 'e, 'p) services" where
  "prepare pl cfg0 =
     (let cfg = default_buffer_size (resolve_hostname (p_hostname pl) cfg0) in
      case make_parser pl cfg of
        Inl e \<Rightarrow> Inl e
      | Inr parser \<Rightarrow>
          (case make_chain pl cfg of
             Inl e \<Rightarrow> Inl e
           | Inr chain \<Rightarrow>
               Inr \<lparr>s_cfg = cfg, s_parser = parser, s_chain = chain, s_driver = p_driver pl,
                    s_lib = p_lib pl, s_json = p_json pl, s_run = p_run pl, s_rand = p_rand pl\<rparr>))"

section \<open>Buffer, replay and breaker\<close>

definition make_buffer :: "disk_io \<Rightarrow> directory \<Rightarrow> Config \<Rightarrow> fatal + buf" where
  "make_buffer io d cfg =
     (if BufferType (BufferCfg (Settings cfg)) = ''disk''
      then (case NewDiskBuffer io d (MaxDiskBytes (BufferCfg (Settings cfg))) of
              Inl e \<Rightarrow> Inl (FatalDiskBuffer e)
            | Inr b \<Rightarrow> Inr (Disk b))
      else (case NewMemoryBuffer (MaxBufferSize (Settings cfg)) of
              None \<Rightarrow> Inl PanicBufferSize
            | Some b \<Rightarrow> Inr (Mem b)))"

text \<open>The replay: a failure to save the recovered lines is logged.\<close>

definition replay :: "('w, 'e, 'p) services \<Rightarrow> disk_io \<Rightarrow> 'w app \<Rightarrow> 'w app" where
  "replay su io a =
     (case buf_Replay io (app_buf a) of
        (Inl e, b) \<Rightarrow> a\<lparr>app_buf := b\<rparr>
      | (Inr recovered, b) \<Rightarrow>
          if recovered = [] then a\<lparr>app_buf := b\<rparr>
          else let (entries, draws) = filter_entries su (parse_lines su recovered) (app_draws a) in
            (case Save (s_rand su) (s_driver su) (s_lib su) (s_cfg su) entries (app_client a) of
               (_, c, _) \<Rightarrow> a\<lparr>app_buf := b, app_client := c, app_draws := draws\<rparr>))"

definition make_breaker :: "CircuitBreakerConfig \<Rightarrow> circuit_breaker option" where
  "make_breaker c =
     (if Enabled c
      then let thr = (if Threshold c = 0 then 5 else Threshold c);
               cool = (if seconds (CooldownSecs c) = 0 then seconds 60 else seconds (CooldownSecs c)) in
        Some (cb_new thr cool)
      else None)"

text \<open>The running state at the start of the main loop: the client, the buffer, its replay, the breaker.\<close>

definition launch :: "disk_io \<Rightarrow> directory \<Rightarrow> 'w \<Rightarrow> rat stream \<Rightarrow> ('w, 'e, 'p) services \<Rightarrow>
    fatal + 'w app" where
  "launch io d w draws su =
     (case make_buffer io d (s_cfg su) of
        Inl e \<Rightarrow> Inl e
      | Inr b \<Rightarrow>
          (let a = replay su io \<lparr>app_buf = b, app_cb = None, app_client = NewClient w,
              app_draws = draws, app_metrics = metrics0, app_down = False\<rparr> in
           Inr (a\<lparr>app_cb := make_breaker (CircuitBreakerCfg (Settings (s_cfg su)))\<rparr>)))"

section \<open>The line source and the health endpoint\<close>

text \<open>Priority: \<open>-stdin\<close>, then \<open>-once\<close>, then tailing; \<open>True\<close> for seeking to the end.\<close>

datatype line_source = FromStdin | FromFile string | Tail string bool

definition openLineSource ::
  "bool \<Rightarrow> bool \<Rightarrow> (string \<Rightarrow> bool) \<Rightarrow> (string \<Rightarrow> bool) \<Rightarrow> Config \<Rightarrow> fatal + line_source" where
  "openLineSource stdinMode onceMode can_open can_tail cfg =
     (let path = LogPath (Settings cfg) in
      if stdinMode then Inr FromStdin
      else if onceMode then (if can_open path then Inr (FromFile path) else Inl FatalOpenLog)
      else if can_tail path then Inr (Tail path (SeekFromEnd (Settings cfg))) else Inl FatalTail)"

definition healthz :: "('w, 'e) driver \<Rightarrow> 'w client \<Rightarrow> (int \<times> string) \<times> 'w client" where
  "healthz drv c =
     (case Healthy drv c of
        (True, c) \<Rightarrow> ((200, ''ok''), c)
      | (False, c) \<Rightarrow> ((503, ''clickhouse unreachable''), c))"

section \<open>\<open>-check\<close>\<close>

datatype 'e check_line =
  ConfigLoaded | LogFormatJSON | LogFormatText | LogFormatFailed
| FiltersFailed chain_error | FiltersCompiled nat | NoFilters
| LogFileMissing string | LogFileFound string
| ClickHouseCheck "'e CheckResult"

fun line_ok :: "'e check_line \<Rightarrow> bool" where
  "line_ok LogFormatFailed = False"
| "line_ok (FiltersFailed e) = False"
| "line_ok (LogFileMissing p) = False"
| "line_ok (ClickHouseCheck r) = OK r"
| "line_ok _ = True"

text \<open>The report, whether the process exits with status 0, and the client, closed at the end.\<close>

definition runCheck :: "('p compiler) \<Rightarrow> (string \<Rightarrow> bool) \<Rightarrow> ('w \<Rightarrow> 'e schema_queries) \<Rightarrow>
    ('w, 'e, 'p) services \<Rightarrow> 'w client \<Rightarrow> 'e check_line list \<times> bool \<times> 'w client" where
  "runCheck compile stat_log q su c =
     (let cfg = s_cfg su; path = LogPath (Settings cfg);
          fmt = (if LogFormatType (Nginx cfg) = ''json'' then LogFormatJSON
                 else if s_parser su \<noteq> None then LogFormatText else LogFormatFailed);
          flt = (if Filters (Settings cfg) \<noteq> []
                 then (case NewChain compile (Filters (Settings cfg)) (filter_fields cfg) of
                         Inl e \<Rightarrow> FiltersFailed e
                       | Inr _ \<Rightarrow> FiltersCompiled (length (Filters (Settings cfg))))
                 else NoFilters);
          log = (if stat_log path then LogFileFound path else LogFileMissing path) in
      case Check (s_driver su) q (ClickHouse cfg) c of
        (results, c) \<Rightarrow>
          (let report = [ConfigLoaded, fmt, flt, log] @ map ClickHouseCheck results in
           (report, list_all line_ok report, snd (Close (s_driver su) c))))"

section \<open>What startup guarantees\<close>

lemma default_buffer_size_nonzero: "MaxBufferSize (Settings (default_buffer_size cfg)) \<noteq> 0"
  by (simp add: default_buffer_size_def defaultMaxBufferSize_def)

lemma prepare_cfg:
  "prepare pl cfg0 = Inr su \<Longrightarrow> s_cfg su = default_buffer_size (resolve_hostname (p_hostname pl) cfg0)"
  by (auto simp: prepare_def Let_def split: sum.splits)

lemma seconds_small: "seconds 60 = 60000000000"
  by (simp add: seconds_def wrap64_def)

text \<open>
  A program with the memory buffer starts in the state the delivery theorems need: an empty
  buffer of the configured size (a negative one does not start at all), nothing counted, no
  connection, and the breaker absent or closed, with a threshold and a cooldown that are not 0.
  After \<open>prepare\<close> the size is not 0 either, as 0 means 10000.
\<close>

lemma launch_memory:
  assumes "launch io d w draws su = Inr a"
    and "BufferType (BufferCfg (Settings (s_cfg su))) \<noteq> ''disk''"
  shows "app_buf a = Mem \<lparr>mem_lines = [], mem_maxSize = MaxBufferSize (Settings (s_cfg su))\<rparr>"
    and "0 \<le> MaxBufferSize (Settings (s_cfg su))"
    and "app_metrics a = metrics0" and "app_client a = NewClient w" and "\<not> app_down a"
    and "app_cb a = make_breaker (CircuitBreakerCfg (Settings (s_cfg su)))"
proof -
  let ?n = "MaxBufferSize (Settings (s_cfg su))"
  obtain b where b: "make_buffer io d (s_cfg su) = Inr b"
    and a: "a = (replay su io \<lparr>app_buf = b, app_cb = None, app_client = NewClient w,
        app_draws = draws, app_metrics = metrics0, app_down = False\<rparr>)
      \<lparr>app_cb := make_breaker (CircuitBreakerCfg (Settings (s_cfg su)))\<rparr>"
    using assms(1) by (auto simp: launch_def Let_def split: sum.splits)
  have "b = Mem \<lparr>mem_lines = [], mem_maxSize = ?n\<rparr>" and n: "0 \<le> ?n"
    using b assms(2) by (auto simp: make_buffer_def NewMemoryBuffer_def split: if_splits)
  then show "app_buf a = Mem \<lparr>mem_lines = [], mem_maxSize = ?n\<rparr>" "app_metrics a = metrics0"
    "app_client a = NewClient w" "\<not> app_down a"
    "app_cb a = make_breaker (CircuitBreakerCfg (Settings (s_cfg su)))"
    unfolding a by (simp_all add: replay_def mem_Replay_def)
  show "0 \<le> ?n" by (rule n)
qed

lemma make_breaker_closed:
  "make_breaker c = Some cb \<Longrightarrow>
   Enabled c \<and> state cb = StateClosed \<and> failures cb = 0 \<and> threshold cb \<noteq> 0 \<and> cooldown cb \<noteq> 0"
  by (auto simp: make_breaker_def Let_def cb_new_def seconds_small split: if_splits)

text \<open>The replay touches the buffer, the client and the random stream only.\<close>

lemma replay_keeps: "app_cb (replay su io a) = app_cb a" "app_down (replay su io a) = app_down a"
  by (simp_all add: replay_def Let_def split: prod.split sum.split)

section \<open>Crash and restart with a disk buffer\<close>

text \<open>Starting on a directory that an earlier session left, and the replay of its lines.\<close>

lemma launch_disk:
  assumes "disk_inv k" and "BufferType (BufferCfg (Settings (s_cfg su))) = ''disk''"
  shows "\<exists>k' b. disk_inv k' \<and> disk_lines k' = disk_lines k \<and>
    buf_Replay io_ok (Disk k') = (Inr (disk_lines k), Disk b) \<and> disk_lines b = [] \<and>
    disk_tight b \<and> segmentCounter b = 0 \<and> maxBytes b = MaxDiskBytes (BufferCfg (Settings (s_cfg su))) \<and>
    launch io_ok (dir k) w draws su =
      Inr ((replay su io_ok \<lparr>app_buf = Disk k', app_cb = None, app_client = NewClient w,
              app_draws = draws, app_metrics = metrics0, app_down = False\<rparr>)
            \<lparr>app_cb := make_breaker (CircuitBreakerCfg (Settings (s_cfg su)))\<rparr>)"
proof -
  let ?max = "MaxDiskBytes (BufferCfg (Settings (s_cfg su)))"
  obtain ns where ns: "numbered ns (dir k)" and "readable (dir k)"
    using assms(1) by (auto simp: disk_inv_def)
  from NewDiskBuffer_step [OF this, of ?max] obtain k' where
    new: "NewDiskBuffer io_ok (dir k) ?max = Inr k'"
    and k': "disk_inv k'" "dir k' = dir k" "maxBytes k' = ?max"
    and count: "\<forall>n. 0 \<le> n \<longrightarrow> (\<forall>m\<in>set ns. int m < n) \<longrightarrow> segmentCounter k' \<le> n"
    by blast
  have lines: "disk_lines k' = disk_lines k" using k'(2) by (simp add: disk_lines_def)
  obtain b where b: "disk_ReadAll io_ok k' = (Inr (disk_lines k'), b)" "disk_inv b" "disk_lines b = []"
    "maxBytes b = maxBytes k'" "currentBytes b = 0" "segs (dir k') \<noteq> [] \<longrightarrow> segmentCounter b = 0"
    using disk_ReadAll_step [OF k'(1)] by blast
  have "segmentCounter b = 0"
  proof (cases "segs (dir k') = []")
    case True
    then have "ns = []" using ns k'(2) by (simp add: numbered_def)
    then have "segmentCounter k' \<le> 0" using count by simp
    then show ?thesis using disk_ReadAll_counter [OF k'(1)] b(1,2) by (simp add: disk_inv_def)
  qed (use b(6) in simp)
  moreover have "disk_tight b" using b(2,3,5) by (simp add: disk_tight_def)
  moreover have "buf_Replay io_ok (Disk k') = (Inr (disk_lines k), Disk b)"
    using b(1) lines by (simp add: disk_Replay_def)
  moreover have "make_buffer io_ok (dir k) (s_cfg su) = Inr (Disk k')"
    using new assms(2) by (simp add: make_buffer_def)
  ultimately show ?thesis using k'(1,3) b(3,4) lines by (auto simp: launch_def Let_def)
qed

lemma replay_delivers:
  assumes "installed su stored pending acc"
    and "driver_up (s_driver su) (ClickHouse (s_cfg su)) fits up"
    and "up (world (app_client a))" and "buf_Replay io (app_buf a) = (Inr ls, b)"
    and "sendable su fits ls"
  shows "app_buf (replay su io a) = b \<and>
    stored (world (app_client (replay su io a))) = stored (world (app_client a)) @ kept_rows su acc ls a \<and>
    up (world (app_client (replay su io a)))"
proof -
  let ?es = "kept_of su ls a"
  obtain draws where entries: "filter_entries su (parse_lines su ls) (app_draws a) = (?es, draws)"
    unfolding kept_of_def by (metis prod.collapse)
  show ?thesis
  proof (cases "?es = []")
    case True
    then show ?thesis
      using assms(3,4) entries by (auto simp: replay_def Save_def kept_rows_def batch_rows_def)
  next
    case False
    then have "ls \<noteq> []" using kept_of_empty [OF installedD(1) [OF assms(1)], of "[]" a] by auto
    moreover obtain c' where
      "Save (s_rand su) (s_driver su) (s_lib su) (s_cfg su) ?es (app_client a) = (None, c', [])"
      "stored (world c') = stored (world (app_client a)) @ kept_rows su acc ls a" "up (world c')"
      using Save_up [OF _ assms(2,3) _ False, of stored pending acc "s_lib su" "s_rand su"] assms(1)
        sendable_kept [OF installedD(1) [OF assms(1)] assms(5), of a]
      by (auto simp: installed_def kept_rows_def)
    ultimately show ?thesis using assms(4) entries by (simp add: replay_def)
  qed
qed

text \<open>
  The buffer a program can start on, with room for \<open>n\<close> events: in memory, or on disk with a
  working operating system, no byte limit and a directory of segments that hold the lines \<open>old\<close>.
\<close>

definition starts_on :: "('w, 'e, 'p) services \<Rightarrow> disk_io \<Rightarrow> directory \<Rightarrow> string list \<Rightarrow> nat \<Rightarrow> bool" where
  "starts_on su io d old n \<longleftrightarrow>
     (if BufferType (BufferCfg (Settings (s_cfg su))) = ''disk''
      then io = io_ok \<and> n \<le> 1000000 \<and> 0 < MaxBufferSize (Settings (s_cfg su)) \<and>
        MaxDiskBytes (BufferCfg (Settings (s_cfg su))) \<le> 0 \<and>
        (\<exists>k. disk_inv k \<and> dir k = d \<and> disk_lines k = old)
      else old = [])"

text \<open>
  Against an answering server the replay delivers the old lines, and the program is in the state
  the delivery theorems start from.
\<close>

lemma launch_running:
  assumes "installed_in_order su stored pending acc"
    and "driver_up (s_driver su) (ClickHouse (s_cfg su)) fits up" and "up w"
    and "MaxBufferSize (Settings (s_cfg su)) \<noteq> 0" and "launch io d w draws su = Inr a"
    and "starts_on su io d old n" and "sendable su fits old"
  shows "running su up io (BufferType (BufferCfg (Settings (s_cfg su))) = ''disk'') n a \<and>
    buf_lines (app_buf a) = [] \<and> stored (world (app_client a)) = stored w @ rows_of su acc old"
proof (cases "BufferType (BufferCfg (Settings (s_cfg su))) = ''disk''")
  case False
  note a = launch_memory [OF assms(5) False]
  have "old = []" using assms(6) False by (simp add: starts_on_def)
  moreover have "0 < MaxBufferSize (Settings (s_cfg su))" using a(2) assms(4) by simp
  moreover have "state cb = StateClosed" if "app_cb a = Some cb" for cb
    using that a(6) make_breaker_closed by metis
  ultimately show ?thesis
    using False a(1,4,5) assms(3) by (simp add: running_def never_full_def mem_defs NewClient_def)
next
  case True
  then obtain k where k: "disk_inv k" "dir k = d" "disk_lines k = old" "io = io_ok" "n \<le> 1000000"
    "0 < MaxBufferSize (Settings (s_cfg su))" "MaxDiskBytes (BufferCfg (Settings (s_cfg su))) \<le> 0"
    using assms(6) by (auto simp: starts_on_def)
  have inst: "installed su stored pending acc" and order: "in_order su"
    using assms(1) by (simp_all add: installed_in_order_def)
  from launch_disk [OF k(1) True, of w draws] obtain k' b where
    replay: "buf_Replay io_ok (Disk k') = (Inr old, Disk b)" and
    b: "disk_lines b = []" "disk_tight b" "segmentCounter b = 0"
      "maxBytes b = MaxDiskBytes (BufferCfg (Settings (s_cfg su)))" and
    run: "launch io_ok (dir k) w draws su =
      Inr ((replay su io_ok \<lparr>app_buf = Disk k', app_cb = None, app_client = NewClient w,
              app_draws = draws, app_metrics = metrics0, app_down = False\<rparr>)
            \<lparr>app_cb := make_breaker (CircuitBreakerCfg (Settings (s_cfg su)))\<rparr>)"
    unfolding k(3) by blast
  let ?a = "\<lparr>app_buf = Disk k', app_cb = None, app_client = NewClient w,
    app_draws = draws, app_metrics = metrics0, app_down = False\<rparr>"
  have a: "a = (replay su io_ok ?a)\<lparr>app_cb := make_breaker (CircuitBreakerCfg (Settings (s_cfg su)))\<rparr>"
    using run assms(5) k(2,4) by simp
  have "app_buf (replay su io_ok ?a) = Disk b \<and>
      stored (world (app_client (replay su io_ok ?a))) = stored w @ rows_of su acc old \<and>
      up (world (app_client (replay su io_ok ?a)))"
    using replay_delivers [OF inst assms(2) _ _ assms(7), of ?a io_ok "Disk b"] replay assms(3)
      kept_rows_in_order [OF order, of acc old ?a]
    by (simp add: NewClient_def)
  moreover have "state cb = StateClosed" if "app_cb a = Some cb" for cb
    using that make_breaker_closed by (auto simp: a)
  ultimately show ?thesis
    using True b k(4-7) by (simp add: a running_def never_full_def replay_keeps)
qed

text \<open>A start on a directory that holds lines stores their rows, when the server answers.\<close>

lemma restart_delivers:
  assumes "installed su stored pending acc"
    and "driver_up (s_driver su) (ClickHouse (s_cfg su)) fits up"
    and "BufferType (BufferCfg (Settings (s_cfg su))) = ''disk''" and "disk_inv k" and "up w"
    and "sendable su fits (disk_lines k)"
  shows "\<exists>r. launch io_ok (dir k) w draws su = Inr r \<and> buf_lines (app_buf r) = [] \<and>
    mset (stored (world (app_client r))) = mset (stored w) + mset (rows_of su acc (disk_lines k))"
proof -
  from launch_disk [OF assms(4,3), of w draws] obtain k' b where
    replay: "buf_Replay io_ok (Disk k') = (Inr (disk_lines k), Disk b)" "disk_lines b = []"
    and run: "launch io_ok (dir k) w draws su =
      Inr ((replay su io_ok \<lparr>app_buf = Disk k', app_cb = None, app_client = NewClient w,
              app_draws = draws, app_metrics = metrics0, app_down = False\<rparr>)
            \<lparr>app_cb := make_breaker (CircuitBreakerCfg (Settings (s_cfg su)))\<rparr>)"
    by blast
  let ?a = "\<lparr>app_buf = Disk k', app_cb = None, app_client = NewClient w,
    app_draws = draws, app_metrics = metrics0, app_down = False\<rparr>"
  have "app_buf (replay su io_ok ?a) = Disk b" "mset (stored (world (app_client (replay su io_ok ?a)))) =
      mset (stored w) + mset (rows_of su acc (disk_lines k))"
    using kept_rows_mset [OF installedD(1) [OF assms(1)]] assms(5)
      replay_delivers [OF assms(1,2) _ _ assms(6), of ?a io_ok "Disk b"] replay(1)
    by (simp_all add: NewClient_def)
  with run replay(2) show ?thesis by simp
qed

text \<open>
  C5. Crash recovery of the program: a session with a disk buffer runs against a server that fails at
  will, and crashes between two events, losing everything but the segment directory; when the
  program is started again on that directory and the server answers, the replay stores what the
  buffer held, so that all rows of all lines the session accepted are stored.  (The server takes
  batches of rows that fit, and those of the lines in the directory do; \<open>fits\<close> may be true
  everywhere.)
\<close>

theorem crash_restart_delivers:
  assumes "installed su stored pending acc"
    and "driver_up (s_driver su) (ClickHouse (s_cfg su)) fits up"
    and "BufferType (BufferCfg (Settings (s_cfg su))) = ''disk''"
    and "buf_room io_ok True (length es) (app_buf a)" and "list_all (takes_event True) es"
    and "z = foldl (app_step su io_ok) a es" and "app_buf z = Disk k" and "up (world (app_client z))"
    and "sendable su fits (disk_lines k)"
  shows "\<exists>a'. launch io_ok (dir k) (world (app_client z)) draws su = Inr a' \<and>
    buf_lines (app_buf a') = [] \<and>
    mset (stored (world (app_client a))) +
      mset (rows_of su acc (buf_lines (app_buf a) @ accepted su io_ok a es)) \<subseteq>#
      mset (stored (world (app_client a')))"
proof -
  have safe: "buf_room io_ok True 0 (app_buf z)"
    "safe_rows su stored acc a + mset (rows_of su acc (accepted su io_ok a es)) \<subseteq>#
      safe_rows su stored acc z"
    using run_safe [of su stored pending acc io_ok True es 0 a] assms(1,4-6) by simp_all
  then have inv: "disk_inv k" using assms(7) by (simp add: disk_tight_def)
  let ?w = "world (app_client z)"
  from restart_delivers [OF assms(1-3) inv assms(8,9), of draws] obtain r where
    run: "launch io_ok (dir k) ?w draws su = Inr r" "buf_lines (app_buf r) = []"
    and r: "mset (stored (world (app_client r))) = mset (stored ?w) + mset (rows_of su acc (disk_lines k))"
    by blast
  have z: "mset (stored (world (app_client r))) = safe_rows su stored acc z"
    using r assms(7) by (simp add: safe_rows_def)
  have start: "safe_rows su stored acc a + mset (rows_of su acc (accepted su io_ok a es)) =
      mset (stored (world (app_client a))) +
        mset (rows_of su acc (buf_lines (app_buf a) @ accepted su io_ok a es))"
    by (simp add: safe_rows_def)
  show ?thesis
    using run safe(2) [unfolded start z [symmetric]] by (intro exI conjI)
qed

text \<open>
  Recovered lines are not protected: on a restart with a disk buffer that holds lines, the
  replay removes them from the buffer before saving them, and when \<open>Save\<close> fails they are
  nowhere: the buffer is empty, in contrast to a failed flush.
\<close>

theorem replay_failure_loses_lines:
  assumes "app_buf a = Disk b" and "disk_inv b" and "disk_lines b \<noteq> []"
    and "save_kept su (disk_lines b) a = (Some e, c, sleeps)"
    and "driver_ok (s_driver su) stored pending acc"
  shows "buf_lines (app_buf (replay su io_ok a)) = [] \<and>
    buf_Len (app_buf (replay su io_ok a)) = 0 \<and>
    prefix (stored (world (app_client a))) (stored (world (app_client (replay su io_ok a))))"
proof -
  let ?b = "snd (disk_ReadAll io_ok b)"
  have read: "buf_Replay io_ok (app_buf a) = (Inr (disk_lines b), Disk ?b)"
    using assms(1) disk.read_all_ok [OF assms(2)]
    by (cases "disk_ReadAll io_ok b") (simp add: disk_Replay_def)
  have client: "app_client (replay su io_ok a) = c" and buf: "app_buf (replay su io_ok a) = Disk ?b"
    using read assms(3,4)
    by (cases "filter_entries su (parse_lines su (disk_lines b)) (app_draws a)";
        simp add: replay_def save_kept_def kept_of_def)+
  have inv: "save_inv (s_driver su) stored pending acc (stored (world (app_client a))) (app_client a)"
    using assms(5) by (simp add: save_inv_def)
  have "save_inv (s_driver su) stored pending acc (stored (world (app_client a))) c"
    using save.retry_contract(1) [OF inv] assms(4)
    by (simp add: save_kept_def Save_def Let_def split: if_splits)
  then have "prefix (stored (world (app_client a))) (stored (world c))" by (simp add: save_inv_def)
  then show ?thesis
    using disk.read_all_empty [OF assms(2)] disk.len_empty [OF assms(2)] client buf by simp
qed

lemma report_ok: "list_all line_ok (map ClickHouseCheck rs) \<longleftrightarrow> list_all OK rs"
  by (induction rs) simp_all

text \<open>
  \<open>-check\<close> exits with status 0 exactly when the log format is usable, the filters, if any, pass
  validation, the log file exists, and all checks of the ClickHouse client pass; the connection it
  opened is closed.
\<close>

theorem runCheck_exit:
  "case runCheck compile stat_log q su c of (report, ok, c') \<Rightarrow>
     (ok \<longleftrightarrow>
        (case s_parser su of None \<Rightarrow> LogFormatType (Nginx (s_cfg su)) = ''json'' | Some p \<Rightarrow> True) \<and>
        (Filters (Settings (s_cfg su)) = [] \<or>
         (\<exists>ch. NewChain compile (Filters (Settings (s_cfg su))) (filter_fields (s_cfg su)) = Inr ch)) \<and>
        stat_log (LogPath (Settings (s_cfg su))) \<and>
        list_all OK (fst (Check (s_driver su) q (ClickHouse (s_cfg su)) c))) \<and>
     conn c' = None"
  by (cases "NewChain compile (Filters (Settings (s_cfg su))) (filter_fields (s_cfg su))";
      cases "Check (s_driver su) q (ClickHouse (s_cfg su)) c"; cases "s_parser su")
    (auto simp: runCheck_def Let_def report_ok Close_conn)

section \<open>The theorems at work\<close>

definition demo_platform :: "(demo_world, string, unit) platform" where
  "demo_platform =
     \<lparr>p_hostname = None, p_new_parser = (\<lambda>_ _. None), p_compile = (\<lambda>_ _. None),
      p_run = (\<lambda>_ _. None), p_driver = demo_driver, p_lib = demo_lib,
      p_json = s_json demo_services, p_rand = (\<lambda>_ n. n - 1)\<rparr>"

text \<open>A disk buffer that holds one line, left by an earlier session.\<close>

lemma demo_disk:
  "\<exists>b. disk_inv b \<and> disk_lines b = [''::1'']"
proof -
  have "disk_fits (disk_empty 0) ''::1''"
    by (simp add: disk_fits_def disk_okw_def plain_line_def maxScanTokenSize_def has_suffix_def
        disk_empty_def)
  from disk.write_fits [OF disk_inv_empty this] obtain b where
    "disk_inv b" "disk_lines b = disk_lines (disk_empty 0) @ [''::1'']"
    by metis
  then show ?thesis by (auto simp: disk_empty_def disk_lines_def segs_def)
qed

theorem replay_failure_loses_lines_witness:
  "\<exists>b. disk_inv b \<and> disk_lines b = [''::1''] \<and>
     buf_lines (app_buf (replay demo_services io_ok ((demo_app 2 None [])\<lparr>app_buf := Disk b\<rparr>))) = []"
proof -
  obtain b where b: "disk_inv b" "disk_lines b = [''::1'']" using demo_disk by blast
  let ?a = "(demo_app 2 None [])\<lparr>app_buf := Disk b\<rparr>"
  have "save_kept demo_services [''::1''] ?a = save_kept demo_services [''::1''] (demo_app 2 None [])"
    by (simp add: save_kept_def kept_of_def)
  then obtain e c sl where run: "save_kept demo_services (disk_lines b) ?a = (Some e, c, sl)"
    using demo_save_kept(1) [of None "[]"] b(2) by auto
  have ok: "driver_ok (s_driver demo_services) demo_rows (\<lambda>w b. demo_batch w) (\<lambda>_. True)"
    using demo_driver_ok by (simp add: demo_services_def)
  from replay_failure_loses_lines [OF _ b(1) _ run ok] b show ?thesis by auto
qed

text \<open>The example installation with a disk buffer, and an empty table.\<close>

definition demo_w :: demo_world where
  "demo_w = \<lparr>demo_down = 0, demo_rows = [], demo_batch = []\<rparr>"

definition demo_disk_services :: "(demo_world, string, unit) services" where
  "demo_disk_services =
     demo_services\<lparr>s_cfg := upd_buffer (\<lambda>b. b\<lparr>BufferType := ''disk''\<rparr>) (demo_cfg 1)\<rparr>"

lemma demo_disk_installed:
  "installed demo_disk_services demo_rows (\<lambda>w b. demo_batch w) (\<lambda>_. True)"
  "driver_up (s_driver demo_disk_services) (ClickHouse (s_cfg demo_disk_services)) (\<lambda>_. True)
     (\<lambda>w. demo_down w = 0)"
  "BufferType (BufferCfg (Settings (s_cfg demo_disk_services))) = ''disk''"
  "MaxBufferSize (Settings (s_cfg demo_disk_services)) = 100"
  using demo_installed demo_services_up in_order_per_line [OF json_in_order, of demo_disk_services]
  by (simp_all add: demo_disk_services_def installed_def chain_unsampled_def)
    (simp_all add: demo_services_def demo_cfg_def)

theorem crash_restart_delivers_witness:
  "\<exists>k a'. app_buf (app_step demo_disk_services io_ok ((demo_app 0 None [])\<lparr>app_buf := Disk (disk_empty 0)\<rparr>)
       (Line ''::1'' (0, 0))) = Disk k \<and>
     launch io_ok (dir k) \<lparr>demo_down = 0, demo_rows = [], demo_batch = []\<rparr> (sconst 0) demo_disk_services =
       Inr a' \<and>
     mset (rows_of demo_disk_services (\<lambda>_. True) [''::1'']) \<subseteq># mset (demo_rows (world (app_client a')))"
proof -
  let ?a = "(demo_app 0 None [])\<lparr>app_buf := Disk (disk_empty 0)\<rparr>"
  have trim: "trim_space ''::1'' = ''::1''" by code_simp
  have plain: "plain_line maxScanTokenSize ''::1''"
    by (simp add: plain_line_def maxScanTokenSize_def has_suffix_def)
  then have "disk_fits (disk_empty 0) ''::1''"
    by (simp add: disk_fits_def disk_okw_def disk_empty_def)
  from disk.write_fits [OF disk_inv_empty this] obtain k where
    k: "disk_Write io_ok (disk_empty 0) ''::1'' = (None, k)" "disk_inv k"
    "disk_lines k = disk_lines (disk_empty 0) @ [''::1'']"
    by metis
  have empty: "disk_lines (disk_empty 0) = []" by (simp add: disk_empty_def disk_lines_def segs_def)
  have w: "buf_Write io_ok (app_buf ?a) (trim_space ''::1'') = (None, Disk k)" using k(1) trim by simp
  obtain z where z: "z = foldl (app_step demo_disk_services io_ok) ?a [Line ''::1'' (0, 0)]" by blast
  have len: "disk_Len k = 1" using disk.len_lines [OF k(2)] k(3) empty by simp
  have state: "app_buf z = Disk k" "world (app_client z) = \<lparr>demo_down = 0, demo_rows = [], demo_batch = []\<rparr>"
    unfolding z by (simp_all add: accept_line_eq [OF w] demo_disk_installed len Let_def NewClient_def)
  have acc: "accepted demo_disk_services io_ok ?a [Line ''::1'' (0, 0)] = [''::1'']"
    using w by (simp add: trim)
  have "buf_room io_ok True (length [Line ''::1'' (0, 0)]) (app_buf ?a)"
    using disk_tight_empty [of 0] empty by (simp add: disk_empty_def)
  moreover have "list_all (takes_event True) [Line ''::1'' (0, 0)]"
    using plain trim by (simp add: takes_line_def)
  ultimately obtain a' where
    "launch io_ok (dir k) (world (app_client z)) (sconst 0) demo_disk_services = Inr a'"
    "mset (demo_rows (world (app_client ?a))) + mset (rows_of demo_disk_services (\<lambda>_. True)
        (buf_lines (app_buf ?a) @ accepted demo_disk_services io_ok ?a [Line ''::1'' (0, 0)])) \<subseteq>#
      mset (demo_rows (world (app_client a')))"
    using crash_restart_delivers [OF demo_disk_installed(1-3) _ _ z state(1) _ sendable_any, of "sconst 0"] state(2)
    by auto
  then show ?thesis using state z acc empty by (auto simp: NewClient_def)
qed

end
