(* ===== verification/Flags.thy ===== *)
theory Flags
  imports Prelude
begin

text \<open>
  The command line: the flags that main.go and config/config.go register in their \<open>init\<close>
  functions, and \<open>flag.Parse\<close> of the standard library, which \<open>Read\<close> calls, for these flags.
\<close>

section \<open>The registered flags\<close>

text \<open>The variables the flags set.\<close>

record flags =
  checkMode :: bool
  onceMode :: bool
  stdinMode :: bool
  configPath :: string

datatype flag_target =
  BoolVar "bool \<Rightarrow> flags \<Rightarrow> flags"
| StringVar "string \<Rightarrow> flags \<Rightarrow> flags"

definition mode_flags :: "(string \<times> flag_target) list" where
  "mode_flags =
     [(''check'', BoolVar (\<lambda>b fl. fl\<lparr>checkMode := b\<rparr>)),
      (''once'', BoolVar (\<lambda>b fl. fl\<lparr>onceMode := b\<rparr>)),
      (''stdin'', BoolVar (\<lambda>b fl. fl\<lparr>stdinMode := b\<rparr>))]"

definition path_flag :: "(string \<times> flag_target) list" where
  "path_flag = [(''config_path'', StringVar (\<lambda>s fl. fl\<lparr>configPath := s\<rparr>))]"

definition flag_defaults :: flags where
  "flag_defaults = \<lparr>checkMode = False, onceMode = False, stdinMode = False,
     configPath = ''config/config.yml''\<rparr>"

definition formal :: "string \<Rightarrow> flag_target option" where
  "formal = map_of (mode_flags @ path_flag)"

section \<open>\<open>flag.Parse\<close>\<close>

text \<open>\<open>strconv.ParseBool\<close>.\<close>

definition parse_bool :: "string \<Rightarrow> bool option" where
  "parse_bool s =
     (if s \<in> {''1'', ''t'', ''T'', ''true'', ''TRUE'', ''True''} then Some True
      else if s \<in> {''0'', ''f'', ''F'', ''false'', ''FALSE'', ''False''} then Some False
      else None)"

datatype flag_error =
  HelpRequested | BadFlagSyntax string | UndefinedFlag string
| InvalidBool string string | MissingArgument string

text \<open>The exit status \<open>flag.CommandLine\<close> ends the program with.\<close>

fun flag_exit :: "flag_error \<Rightarrow> int" where
  "flag_exit HelpRequested = 0"
| "flag_exit _ = 2"

text \<open>
  What one argument is: not a flag, the terminator, malformed, or a name with a value (after the
  first equals sign that is not the first character of the name) or without.
\<close>

datatype flag_arg =
  NotAFlag | Terminator | Malformed | FlagArg string "string option"

definition name_and_value :: "string \<Rightarrow> flag_arg" where
  "name_and_value s =
     (case s of
        [] \<Rightarrow> Malformed
      | c # cs \<Rightarrow>
          if c = CHR ''-'' \<or> c = CHR ''='' then Malformed
          else FlagArg (c # takeWhile (\<lambda>x. x \<noteq> CHR ''='') cs)
            (case dropWhile (\<lambda>x. x \<noteq> CHR ''='') cs of [] \<Rightarrow> None | _ # v \<Rightarrow> Some v))"

definition split_arg :: "string \<Rightarrow> flag_arg" where
  "split_arg s =
     (if length s < 2 \<or> hd s \<noteq> CHR ''-'' then NotAFlag
      else if s ! 1 = CHR ''-'' then (if length s = 2 then Terminator else name_and_value (drop 2 s))
      else name_and_value (drop 1 s))"

text \<open>The loop over the arguments; it returns the arguments that are left.\<close>

function parse_flags :: "flags \<Rightarrow> string list \<Rightarrow> flag_error + flags \<times> string list" where
  "parse_flags fl [] = Inr (fl, [])"
| "parse_flags fl (s # args) =
     (case split_arg s of
        NotAFlag \<Rightarrow> Inr (fl, s # args)
      | Terminator \<Rightarrow> Inr (fl, args)
      | Malformed \<Rightarrow> Inl (BadFlagSyntax s)
      | FlagArg name val \<Rightarrow>
          (case formal name of
             None \<Rightarrow> Inl (if name = ''help'' \<or> name = ''h'' then HelpRequested else UndefinedFlag name)
           | Some (BoolVar put) \<Rightarrow>
               (case val of
                  None \<Rightarrow> parse_flags (put True fl) args
                | Some v \<Rightarrow>
                    (case parse_bool v of
                       None \<Rightarrow> Inl (InvalidBool v name)
                     | Some b \<Rightarrow> parse_flags (put b fl) args))
           | Some (StringVar put) \<Rightarrow>
               (case val of
                  Some v \<Rightarrow> parse_flags (put v fl) args
                | None \<Rightarrow>
                    (case args of
                       [] \<Rightarrow> Inl (MissingArgument name)
                     | v # args' \<Rightarrow> parse_flags (put v fl) args'))))"
  by pat_completeness auto
termination by (relation "measure (\<lambda>(fl, args). length args)") auto

section \<open>What a command line means\<close>

text \<open>A setting on the command line, and its spellings as arguments.\<close>

datatype setting = SetCheck bool | SetOnce bool | SetStdin bool | SetPath string

fun apply_setting :: "flags \<Rightarrow> setting \<Rightarrow> flags" where
  "apply_setting fl (SetCheck b) = fl\<lparr>checkMode := b\<rparr>"
| "apply_setting fl (SetOnce b) = fl\<lparr>onceMode := b\<rparr>"
| "apply_setting fl (SetStdin b) = fl\<lparr>stdinMode := b\<rparr>"
| "apply_setting fl (SetPath s) = fl\<lparr>configPath := s\<rparr>"

fun bool_setting :: "string \<Rightarrow> bool \<Rightarrow> setting option" where
  "bool_setting name b =
     (if name = ''check'' then Some (SetCheck b)
      else if name = ''once'' then Some (SetOnce b)
      else if name = ''stdin'' then Some (SetStdin b) else None)"

inductive spells :: "string list \<Rightarrow> setting \<Rightarrow> bool" where
  bare: "dash \<in> {''-'', ''--''} \<Longrightarrow> bool_setting name True = Some x \<Longrightarrow> spells [dash @ name] x"
| with_bool: "dash \<in> {''-'', ''--''} \<Longrightarrow> parse_bool v = Some b \<Longrightarrow> bool_setting name b = Some x \<Longrightarrow>
    spells [dash @ name @ ''='' @ v] x"
| path_in: "dash \<in> {''-'', ''--''} \<Longrightarrow> spells [dash @ ''config_path='' @ p] (SetPath p)"
| path_next: "dash \<in> {''-'', ''--''} \<Longrightarrow> spells [dash @ ''config_path'', p] (SetPath p)"

text \<open>Arguments at which parsing ends, and the positional arguments that are left.\<close>

fun left_over :: "string list \<Rightarrow> string list option" where
  "left_over [] = Some []"
| "left_over (s # args) =
     (case split_arg s of NotAFlag \<Rightarrow> Some (s # args) | Terminator \<Rightarrow> Some args | _ \<Rightarrow> None)"

lemma formal_simps [simp]:
  "formal ''check'' = Some (BoolVar (\<lambda>b fl. fl\<lparr>checkMode := b\<rparr>))"
  "formal ''once'' = Some (BoolVar (\<lambda>b fl. fl\<lparr>onceMode := b\<rparr>))"
  "formal ''stdin'' = Some (BoolVar (\<lambda>b fl. fl\<lparr>stdinMode := b\<rparr>))"
  "formal ''config_path'' = Some (StringVar (\<lambda>s fl. fl\<lparr>configPath := s\<rparr>))"
  by (simp_all add: formal_def mode_flags_def path_flag_def)

lemma formal_cases:
  assumes "formal name = Some tgt"
  shows "(\<exists>put. tgt = BoolVar put \<and>
      (\<forall>b fl. \<exists>x. bool_setting name b = Some x \<and> put b fl = apply_setting fl x)) \<or>
    name = ''config_path'' \<and> tgt = StringVar (\<lambda>s fl. fl\<lparr>configPath := s\<rparr>)"
  using assms by (auto simp: formal_def mode_flags_def path_flag_def split: if_splits)

lemma formal_BoolVar:
  assumes "bool_setting name b = Some x"
  shows "\<exists>put. formal name = Some (BoolVar put) \<and> put b fl = apply_setting fl x"
  using assms by (auto split: if_splits)

lemma split_arg_eqs:
  assumes "dash \<in> {''-'', ''--''}"
  shows "split_arg (dash @ ''check'') = FlagArg ''check'' None"
    and "split_arg (dash @ ''once'') = FlagArg ''once'' None"
    and "split_arg (dash @ ''stdin'') = FlagArg ''stdin'' None"
    and "split_arg (dash @ ''config_path'') = FlagArg ''config_path'' None"
    and "split_arg (dash @ ''check'' @ ''='' @ v) = FlagArg ''check'' (Some v)"
    and "split_arg (dash @ ''once'' @ ''='' @ v) = FlagArg ''once'' (Some v)"
    and "split_arg (dash @ ''stdin'' @ ''='' @ v) = FlagArg ''stdin'' (Some v)"
    and "split_arg (dash @ ''config_path='' @ v) = FlagArg ''config_path'' (Some v)"
  using assms by (auto simp: split_arg_def name_and_value_def)

lemma split_arg_bool:
  assumes "dash \<in> {''-'', ''--''}" and "bool_setting name b = Some x"
  shows "split_arg (dash @ name) = FlagArg name None"
    and "split_arg (dash @ name @ ''='' @ v) = FlagArg name (Some v)"
  using assms(2) split_arg_eqs [OF assms(1)] by (auto split: if_splits simp del: append.simps)

lemma parse_arg:
  assumes "split_arg s = FlagArg name val"
  shows "formal name = Some (BoolVar put) \<Longrightarrow> val = None \<Longrightarrow>
      parse_flags fl (s # args) = parse_flags (put True fl) args"
    and "formal name = Some (BoolVar put) \<Longrightarrow> val = Some v \<Longrightarrow> parse_bool v = Some b \<Longrightarrow>
      parse_flags fl (s # args) = parse_flags (put b fl) args"
    and "formal name = Some (StringVar setp) \<Longrightarrow> val = Some v \<Longrightarrow>
      parse_flags fl (s # args) = parse_flags (setp v fl) args"
    and "formal name = Some (StringVar setp) \<Longrightarrow> val = None \<Longrightarrow>
      parse_flags fl (s # v # args) = parse_flags (setp v fl) args"
  using assms by simp_all

lemma parse_spelled:
  assumes "spells s x"
  shows "parse_flags fl (s @ args) = parse_flags (apply_setting fl x) args"
  using assms
proof (cases rule: spells.cases)
  case (bare dash name)
  obtain put where "formal name = Some (BoolVar put)" "put True fl = apply_setting fl x"
    using formal_BoolVar [OF bare(3), of fl] by blast
  with parse_arg(1) [OF split_arg_bool(1) [OF bare(2,3)], of put fl args] bare(1) show ?thesis by simp
next
  case (with_bool dash v b name)
  obtain put where "formal name = Some (BoolVar put)" "put b fl = apply_setting fl x"
    using formal_BoolVar [OF with_bool(4), of fl] by blast
  with parse_arg(2) [OF split_arg_bool(2) [OF with_bool(2,4), of v], of put v b fl args] with_bool(1,3)
  show ?thesis by simp
next
  case (path_in dash p)
  with parse_arg(3) [OF split_arg_eqs(8) [OF path_in(3), of p] formal_simps(4), of p fl args]
  show ?thesis by simp
next
  case (path_next dash p)
  with parse_arg(4) [OF split_arg_eqs(4) [OF path_next(3)] formal_simps(4), of fl p args]
  show ?thesis by simp
qed

lemma parse_settings:
  assumes "list_all2 spells ss xs" and "left_over tail = Some rest"
  shows "parse_flags fl (concat ss @ tail) = Inr (foldl apply_setting fl xs, rest)"
  using assms(1)
proof (induction arbitrary: fl rule: list_all2_induct)
  case Nil
  from assms(2) show ?case by (cases tail) (auto split: flag_arg.splits)
next
  case (Cons s ss x xs)
  then show ?case by (simp add: parse_spelled)
qed

lemma name_and_value_FlagArg:
  "name_and_value s = FlagArg name val \<Longrightarrow>
     s = name @ (case val of None \<Rightarrow> [] | Some v \<Rightarrow> CHR ''='' # v)"
proof (cases s)
  case (Cons c cs)
  assume split: "name_and_value s = FlagArg name val"
  let ?P = "\<lambda>x. x \<noteq> CHR ''=''"
  have cs: "takeWhile ?P cs @ dropWhile ?P cs = cs" by simp
  from split Cons have nv: "name = c # takeWhile ?P cs"
    "val = (case dropWhile ?P cs of [] \<Rightarrow> None | _ # v \<Rightarrow> Some v)"
    by (auto simp: name_and_value_def split: if_splits)
  show ?thesis
  proof (cases "dropWhile ?P cs")
    case Nil
    with cs have "takeWhile ?P cs = cs" by (metis append_Nil2)
    with nv(1) nv(2) [unfolded Nil] show ?thesis using \<open>s = c # cs\<close> by simp
  next
    case (Cons d v)
    have "d = CHR ''=''" using hd_dropWhile [of ?P cs] Cons by simp
    with Cons cs have "takeWhile ?P cs @ CHR ''='' # v = cs" by metis
    with nv(1) nv(2) [unfolded Cons] show ?thesis using \<open>s = c # cs\<close> by simp
  qed
qed (simp add: name_and_value_def)

lemma split_arg_FlagArg:
  assumes "split_arg s = FlagArg name val"
  obtains dash where "dash \<in> {''-'', ''--''}"
    and "s = dash @ name @ (case val of None \<Rightarrow> [] | Some v \<Rightarrow> CHR ''='' # v)"
proof -
  obtain c cs where s: "s = CHR ''-'' # c # cs"
    using assms by (cases s; cases "tl s") (auto simp: split_arg_def split: if_splits)
  show thesis
  proof (cases "c = CHR ''-''")
    case True
    with assms s have "name_and_value cs = FlagArg name val" by (auto simp: split_arg_def split: if_splits)
    from name_and_value_FlagArg [OF this] show thesis using s True by (intro that [of "''--''"]) auto
  next
    case False
    with assms s have "name_and_value (c # cs) = FlagArg name val" by (auto simp: split_arg_def)
    from name_and_value_FlagArg [OF this] show thesis using s by (intro that [of "''-''"]) auto
  qed
qed

text \<open>The first argument of a command line that is parsed is a setting, or parsing ends there.\<close>

lemma parse_step:
  assumes "parse_flags fl args = Inr r"
  shows "left_over args = Some (snd r) \<and> fst r = fl \<or>
    (\<exists>s x args'. spells s x \<and> args = s @ args' \<and> length args' < length args \<and>
       parse_flags (apply_setting fl x) args' = Inr r)"
proof (cases args)
  case Nil
  with assms show ?thesis by auto
next
  case (Cons a args')
  show ?thesis
  proof (cases "split_arg a")
    case (FlagArg name val)
    from split_arg_FlagArg [OF this] obtain dash where dash: "dash \<in> {''-'', ''--''}"
      and a: "a = dash @ name @ (case val of None \<Rightarrow> [] | Some v \<Rightarrow> CHR ''='' # v)" .
    obtain tgt where tgt: "formal name = Some tgt"
      using assms Cons FlagArg by (cases "formal name") (auto split: if_splits)
    from formal_cases [OF tgt] show ?thesis
    proof (elim disjE exE conjE)
      fix put assume put: "tgt = BoolVar put"
        "\<forall>b fl. \<exists>x. bool_setting name b = Some x \<and> put b fl = apply_setting fl x"
      show ?thesis
      proof (cases val)
        case None
        obtain x where x: "bool_setting name True = Some x" "put True fl = apply_setting fl x"
          using put(2) by blast
        with assms Cons FlagArg tgt put(1) None have "parse_flags (apply_setting fl x) args' = Inr r" by simp
        moreover have "spells [a] x" using bare [OF dash x(1)] a None by simp
        ultimately show ?thesis using Cons by (intro disjI2 exI [of _ "[a]"]) auto
      next
        case (Some v)
        obtain b where b: "parse_bool v = Some b"
          using assms Cons FlagArg tgt put(1) Some by (cases "parse_bool v") auto
        obtain x where x: "bool_setting name b = Some x" "put b fl = apply_setting fl x"
          using put(2) by blast
        with assms Cons FlagArg tgt put(1) Some b have "parse_flags (apply_setting fl x) args' = Inr r" by simp
        moreover have "spells [a] x" using with_bool [OF dash b x(1)] a Some by simp
        ultimately show ?thesis using Cons by (intro disjI2 exI [of _ "[a]"]) auto
      qed
    next
      assume path: "name = ''config_path''" "tgt = StringVar (\<lambda>s fl. fl\<lparr>configPath := s\<rparr>)"
      show ?thesis
      proof (cases val)
        case (Some v)
        with assms Cons FlagArg tgt path have "parse_flags (apply_setting fl (SetPath v)) args' = Inr r" by simp
        moreover have "spells [a] (SetPath v)" using path_in [OF dash, of v] a Some path(1) by simp
        ultimately show ?thesis using Cons by (intro disjI2 exI [of _ "[a]"]) auto
      next
        case None
        with assms Cons FlagArg tgt path obtain v args'' where v: "args' = v # args''"
          "parse_flags (apply_setting fl (SetPath v)) args'' = Inr r" by (cases args') auto
        moreover have "spells [a, v] (SetPath v)" using path_next [OF dash, of v] a None path(1) by simp
        ultimately show ?thesis using Cons by (intro disjI2 exI [of _ "[a, v]"]) auto
      qed
    qed
  qed (use assms Cons in auto)
qed

lemma parse_only_settings:
  assumes "parse_flags fl args = Inr (fl', rest)"
  shows "\<exists>ss xs tail. list_all2 spells ss xs \<and> args = concat ss @ tail \<and> left_over tail = Some rest \<and>
    fl' = foldl apply_setting fl xs"
  using assms
proof (induction args arbitrary: fl rule: length_induct)
  case (1 args)
  from parse_step [OF 1(2)] show ?case
  proof (elim disjE exE conjE)
    assume "left_over args = Some (snd (fl', rest))" "fst (fl', rest) = fl"
    then show ?thesis by (intro exI [of _ "[]"] exI [of _ args]) simp
  next
    fix s x args'
    assume step: "spells s x" "args = s @ args'" "length args' < length args"
      "parse_flags (apply_setting fl x) args' = Inr (fl', rest)"
    from 1(1) [rule_format, OF step(3,4)] obtain ss xs tail where ih: "list_all2 spells ss xs"
      "args' = concat ss @ tail" "left_over tail = Some rest" "fl' = foldl apply_setting (apply_setting fl x) xs"
      by blast
    with step(1,2) show ?thesis by (intro exI [of _ "s # ss"] exI [of _ "x # xs"] exI [of _ tail]) simp
  qed
qed

section \<open>The theorem\<close>

text \<open>
  C33. The command lines that are accepted are exactly the sequences of settings of the four flags,
  each in one of its spellings, followed by nothing, by the terminator, or by a first argument that is
  not a flag; the settings are applied to the defaults in order, so the last one of a flag wins, and
  everything from that first argument on is left unparsed.
\<close>

theorem parse_flags_settings:
  "parse_flags fl args = Inr (fl', rest) \<longleftrightarrow>
     (\<exists>ss xs tail. list_all2 spells ss xs \<and> args = concat ss @ tail \<and> left_over tail = Some rest \<and>
        fl' = foldl apply_setting fl xs)"
  using parse_only_settings parse_settings by blast

text \<open>
  Since the program never looks at the arguments that are left, a flag behind one that is not a
  flag is ignored without a word.
\<close>

lemma positional_hides_flags:
  assumes "list_all2 spells ss xs" and "split_arg s = NotAFlag"
  shows "parse_flags fl (concat ss @ s # args) = Inr (foldl apply_setting fl xs, s # args)"
  using parse_settings [OF assms(1), of "s # args" "s # args" fl] assms(2) by simp

text \<open>Every setting of the variables can be written on the command line.\<close>

definition print_flags :: "flags \<Rightarrow> string list" where
  "print_flags fl =
     (if checkMode fl then [''-check''] else []) @ (if onceMode fl then [''-once''] else []) @
     (if stdinMode fl then [''-stdin''] else []) @ [''-config_path='' @ configPath fl]"

lemma print_parse_flags: "parse_flags flag_defaults (print_flags fl) = Inr (fl, [])"
proof -
  have sp: "spells [''-check''] (SetCheck True)" "spells [''-once''] (SetOnce True)"
    "spells [''-stdin''] (SetStdin True)" "spells [''-config_path='' @ p] (SetPath p)" for p
    using bare [of "''-''" "''check''"] bare [of "''-''" "''once''"] bare [of "''-''" "''stdin''"]
      path_in [of "''-''" p] by simp_all
  let ?ss = "(if checkMode fl then [[''-check'']] else []) @ (if onceMode fl then [[''-once'']] else []) @
     (if stdinMode fl then [[''-stdin'']] else []) @ [[''-config_path='' @ configPath fl]]"
  let ?xs = "(if checkMode fl then [SetCheck True] else []) @ (if onceMode fl then [SetOnce True] else []) @
     (if stdinMode fl then [SetStdin True] else []) @ [SetPath (configPath fl)]"
  have "list_all2 spells ?ss ?xs"
    using sp(1-3) sp(4) [of "configPath fl"] by (intro list_all2_appendI) (simp_all del: append.simps)
  from parse_settings [OF this, of "[]" "[]" flag_defaults]
  have "parse_flags flag_defaults (concat ?ss) = Inr (foldl apply_setting flag_defaults ?xs, [])" by simp
  moreover have "concat ?ss = print_flags fl" by (simp add: print_flags_def)
  moreover have "foldl apply_setting flag_defaults ?xs = fl" by (cases fl) (simp add: flag_defaults_def)
  ultimately show ?thesis by simp
qed

end
