(* ===== verification/Program.thy ===== *)
theory Program
  imports Startup Flags
begin

text \<open>
  The whole program: \<open>main\<close> from the command line to the main loop or the end of the \<open>-check\<close> mode,
  and a run in the \<open>-once\<close> mode from the bytes of the log file to the rows of the table.
\<close>

section \<open>\<open>main\<close>\<close>



text \<open>What the program finds on the machine, beside the libraries of theory Startup.\<close>

record ('w, 'e, 'p) machine =
  m_platform :: "('w, 'e, 'p) platform"
  m_read_file :: "string \<Rightarrow> string option"
  m_unmarshal :: "string \<Rightarrow> Config option"
  m_env :: environment
  m_stat :: "string \<Rightarrow> bool"
  m_can_open :: "string \<Rightarrow> bool"
  m_can_tail :: "string \<Rightarrow> bool"
  m_schema :: "'w \<Rightarrow> 'e schema_queries"

text \<open>
  How \<open>main\<close> goes on: it ends with a fatal error, it has printed the report of \<open>-check\<close> (with
  whether the exit status is 0), or the main loop runs over a line source.
\<close>

datatype ('w, 'e, 'p) outcome =
  Dies fatal
| Checked "'e check_line list" bool "'w client"
| Runs "('w, 'e, 'p) services" "'w app" line_source

definition load_config :: "('w, 'e, 'p) machine \<Rightarrow> flags \<Rightarrow> read_error + Config" where
  "load_config mc fl =
     (case Read (m_read_file mc) (m_unmarshal mc) (configPath fl) of
        Inl e \<Rightarrow> Inl e
      | Inr cfg \<Rightarrow>
          Inr (SetEnvVariables (parse_float (p_lib (m_platform mc)))
                 (unicode_lower (p_lib (m_platform mc))) (m_env mc) cfg))"

definition main_start :: "('w, 'e, 'p) machine \<Rightarrow> disk_io \<Rightarrow> directory \<Rightarrow> 'w \<Rightarrow> rat stream \<Rightarrow>
    flags \<Rightarrow> ('w, 'e, 'p) outcome" where
  "main_start mc io d w draws fl =
     (case load_config mc fl of
        Inl e \<Rightarrow> Dies (FatalConfig e)
      | Inr cfg \<Rightarrow>
          (case prepare (m_platform mc) cfg of
             Inl e \<Rightarrow> Dies e
           | Inr su \<Rightarrow>
               if checkMode fl
               then (case runCheck (p_compile (m_platform mc)) (m_stat mc) (m_schema mc) su (NewClient w) of
                       (report, ok, c) \<Rightarrow> Checked report ok c)
               else (case launch io d w draws su of
                       Inl e \<Rightarrow> Dies e
                     | Inr a \<Rightarrow>
                         (case openLineSource (stdinMode fl) (onceMode fl) (m_can_open mc)
                                 (m_can_tail mc) (s_cfg su) of
                            Inl e \<Rightarrow> Dies e
                          | Inr src \<Rightarrow> Runs su a src))))"

text \<open>\<open>main\<close> with the arguments of the process; \<open>Read\<close>, its first call, parses them.\<close>

definition main_args :: "('w, 'e, 'p) machine \<Rightarrow> disk_io \<Rightarrow> directory \<Rightarrow> 'w \<Rightarrow> rat stream \<Rightarrow>
    string list \<Rightarrow> flag_error + ('w, 'e, 'p) outcome" where
  "main_args mc io d w draws args =
     (case parse_flags flag_defaults args of
        Inl e \<Rightarrow> Inl e
      | Inr (fl, _) \<Rightarrow> Inr (main_start mc io d w draws fl))"

text \<open>Every mode can be asked for on the command line, with any configuration path.\<close>

lemma main_args_print: "main_args mc io d w draws (print_flags fl) = Inr (main_start mc io d w draws fl)"
  by (simp add: main_args_def print_parse_flags)

text \<open>
  The arguments left over by the parser have no influence: a flag behind a first argument that is
  not one is not seen.
\<close>

lemma main_args_positional:
  assumes "list_all2 spells ss xs" and "split_arg s = NotAFlag"
  shows "main_args mc io d w draws (concat ss @ s # args) = main_args mc io d w draws (concat ss)"
  using positional_hides_flags [OF assms, of flag_defaults args]
    parse_settings [OF assms(1), of "[]" "[]" flag_defaults]
  by (simp add: main_args_def)

text \<open>
  The lines a finite source delivers, from the content of standard input or of the opened file;
  the channel of a followed file stays open.
\<close>

fun source_lines :: "string \<Rightarrow> (string \<Rightarrow> string) \<Rightarrow> line_source \<Rightarrow> string list option" where
  "source_lines stdin content FromStdin = Some (fst (scanLines stdin))"
| "source_lines stdin content (FromFile path) = Some (fst (scanLines (content path)))"
| "source_lines stdin content (Tail path seek_end) = None"

section \<open>What a started program looks like\<close>

lemma main_start_Runs:
  assumes "main_start mc io d w draws fl = Runs su a src"
  obtains cfg where "load_config mc fl = Inr cfg" and "prepare (m_platform mc) cfg = Inr su"
    and "launch io d w draws su = Inr a"
    and "openLineSource (stdinMode fl) (onceMode fl) (m_can_open mc) (m_can_tail mc) (s_cfg su) = Inr src"
    and "\<not> checkMode fl"
  using assms by (auto simp: main_start_def split: sum.splits prod.splits if_splits)

lemma prepare_parts:
  assumes "prepare pl cfg = Inr su"
  shows "make_parser pl (s_cfg su) = Inr (s_parser su)" and "make_chain pl (s_cfg su) = Inr (s_chain su)"
  using assms by (auto simp: prepare_def Let_def split: sum.splits)

lemma prepare_services:
  assumes "prepare pl cfg = Inr su"
  shows "s_driver su = p_driver pl" and "s_lib su = p_lib pl" and "s_json su = p_json pl"
    and "MaxBufferSize (Settings (s_cfg su)) \<noteq> 0"
    and "LogFormatType (Nginx (s_cfg su)) = ''json'' \<Longrightarrow> s_parser su = None"
    and "Filters (Settings (s_cfg su)) = [] \<Longrightarrow> s_chain su = None"
  using assms default_buffer_size_nonzero
  by (auto simp: prepare_def Let_def make_parser_def make_chain_def split: sum.splits option.splits if_splits)

text \<open>Filters whose rates are 0, at least 1, or not a number do not sample.\<close>

definition filters_unsampled :: "Config \<Rightarrow> bool" where
  "filters_unsampled cfg \<longleftrightarrow>
     (\<forall>r\<in>set (Filters (Settings cfg)).
        \<not> (f64_less (F64 0) (SampleRate r) \<and> f64_less (SampleRate r) (F64 1)))"

lemma prepare_unsampled:
  assumes "prepare pl cfg = Inr su" and "filters_unsampled (s_cfg su)"
  shows "chain_unsampled su"
proof (cases "s_chain su")
  case (Some c)
  with prepare_parts(2) [OF assms(1)] have
    "NewChain (p_compile pl) (Filters (Settings (s_cfg su))) (filter_fields (s_cfg su)) = Inr c"
    by (auto simp: make_chain_def split: if_splits sum.splits)
  from NewChain_rates [OF this] have
    "sampleRate ` set (rules c) = SampleRate ` set (Filters (Settings (s_cfg su)))"
    by (metis list.set_map)
  moreover have "\<forall>x\<in>SampleRate ` set (Filters (Settings (s_cfg su))).
      \<not> (f64_less (F64 0) x \<and> f64_less x (F64 1))"
    using assms(2) by (simp add: filters_unsampled_def)
  ultimately have "\<forall>x\<in>sampleRate ` set (rules c). \<not> (f64_less (F64 0) x \<and> f64_less x (F64 1))"
    by simp
  then show ?thesis using Some by (simp add: chain_unsampled_def sampling_def)
qed (simp add: chain_unsampled_def)

lemma openLineSource_once:
  assumes "openLineSource stdin_mode True can_open can_tail cfg = Inr src" and "\<not> stdin_mode"
  shows "src = FromFile (LogPath (Settings cfg))"
  using assms by (simp add: openLineSource_def Let_def split: if_splits)

section \<open>\<open>-once\<close>: from the log file to the table\<close>

lemma started_installed:
  assumes "main_start mc io d w draws fl = Runs su a src"
    and "LogFormatType (Nginx (s_cfg su)) = ''json''" and "filters_unsampled (s_cfg su)"
    and "driver_ok (p_driver (m_platform mc)) stored pending acc"
    and "Columns (ClickHouse (s_cfg su)) \<noteq> []"
    and "0 \<le> MaxRetries (RetryCfg (Settings (s_cfg su)))"
    and "MaxRetries (RetryCfg (Settings (s_cfg su))) < 2 ^ 63 - 1"
  shows "installed_in_order su stored pending acc"
proof -
  obtain cfg where p: "prepare (m_platform mc) cfg = Inr su"
    using main_start_Runs [OF assms(1)] by metis
  have "in_order su"
    by (rule json_in_order [OF prepare_services(5) [OF p assms(2)] prepare_unsampled [OF p assms(3)]])
  then show ?thesis
    using prepare_services(1-3) [OF p] assms(4-7)
    by (simp add: installed_in_order_def installed_def in_order_per_line)
qed

text \<open>
  C1. From file to table: the program is started with \<open>-once\<close> on a JSON log, with filters that do not
  sample, against a server that answers and takes the rows, and its operations run one at a time:
  the lines of the file in order, whole timer flushes anywhere between them, and the shutdown at the end.  Then
  it has stored, on top of what the table held, the rows of the lines an earlier session left in
  the disk buffer, and the row of every line of the file that passes the filters and the table
  accepts, each once, in file order, and nothing else; the buffer is empty, the connection closed,
  and it is down.  Lines are shorter than 1 MB with the memory buffer, and trimmed shorter than 64 KB with a
  disk buffer, which has no byte limit, a working operating system, and a million lines and
  timer flushes at most.  Operations that overlap are not covered here: see Concurrency.
\<close>

theorem once_file_to_table:
  assumes "main_start mc io d w draws fl = Runs su a src" and "onceMode fl" and "\<not> stdinMode fl"
    and "LogFormatType (Nginx (s_cfg su)) = ''json''" and "filters_unsampled (s_cfg su)"
    and "starts_on su io d old (length es)"
    and "driver_ok (p_driver (m_platform mc)) stored pending acc"
    and "driver_up (p_driver (m_platform mc)) (ClickHouse (s_cfg su)) fits up" and "up w"
    and "Columns (ClickHouse (s_cfg su)) \<noteq> []"
    and "0 \<le> MaxRetries (RetryCfg (Settings (s_cfg su)))"
    and "MaxRetries (RetryCfg (Settings (s_cfg su))) < 2 ^ 63 - 1"
    and "content (LogPath (Settings (s_cfg su))) = unlines ls"
    and "list_all (plain_line (1024 * 1024)) ls"
    and "list_all (\<lambda>l. takes_line (BufferType (BufferCfg (Settings (s_cfg su))) = ''disk'') (trim_space l)) ls"
    and "sendable su fits (old @ map trim_space ls)"
    and "list_all (\<lambda>e. \<not> is_stop e) es" and "source_lines stdin content src = Some (event_lines es)"
    and "z = shutdown su io now (foldl (app_step su io) a es)"
  shows "stored (world (app_client z)) = stored w @ rows_of su acc (old @ map trim_space ls) \<and>
    buf_lines (app_buf z) = [] \<and> conn (app_client z) = None \<and> app_down z"
proof -
  obtain cfg where p: "prepare (m_platform mc) cfg = Inr su" and l: "launch io d w draws su = Inr a" and
    src: "openLineSource (stdinMode fl) (onceMode fl) (m_can_open mc) (m_can_tail mc) (s_cfg su) = Inr src"
    using main_start_Runs [OF assms(1)] by metis
  let ?disk = "BufferType (BufferCfg (Settings (s_cfg su))) = ''disk''"
  have lines: "event_lines es = ls"
    using openLineSource_once [OF src [unfolded assms(2) [THEN eqTrueI]] assms(3)] assms(13,18)
      scan_unlines [OF assms(14)]
    by (simp add: scanLines_def)
  have takes: "list_all (takes_event ?disk) es" using assms(15) by (simp add: takes_events lines)
  note inst = started_installed [OF assms(1,4,5,7,10-12)]
  have up: "driver_up (s_driver su) (ClickHouse (s_cfg su)) fits up"
    using assms(8) prepare_services(1) [OF p] by simp
  have old: "sendable su fits old" using assms(16) by simp
  note start = launch_running [OF inst up assms(9) prepare_services(4) [OF p] l assms(6) old]
  have fit: "sendable su fits (buf_lines (app_buf a) @ map trim_space (event_lines es))"
    using assms(16) start lines by simp
  note run = run_delivers [OF inst up start [THEN conjunct1] assms(17) takes fit]
  have "running su up io ?disk 0 (foldl (app_step su io) a es)"
    "sendable su fits (buf_lines (app_buf (foldl (app_step su io) a es)))" using run by blast+
  from shutdown_delivers [OF inst up this assms(19)] run start lines show ?thesis by simp
qed

section \<open>\<open>-check\<close>\<close>

text \<open>
  C39. The report of \<open>-check\<close> never says that the log format or the filters are wrong: \<open>main\<close> ends with
  a fatal error before it comes to the report, so those two branches of \<open>runCheck\<close> are dead
  code.  The exit status is 0 exactly when the log file exists and all checks of the client pass;
  the connection opened for them is closed.
\<close>

theorem check_mode_report:
  assumes "main_start mc io d w draws fl = Checked report ok c"
  shows "LogFormatFailed \<notin> set report \<and> (\<forall>e. FiltersFailed e \<notin> set report) \<and>
    (\<exists>cfg su. load_config mc fl = Inr cfg \<and> prepare (m_platform mc) cfg = Inr su \<and>
      (ok \<longleftrightarrow> m_stat mc (LogPath (Settings (s_cfg su))) \<and>
        list_all OK (fst (Check (s_driver su) (m_schema mc) (ClickHouse (s_cfg su)) (NewClient w))))) \<and>
    conn c = None"
proof -
  obtain cfg su where cfg: "load_config mc fl = Inr cfg" and p: "prepare (m_platform mc) cfg = Inr su"
    and run: "runCheck (p_compile (m_platform mc)) (m_stat mc) (m_schema mc) su (NewClient w) = (report, ok, c)"
    using assms by (auto simp: main_start_def split: sum.splits prod.splits if_splits)
  have fmt: "LogFormatType (Nginx (s_cfg su)) \<noteq> ''json'' \<longrightarrow> s_parser su \<noteq> None"
    using prepare_parts(1) [OF p] by (auto simp: make_parser_def split: option.splits) metis
  have flt: "Filters (Settings (s_cfg su)) \<noteq> [] \<longrightarrow>
      (\<exists>ch. NewChain (p_compile (m_platform mc)) (Filters (Settings (s_cfg su))) (filter_fields (s_cfg su)) = Inr ch)"
    using prepare_parts(2) [OF p] by (auto simp: make_chain_def split: sum.splits if_splits)
  obtain rs c1 where check: "Check (s_driver su) (m_schema mc) (ClickHouse (s_cfg su)) (NewClient w) = (rs, c1)"
    by fastforce
  have "LogFormatFailed \<notin> set report \<and> (\<forall>e. FiltersFailed e \<notin> set report) \<and>
      (ok \<longleftrightarrow> m_stat mc (LogPath (Settings (s_cfg su))) \<and> list_all OK rs) \<and> conn c = None"
    using run fmt flt check
    by (auto simp: runCheck_def Let_def report_ok Close_conn split: if_splits)
  then show ?thesis using cfg p check by auto
qed

section \<open>The theorems at work\<close>

text \<open>A machine whose configuration file is the example configuration, with nothing in the environment.\<close>

definition demo_machine :: "(demo_world, string, unit) machine" where
  "demo_machine =
     \<lparr>m_platform = demo_platform, m_read_file = (\<lambda>_. Some []), m_unmarshal = (\<lambda>_. Some (demo_cfg 1)),
      m_env = \<lparr>getenv = (\<lambda>_. []), environ = []\<rparr>, m_stat = (\<lambda>_. True), m_can_open = (\<lambda>_. True),
      m_can_tail = (\<lambda>_. True), m_schema = (\<lambda>_. demo_schema)\<rparr>"

definition demo_final_cfg :: Config where
  "demo_final_cfg = upd_enrich (\<lambda>e. e\<lparr>Extra := Some Map.empty\<rparr>) (demo_cfg 1)"

lemma demo_load: "load_config demo_machine fl = Inr demo_final_cfg"
proof -
  have "atoi [] = None" by code_simp
  then show ?thesis
    by (simp add: load_config_def Read_def demo_machine_def SetEnvVariables_def set_env_eqs
        pick_string_def pick_int_def pick_bool_def set_extra_def demo_final_cfg_def demo_cfg_def)
qed

lemma demo_final_cfg_simps [simp]:
  "LogFormatType (Nginx demo_final_cfg) = ''json''" "Filters (Settings demo_final_cfg) = []"
  "BufferType (BufferCfg (Settings demo_final_cfg)) = ''memory''"
  "MaxBufferSize (Settings demo_final_cfg) = 100" "MaxRetries (RetryCfg (Settings demo_final_cfg)) = 1"
  "LogPath (Settings demo_final_cfg) = ''/var/log/nginx/access.log''"
  "Hostname (Enrichments (Settings demo_final_cfg)) = []"
  "ClickHouse demo_final_cfg = ClickHouse (demo_cfg 1)"
  by (simp_all add: demo_final_cfg_def demo_cfg_def)

lemma demo_prepare:
  "\<exists>su. prepare demo_platform demo_final_cfg = Inr su \<and> s_cfg su = demo_final_cfg"
  by (simp add: prepare_def default_buffer_size_def resolve_hostname_def make_parser_def make_chain_def)

lemma demo_starts:
  "\<exists>su a. main_start demo_machine io_ok [] demo_w (sconst 0)
       \<lparr>checkMode = False, onceMode = True, stdinMode = False, configPath = []\<rparr> =
     Runs su a (FromFile ''/var/log/nginx/access.log'') \<and> s_cfg su = demo_final_cfg"
proof -
  obtain su where su: "prepare demo_platform demo_final_cfg = Inr su" "s_cfg su = demo_final_cfg"
    using demo_prepare by blast
  have m: "m_platform demo_machine = demo_platform" "m_can_open demo_machine = (\<lambda>_. True)"
    by (simp_all add: demo_machine_def)
  obtain a where "launch io_ok [] demo_w (sconst 0) su = Inr a"
    using su by (simp add: launch_def make_buffer_def NewMemoryBuffer_def Let_def)
  then show ?thesis
    using su by (simp add: main_start_def demo_load m openLineSource_def)
qed

lemma demo_cfg_columns: "Columns (ClickHouse (demo_cfg 1)) \<noteq> []"
  by (simp add: demo_cfg_def)

theorem once_file_to_table_witness:
  "\<exists>su a. main_start demo_machine io_ok [] demo_w (sconst 0)
       \<lparr>checkMode = False, onceMode = True, stdinMode = False, configPath = []\<rparr> =
     Runs su a (FromFile ''/var/log/nginx/access.log'') \<and>
     demo_rows (world (app_client (shutdown su io_ok (2, 2) (foldl (app_step su io_ok) a
       [Line ''::1'' (0, 0), Tick (1, 1), Line ''::2'' (1, 1)])))) =
     rows_of su (\<lambda>_. True) [''::1'', ''::2'']"
proof -
  let ?fl = "\<lparr>checkMode = False, onceMode = True, stdinMode = False, configPath = []\<rparr>"
  let ?es = "[Line ''::1'' (0, 0), Tick (1, 1), Line ''::2'' (1, 1)]"
  let ?content = "\<lambda>_. unlines [''::1'', ''::2'']"
  obtain su a where run: "main_start demo_machine io_ok [] demo_w (sconst 0) ?fl =
      Runs su a (FromFile ''/var/log/nginx/access.log'')" and cfg: "s_cfg su = demo_final_cfg"
    using demo_starts by blast
  have plain: "list_all (plain_line (1024 * 1024)) [''::1'', ''::2'']"
    by (simp add: plain_line_def has_suffix_def)
  then have lines: "source_lines [] ?content (FromFile ''/var/log/nginx/access.log'') =
      Some (event_lines ?es)"
    using scan_unlines [OF plain] by (simp add: scanLines_def del: unlines_simps)
  have m: "p_driver (m_platform demo_machine) = demo_driver"
    by (simp add: demo_machine_def demo_platform_def)
  have trim: "map trim_space [''::1'', ''::2''] = [''::1'', ''::2'']" by code_simp
  have "demo_rows (world (app_client (shutdown su io_ok (2, 2) (foldl (app_step su io_ok) a ?es)))) =
      demo_rows demo_w @ rows_of su (\<lambda>_. True) ([] @ map trim_space [''::1'', ''::2''])"
    by (rule once_file_to_table [where content = ?content and up = "\<lambda>w. demo_down w = 0"
          and pending = "\<lambda>w b. demo_batch w" and es = ?es and stdin = "[]" and now = "(2, 2)"
          and fits = "\<lambda>_. True", OF run, THEN conjunct1])
      (use plain lines demo_driver_ok demo_driver_up demo_cfg_columns in
        \<open>simp_all add: cfg m demo_w_def filters_unsampled_def starts_on_def takes_line_def
           del: unlines_simps source_lines.simps\<close>)
  then show ?thesis using run trim by (auto simp: demo_w_def)
qed

theorem check_mode_report_witness:
  "\<exists>report ok c. main_start demo_machine io_ok [] demo_w (sconst 0)
       \<lparr>checkMode = True, onceMode = False, stdinMode = False, configPath = []\<rparr> = Checked report ok c \<and>
     LogFormatFailed \<notin> set report \<and> conn c = None"
proof -
  let ?fl = "\<lparr>checkMode = True, onceMode = False, stdinMode = False, configPath = []\<rparr>"
  have m: "m_platform demo_machine = demo_platform" by (simp add: demo_machine_def)
  obtain su where su: "prepare demo_platform demo_final_cfg = Inr su" using demo_prepare by blast
  obtain report ok c where "runCheck (p_compile demo_platform) (m_stat demo_machine)
      (m_schema demo_machine) su (NewClient demo_w) = (report, ok, c)"
    using prod_cases3 by blast
  then have "main_start demo_machine io_ok [] demo_w (sconst 0) ?fl = Checked report ok c"
    using su by (simp add: main_start_def demo_load m)
  with check_mode_report [OF this] show ?thesis by blast
qed

end
