(* ===== verification/Concurrency.thy ===== *)
theory Concurrency
  imports Delivery
begin

text \<open>
  The goroutines of \<open>main.go\<close> over the shared state of theory Pipeline: the main loop, the timer of
  \<open>flushLoop\<close>, the signal handler, and the probes of \<open>/healthz\<close>.  A step is one critical section: a
  call of the buffer or of the breaker under its mutex, or one attempt of \<open>Save\<close> under the mutex of
  the client; local work, counters and the reads for a gauge that follow a call belong to its
  step.  Every interleaving the mutexes allow is a run.  The first theorem shows that the runs of
  theory Pipeline are among them; the others hold for all of them.
\<close>

section \<open>States\<close>

datatype goroutine = MainLoop | FlushLoop | SignalHandler

text \<open>
  Where a goroutine is: between its operations; (main loop) after writing a line and after
  reporting the length of the buffer; inside \<open>flush\<close> before asking the breaker, before draining, saving a
  batch with a number of attempts left, after a save, after a failed save, writing lines back;
  inside the shutdown after closing the client, and the buffer.
\<close>

datatype flight =
  Idle | Wrote | Measured | Gate | Draining
| Saving "string list" "log_entry list" nat
| Saved "string list" nat
| Failed "string list" nat
| Rebuffering "string list"
| ShutClient | ShutBuffer

text \<open>
  The shared state, the goroutines, which of them (if any) runs \<open>doShutdown\<close>, and the history of
  the lines: those read, those whose flush ended without writing them back, and those dropped by
  a failed \<open>Write\<close>.
\<close>

record 'w conc =
  c_app :: "'w app"
  flights :: "goroutine \<Rightarrow> flight"
  closing :: "goroutine option"
  arrived :: "string list"
  ended :: "string list"
  lost :: "string list"

definition goto :: "goroutine \<Rightarrow> flight \<Rightarrow> 'w conc \<Rightarrow> 'w conc" where
  "goto g f s = s\<lparr>flights := (flights s)(g := f)\<rparr>"

abbreviation upd_app :: "('w app \<Rightarrow> 'w app) \<Rightarrow> 'w conc \<Rightarrow> 'w conc" where
  "upd_app f s \<equiv> s\<lparr>c_app := f (c_app s)\<rparr>"

section \<open>Steps\<close>

text \<open>The number of attempts \<open>Save\<close> has for a batch; 0 when it returns without one.\<close>

definition attempts :: "('w, 'e, 'p) services \<Rightarrow> nat" where
  "attempts su =
     (if Columns (ClickHouse (s_cfg su)) = [] then 0
      else nat (wrap64 (save_retries (RetryCfg (Settings (s_cfg su))) + 1)))"

text \<open>The part of \<open>flush\<close> after the drain that is local: parsing, filtering, counting.\<close>

definition batch_counts :: "string list \<Rightarrow> log_entry list \<Rightarrow> log_entry list \<Rightarrow> metrics \<Rightarrow> metrics" where
  "batch_counts lines entries kept m =
     (let parseErrs = int (length lines) - int (length entries);
          dropped = int (length entries) - int (length kept) in
      m\<lparr>bufferSize := 0,
        parseErrors := parseErrors m + (if parseErrs > 0 then parseErrs else 0),
        linesFiltered := linesFiltered m + (if dropped > 0 then dropped else 0),
        batchSizes := batchSizes m @ [int (length kept)]\<rparr>)"

text \<open>What is recorded after a save has failed.\<close>

definition record_failure :: "int \<Rightarrow> nat \<Rightarrow> 'w app \<Rightarrow> 'w app" where
  "record_failure now n a =
     (let cb = map_option (cb_RecordFailure now) (app_cb a) in
      a\<lparr>app_cb := cb,
        app_metrics := updateCBState cb ((app_metrics a)
          \<lparr>linesNotProcessed := linesNotProcessed (app_metrics a) + int n, clickhouseUp := 0\<rparr>)\<rparr>)"

inductive step :: "('w, 'e, 'p) services \<Rightarrow> disk_io \<Rightarrow> 'w conc \<Rightarrow> 'w conc \<Rightarrow> bool"
  for su :: "('w, 'e, 'p) services" and io :: disk_io where
  accept: "\<lbrakk>\<not> app_down (c_app s); flights s MainLoop = Idle; closing s \<noteq> Some MainLoop;
      buf_Write io (app_buf (c_app s)) (trim_space l) = (None, b)\<rbrakk> \<Longrightarrow>
    step su io s (goto MainLoop Wrote (s
      \<lparr>c_app := upd_metrics (\<lambda>m. m\<lparr>linesRead := linesRead m + 1\<rparr>) ((c_app s)\<lparr>app_buf := b\<rparr>),
       arrived := arrived s @ [trim_space l]\<rparr>))"
| reject: "\<lbrakk>\<not> app_down (c_app s); flights s MainLoop = Idle; closing s \<noteq> Some MainLoop;
      buf_Write io (app_buf (c_app s)) (trim_space l) = (Some e, b)\<rbrakk> \<Longrightarrow>
    step su io s (s
      \<lparr>c_app := upd_metrics (\<lambda>m. m\<lparr>linesRead := linesRead m + 1,
           linesNotProcessed := linesNotProcessed m + 1\<rparr>) ((c_app s)\<lparr>app_buf := b\<rparr>),
       arrived := arrived s @ [trim_space l], lost := lost s @ [trim_space l]\<rparr>)"
| measure: "\<lbrakk>\<not> app_down (c_app s); flights s MainLoop = Wrote\<rbrakk> \<Longrightarrow>
    step su io s (goto MainLoop Measured
      (upd_app (upd_metrics (\<lambda>m. m\<lparr>bufferSize := buf_Len (app_buf (c_app s))\<rparr>)) s))"
| compare_len: "\<lbrakk>\<not> app_down (c_app s); flights s MainLoop = Measured\<rbrakk> \<Longrightarrow>
    step su io s (goto MainLoop
      (if buf_Len (app_buf (c_app s)) \<ge> MaxBufferSize (Settings (s_cfg su)) then Gate else Idle) s)"
| tick: "\<lbrakk>\<not> app_down (c_app s); flights s FlushLoop = Idle\<rbrakk> \<Longrightarrow>
    step su io s (goto FlushLoop Gate s)"
| start_shutdown: "\<lbrakk>\<not> app_down (c_app s); g \<in> {MainLoop, SignalHandler}; flights s g = Idle;
      closing s = None\<rbrakk> \<Longrightarrow>
    step su io s (goto g Gate (s\<lparr>closing := Some g\<rparr>))"
| gate_open: "\<lbrakk>\<not> app_down (c_app s); flights s g = Gate; cb_gate now (app_cb (c_app s)) = (True, cb)\<rbrakk> \<Longrightarrow>
    step su io s (goto g Draining (upd_app (\<lambda>a. a\<lparr>app_cb := cb\<rparr>) s))"
| gate_shut: "\<lbrakk>\<not> app_down (c_app s); flights s g = Gate; cb_gate now (app_cb (c_app s)) = (False, cb)\<rbrakk> \<Longrightarrow>
    step su io s (goto g Idle
      (upd_app (\<lambda>a. upd_metrics (\<lambda>m. m\<lparr>cbRejections := cbRejections m + 1\<rparr>) (a\<lparr>app_cb := cb\<rparr>)) s))"
| drain_error: "\<lbrakk>\<not> app_down (c_app s); flights s g = Draining;
      buf_ReadAll io (app_buf (c_app s)) = (Inl e, b)\<rbrakk> \<Longrightarrow>
    step su io s (goto g Idle (upd_app (\<lambda>a. a\<lparr>app_buf := b\<rparr>) s))"
| drain_empty: "\<lbrakk>\<not> app_down (c_app s); flights s g = Draining;
      buf_ReadAll io (app_buf (c_app s)) = (Inr [], b)\<rbrakk> \<Longrightarrow>
    step su io s (goto g Idle (upd_app (\<lambda>a. a\<lparr>app_buf := b\<rparr>) s))"
| drain: "\<lbrakk>\<not> app_down (c_app s); flights s g = Draining;
      buf_ReadAll io (app_buf (c_app s)) = (Inr ls, b); ls \<noteq> [];
      filter_entries su (parse_lines su ls) (app_draws (c_app s)) = (kept, draws)\<rbrakk> \<Longrightarrow>
    step su io s (goto g (if kept = [] then Idle else Saving ls kept (attempts su))
      (upd_app (\<lambda>a. a\<lparr>app_buf := b, app_draws := draws,
         app_metrics := batch_counts ls (parse_lines su ls) kept (app_metrics a)\<rparr>)
       (s\<lparr>ended := ended s @ (if kept = [] then ls else [])\<rparr>)))"
| no_attempt: "\<lbrakk>\<not> app_down (c_app s); flights s g = Saving ls kept 0\<rbrakk> \<Longrightarrow>
    step su io s (goto g (Saved ls (length kept)) s)"
| attempt_ok: "\<lbrakk>\<not> app_down (c_app s); flights s g = Saving ls kept (Suc k);
      save_attempt (s_driver su) (s_lib su) (s_cfg su) kept (app_client (c_app s)) = (None, c)\<rbrakk> \<Longrightarrow>
    step su io s (goto g (Saved ls (length kept)) (upd_app (\<lambda>a. a\<lparr>app_client := c\<rparr>) s))"
| attempt_failed: "\<lbrakk>\<not> app_down (c_app s); flights s g = Saving ls kept (Suc k);
      save_attempt (s_driver su) (s_lib su) (s_cfg su) kept (app_client (c_app s)) = (Some e, c)\<rbrakk> \<Longrightarrow>
    step su io s (goto g (if k = 0 then Failed ls (length kept) else Saving ls kept k)
      (upd_app (\<lambda>a. a\<lparr>app_client := c\<rparr>) s))"
| record_success: "\<lbrakk>\<not> app_down (c_app s); flights s g = Saved ls n\<rbrakk> \<Longrightarrow>
    step su io s (goto g Idle (upd_app (flush_saved n) (s\<lparr>ended := ended s @ ls\<rparr>)))"
| record_failed: "\<lbrakk>\<not> app_down (c_app s); flights s g = Failed ls n\<rbrakk> \<Longrightarrow>
    step su io s (goto g (Rebuffering ls) (upd_app (record_failure now n) s))"
| put_back: "\<lbrakk>\<not> app_down (c_app s); flights s g = Rebuffering (l # ls);
      buf_Write io (app_buf (c_app s)) l = (None, b)\<rbrakk> \<Longrightarrow>
    step su io s (goto g (Rebuffering ls) (upd_app (\<lambda>a. a\<lparr>app_buf := b\<rparr>) s))"
| put_back_full: "\<lbrakk>\<not> app_down (c_app s); flights s g = Rebuffering (l # ls);
      buf_Write io (app_buf (c_app s)) l = (Some e, b)\<rbrakk> \<Longrightarrow>
    step su io s (goto g (Rebuffering ls)
      (upd_app (\<lambda>a. a\<lparr>app_buf := b\<rparr>) (s\<lparr>lost := lost s @ [l]\<rparr>)))"
| all_back: "\<lbrakk>\<not> app_down (c_app s); flights s g = Rebuffering []\<rbrakk> \<Longrightarrow>
    step su io s (goto g Idle
      (upd_app (upd_metrics (\<lambda>m. m\<lparr>bufferSize := buf_Len (app_buf (c_app s))\<rparr>)) s))"
| probe: "\<not> app_down (c_app s) \<Longrightarrow>
    step su io s (upd_app (\<lambda>a. a\<lparr>app_client := snd (Healthy (s_driver su) (app_client a))\<rparr>) s)"
| close_client: "\<lbrakk>\<not> app_down (c_app s); closing s = Some g; flights s g = Idle\<rbrakk> \<Longrightarrow>
    step su io s (goto g ShutClient
      (upd_app (\<lambda>a. a\<lparr>app_client := snd (Close (s_driver su) (app_client a))\<rparr>) s))"
| close_buffer: "\<lbrakk>\<not> app_down (c_app s); flights s g = ShutClient\<rbrakk> \<Longrightarrow>
    step su io s (goto g ShutBuffer (upd_app (\<lambda>a. a\<lparr>app_buf := buf_Close io (app_buf a)\<rparr>) s))"
| exit_process: "\<lbrakk>\<not> app_down (c_app s); flights s g = ShutBuffer\<rbrakk> \<Longrightarrow>
    step su io s (goto g Idle (upd_app (\<lambda>a. a\<lparr>app_down := True\<rparr>) s))"

inductive_cases step_cases [consumes 1, case_names accept reject measure compare_len tick
    start_shutdown gate_open gate_shut drain_error drain_empty drain no_attempt attempt_ok
    attempt_failed record_success record_failed put_back put_back_full all_back probe close_client
    close_buffer exit_process]: "step su io s t"

inductive_simps step_down: "step su io (s\<lparr>c_app := a\<lparr>app_down := True\<rparr>\<rparr>) t"

lemma goto_simps [simp]:
  "c_app (goto g f s) = c_app s" "closing (goto g f s) = closing s" "arrived (goto g f s) = arrived s"
  "ended (goto g f s) = ended s" "lost (goto g f s) = lost s"
  "flights (goto g f s) = (flights s)(g := f)"
  by (simp_all add: goto_def)

text \<open>A program that has just been started, and the states it reaches.\<close>

definition conc_start :: "'w app \<Rightarrow> 'w conc" where
  "conc_start a =
     \<lparr>c_app = a, flights = (\<lambda>g. Idle), closing = None, arrived = [], ended = [], lost = []\<rparr>"

definition reachable :: "('w, 'e, 'p) services \<Rightarrow> disk_io \<Rightarrow> 'w app \<Rightarrow> 'w conc \<Rightarrow> bool" where
  "reachable su io a s \<longleftrightarrow> (step su io)\<^sup>*\<^sup>* (conc_start a) s"

lemma reachable_init: "reachable su io a (conc_start a)"
  by (simp add: reachable_def)

lemma reachable_step: "reachable su io a s \<Longrightarrow> step su io s t \<Longrightarrow> reachable su io a t"
  unfolding reachable_def by (rule rtranclp.rtrancl_into_rtrancl)


section \<open>Runs of one goroutine\<close>

lemma goto_goto [simp]: "goto g f (goto g f' s) = goto g f s"
  by (simp add: goto_def)

lemma goto_upd [simp]:
  "goto g f (s\<lparr>c_app := a\<rparr>) = (goto g f s)\<lparr>c_app := a\<rparr>"
  "goto g f (s\<lparr>closing := x\<rparr>) = (goto g f s)\<lparr>closing := x\<rparr>"
  "goto g f (s\<lparr>arrived := ls\<rparr>) = (goto g f s)\<lparr>arrived := ls\<rparr>"
  "goto g f (s\<lparr>ended := ls\<rparr>) = (goto g f s)\<lparr>ended := ls\<rparr>"
  "goto g f (s\<lparr>lost := ls\<rparr>) = (goto g f s)\<lparr>lost := ls\<rparr>"
  by (simp_all add: goto_def)

text \<open>The attempts of a save, one step each, give what the retry loop gives.\<close>

lemma attempts_run:
  assumes "\<not> app_down (c_app s)" and "flights s g = Saving ls kept (Suc k)"
    and "do_loop rn mr i md (save_attempt (s_driver su) (s_lib su) (s_cfg su) kept) (Suc k) n err
      (app_client (c_app s)) = (r, c, sl)"
  shows "(step su io)\<^sup>*\<^sup>* s (goto g (if r = None then Saved ls (length kept) else Failed ls (length kept))
    (upd_app (\<lambda>a. a\<lparr>app_client := c\<rparr>) s))"
  using assms
proof (induction k arbitrary: s n err sl)
  case 0
  let ?att = "save_attempt (s_driver su) (s_lib su) (s_cfg su) kept (app_client (c_app s))"
  show ?case
  proof (cases "fst ?att")
    case None
    then show ?thesis
      using step.attempt_ok [OF 0(1,2), of su c io] 0(3) by (cases ?att) auto
  next
    case (Some e)
    then show ?thesis
      using step.attempt_failed [OF 0(1,2), of su e c io] 0(3) by (cases ?att) auto
  qed
next
  case (Suc k)
  obtain q c' where att: "save_attempt (s_driver su) (s_lib su) (s_cfg su) kept (app_client (c_app s)) =
      (q, c')" by fastforce
  show ?case
  proof (cases q)
    case None
    then show ?thesis
      using step.attempt_ok [OF Suc.prems(1,2), of su c' io] att Suc.prems(3) by auto
  next
    case (Some e)
    let ?t = "goto g (Saving ls kept (Suc k)) (upd_app (\<lambda>a. a\<lparr>app_client := c'\<rparr>) s)"
    have one: "step su io s ?t"
      using step.attempt_failed [OF Suc.prems(1,2), of su e c' io] att Some by simp
    obtain sl' where "do_loop rn mr i md (save_attempt (s_driver su) (s_lib su) (s_cfg su) kept) (Suc k)
        (Suc n) (Some e) (app_client (c_app ?t)) = (r, c, sl')"
      using Suc.prems(3) att Some by (auto simp del: do_loop.simps(2)
          simp: do_loop.simps(2) [of _ _ _ _ _ "Suc k"] Let_def split: prod.splits)
    from Suc.IH [OF _ _ this] Suc.prems(1)
    have "(step su io)\<^sup>*\<^sup>* ?t (goto g (if r = None then Saved ls (length kept) else Failed ls (length kept))
        (upd_app (\<lambda>a. a\<lparr>app_client := c\<rparr>) ?t))" by simp
    with one show ?thesis by (auto intro: converse_rtranclp_into_rtranclp)
  qed
qed

lemma save_run:
  assumes "\<not> app_down (c_app s)" and "flights s g = Saving ls kept (attempts su)" and "kept \<noteq> []"
    and "Save (s_rand su) (s_driver su) (s_lib su) (s_cfg su) kept (app_client (c_app s)) = (r, c, sl)"
  shows "(step su io)\<^sup>*\<^sup>* s (goto g (if r = None then Saved ls (length kept) else Failed ls (length kept))
    (upd_app (\<lambda>a. a\<lparr>app_client := c\<rparr>) s))"
proof (cases "attempts su")
  case 0
  then have "r = None" "c = app_client (c_app s)"
    using assms(3,4) by (auto simp: attempts_def Save_def Let_def retry_Do_def split: if_splits)
  then show ?thesis
    using step.no_attempt [OF assms(1), of g ls kept su io] assms(2) 0 by auto
next
  case (Suc k)
  then have "Columns (ClickHouse (s_cfg su)) \<noteq> []"
    "nat (wrap64 (save_retries (RetryCfg (Settings (s_cfg su))) + 1)) = Suc k"
    by (auto simp: attempts_def split: if_splits)
  with assms(3,4) have "do_loop (s_rand su) (save_retries (RetryCfg (Settings (s_cfg su))))
      (save_initial (RetryCfg (Settings (s_cfg su)))) (save_max_delay (RetryCfg (Settings (s_cfg su))))
      (save_attempt (s_driver su) (s_lib su) (s_cfg su) kept) (Suc k) 0 None (app_client (c_app s)) = (r, c, sl)"
    by (simp add: Save_def Let_def retry_Do_def)
  from attempts_run [OF assms(1) assms(2) [unfolded Suc] this] show ?thesis .
qed

lemma put_back_run:
  assumes "\<not> app_down (c_app s)" and "flights s g = Rebuffering ls"
    and "rebuffer (buf_Write io) ls (app_buf (c_app s)) = (dropped, b)"
  shows "(step su io)\<^sup>*\<^sup>* s (goto g Idle
    (upd_app (\<lambda>a. upd_metrics (\<lambda>m. m\<lparr>bufferSize := buf_Len b\<rparr>) (a\<lparr>app_buf := b\<rparr>))
      (s\<lparr>lost := lost s @ dropped\<rparr>)))"
  using assms
proof (induction ls arbitrary: s dropped)
  case Nil
  then show ?case using step.all_back [OF Nil(1), of g su io] by auto
next
  case (Cons l ls)
  obtain q b1 where w: "buf_Write io (app_buf (c_app s)) l = (q, b1)" by fastforce
  let ?lost = "if q = None then [] else [l]"
  let ?t = "goto g (Rebuffering ls) (upd_app (\<lambda>a. a\<lparr>app_buf := b1\<rparr>) (s\<lparr>lost := lost s @ ?lost\<rparr>))"
  have one: "step su io s ?t"
    using step.put_back [OF Cons.prems(1,2), of io b1 su]
      step.put_back_full [OF Cons.prems(1,2), of io _ b1 su] w by (cases q) auto
  obtain d where d: "rebuffer (buf_Write io) ls b1 = (d, b)" "dropped = ?lost @ d"
    using Cons.prems(3) w by (cases q) (auto split: prod.splits)
  with Cons.IH [of ?t d] Cons.prems(1)
  have "(step su io)\<^sup>*\<^sup>* ?t (goto g Idle
    (upd_app (\<lambda>a. upd_metrics (\<lambda>m. m\<lparr>bufferSize := buf_Len b\<rparr>) (a\<lparr>app_buf := b\<rparr>))
      (?t\<lparr>lost := lost ?t @ d\<rparr>)))" by simp
  with one d(2) show ?case by (auto intro: converse_rtranclp_into_rtranclp)
qed


text \<open>
  The outcome of a run of one goroutine: the shared state is as given, the goroutine is idle, and
  only the history has grown.
\<close>

definition ran :: "('w, 'e, 'p) services \<Rightarrow> disk_io \<Rightarrow> goroutine \<Rightarrow> 'w conc \<Rightarrow> 'w app \<Rightarrow> 'w conc \<Rightarrow> bool" where
  "ran su io g s a t \<longleftrightarrow> (step su io)\<^sup>*\<^sup>* s t \<and> c_app t = a \<and> flights t = (flights s)(g := Idle) \<and>
     closing t = closing s \<and> arrived t = arrived s"

lemma ran_step:
  assumes "step su io s t" and "ran su io g t a u" and "flights t = (flights s)(g := f)"
    and "closing t = closing s" and "arrived t = arrived s"
  shows "ran su io g s a u"
  using assms by (auto simp: ran_def intro: converse_rtranclp_into_rtranclp)

lemma ran_steps:
  assumes "(step su io)\<^sup>*\<^sup>* s t" and "ran su io g t a u" and "flights t = (flights s)(g := f)"
    and "closing t = closing s" and "arrived t = arrived s"
  shows "ran su io g s a u"
  using assms by (auto simp: ran_def intro: rtranclp_trans)

lemma saved_run:
  assumes "\<not> app_down (c_app s)" and "flights s g = Saved ls n"
  shows "\<exists>t. ran su io g s (flush_saved n (c_app s)) t"
proof -
  let ?t = "goto g Idle (upd_app (flush_saved n) (s\<lparr>ended := ended s @ ls\<rparr>))"
  from step.record_success [OF assms, of su io] have "ran su io g s (flush_saved n (c_app s)) ?t"
    by (simp add: ran_def r_into_rtranclp)
  then show ?thesis ..
qed

lemma record_failure_rebuffer:
  assumes "rebuffer (buf_Write io) ls (app_buf a) = (dropped, b)"
  shows "(record_failure now n a)\<lparr>app_buf := b, app_metrics :=
      (app_metrics (record_failure now n a))\<lparr>bufferSize := buf_Len b\<rparr>\<rparr> = flush_failed io now n ls a"
  using assms by (simp add: record_failure_def flush_failed_def Let_def)

lemma failed_run:
  assumes "\<not> app_down (c_app s)" and "flights s g = Failed ls n"
  shows "\<exists>t. ran su io g s (flush_failed io now n ls (c_app s)) t"
proof -
  obtain dropped b where reb: "rebuffer (buf_Write io) ls (app_buf (c_app s)) = (dropped, b)"
    by fastforce
  let ?t = "goto g (Rebuffering ls) (upd_app (record_failure now n) s)"
  have t: "app_buf (c_app ?t) = app_buf (c_app s)" "\<not> app_down (c_app ?t)"
    using assms(1) by (simp_all add: record_failure_def Let_def)
  from put_back_run [of ?t g ls io dropped b su] reb t
  have "ran su io g ?t (flush_failed io now n ls (c_app s)) (goto g Idle
    (upd_app (\<lambda>a. upd_metrics (\<lambda>m. m\<lparr>bufferSize := buf_Len b\<rparr>) (a\<lparr>app_buf := b\<rparr>))
      (?t\<lparr>lost := lost ?t @ dropped\<rparr>)))"
    by (simp add: ran_def record_failure_rebuffer [OF reb])
  from ran_step [OF step.record_failed [OF assms] this] show ?thesis by auto
qed

text \<open>The state once a drained batch has been parsed and filtered, and \<open>flush_lines\<close> from there.\<close>

definition batch_ready :: "('w, 'e, 'p) services \<Rightarrow> string list \<Rightarrow> 'w app \<Rightarrow> 'w app" where
  "batch_ready su ls a =
     a\<lparr>app_draws := snd (filter_entries su (parse_lines su ls) (app_draws a)),
       app_metrics := batch_counts ls (parse_lines su ls) (kept_of su ls a) (app_metrics a)\<rparr>"

lemma flush_lines_split:
  assumes "kept_of su ls a \<noteq> []" and "save_kept su ls a = (r, c, sl)"
  shows "flush_lines su io now ls a =
    (if r = None then flush_saved (length (kept_of su ls a)) ((batch_ready su ls a)\<lparr>app_client := c\<rparr>)
     else flush_failed io now (length (kept_of su ls a)) ls ((batch_ready su ls a)\<lparr>app_client := c\<rparr>))"
  using assms
  by (cases "filter_entries su (parse_lines su ls) (app_draws a)"; cases r)
    (simp_all add: flush_lines_def batch_ready_def batch_counts_def kept_of_def save_kept_def Let_def)

text \<open>The rest of a flush whose batch is about to be saved.\<close>

lemma save_outcome_run:
  assumes "\<not> app_down a" and "kept_of su ls a \<noteq> []"
    and "c_app s = batch_ready su ls a" and "flights s g = Saving ls (kept_of su ls a) (attempts su)"
  shows "\<exists>t. ran su io g s (flush_lines su io now ls a) t"
proof -
  let ?kept = "kept_of su ls a"
  obtain r c sl where save: "save_kept su ls a = (r, c, sl)" using prod_cases3 by blast
  let ?u = "goto g (if r = None then Saved ls (length ?kept) else Failed ls (length ?kept))
    (upd_app (\<lambda>a. a\<lparr>app_client := c\<rparr>) s)"
  have up: "\<not> app_down (c_app s)" "app_client (c_app s) = app_client a"
    using assms(1,3) by (simp_all add: batch_ready_def)
  have run: "(step su io)\<^sup>*\<^sup>* s ?u"
    using up(2) save assms(2) by (intro save_run [OF up(1) assms(4)]) (simp_all add: save_kept_def)
  have "\<exists>v. ran su io g ?u (flush_lines su io now ls a) v"
    using saved_run [of ?u g ls "length ?kept" su io] failed_run [of ?u g ls "length ?kept" su io now]
      up(1) assms(3) unfolding flush_lines_split [OF assms(2) save] by simp
  with run show ?thesis by (fastforce intro: ran_steps)
qed

lemma flush_lines_run:
  assumes "\<not> app_down (c_app s)" and "flights s g = Draining"
    and "buf_ReadAll io (app_buf (c_app s)) = (Inr ls, b)" and "ls \<noteq> []"
  shows "\<exists>t. ran su io g s (flush_lines su io now ls ((c_app s)\<lparr>app_buf := b\<rparr>)) t"
proof -
  let ?a = "(c_app s)\<lparr>app_buf := b\<rparr>"
  let ?kept = "kept_of su ls ?a"
  have k: "filter_entries su (parse_lines su ls) (app_draws (c_app s)) =
      (?kept, snd (filter_entries su (parse_lines su ls) (app_draws (c_app s))))"
    by (simp add: kept_of_def)
  let ?t = "goto g (if ?kept = [] then Idle else Saving ls ?kept (attempts su))
    (s\<lparr>ended := ended s @ (if ?kept = [] then ls else []), c_app := batch_ready su ls ?a\<rparr>)"
  have one: "step su io s ?t" using step.drain [OF assms k] by (simp add: batch_ready_def)
  show ?thesis
  proof (cases "?kept = []")
    case True
    then have "flush_lines su io now ls ?a = batch_ready su ls ?a"
      by (cases "filter_entries su (parse_lines su ls) (app_draws (c_app s))")
        (simp add: flush_lines_def batch_ready_def batch_counts_def kept_of_def Let_def)
    with True one show ?thesis by (intro exI [of _ ?t]) (auto simp: ran_def)
  next
    case False
    with save_outcome_run [of ?a su ls ?t g io now] assms(1)
    obtain u where "ran su io g ?t (flush_lines su io now ls ?a) u" by auto
    from ran_step [OF one this] show ?thesis by auto
  qed
qed

text \<open>A flush that has something to send comes to a state in which the batch is only in its hands.\<close>

lemma flush_reaches_save:
  assumes "\<not> app_down (c_app s)" and "flights s g = Gate"
    and "fst (cb_gate (fst now) (app_cb (c_app s)))"
    and "buf_ReadAll io (app_buf (c_app s)) = (Inr ls, b)" and "ls \<noteq> []"
    and "kept_of su ls (c_app s) \<noteq> []"
  shows "\<exists>t u. (step su io)\<^sup>*\<^sup>* s t \<and> flights t g = Saving ls (kept_of su ls (c_app s)) (attempts su) \<and>
    app_client (c_app t) = app_client (c_app s) \<and> app_buf (c_app t) = b \<and>
    ran su io g t (flush su io now (c_app s)) u"
proof -
  let ?d = "drained io (fst now) (c_app s)" and ?kept = "kept_of su ls (c_app s)"
  let ?s1 = "goto g Draining (upd_app (\<lambda>a. a\<lparr>app_cb := snd (cb_gate (fst now) (app_cb (c_app s)))\<rparr>) s)"
  let ?t = "goto g (Saving ls ?kept (attempts su)) (s\<lparr>c_app := batch_ready su ls ?d\<rparr>)"
  have gate: "cb_gate (fst now) (app_cb (c_app s)) = (True, snd (cb_gate (fst now) (app_cb (c_app s))))"
    using assms(3) by (metis (full_types) prod.collapse)
  have same: "(goto g f s)\<lparr>ended := ended s\<rparr> = goto g f s" for f by (simp add: goto_def)
  have k: "filter_entries su (parse_lines su ls) (app_draws (c_app ?s1)) =
      (?kept, snd (filter_entries su (parse_lines su ls) (app_draws (c_app ?s1))))"
    by (simp add: kept_of_def)
  have "step su io s ?s1" using step.gate_open [OF assms(1,2) gate] by simp
  moreover have "step su io ?s1 ?t"
    using step.drain [OF _ _ _ assms(5) k, of g io b] assms(1,4,6)
    by (simp add: batch_ready_def drained_def kept_of_def same)
  moreover have eq: "flush su io now (c_app s) = flush_lines su io (snd now) ls ?d"
    using assms(3-5) by (intro flush_eq) simp_all
  moreover obtain u where "ran su io g ?t (flush_lines su io (snd now) ls ?d) u"
    using save_outcome_run [of ?d su ls ?t g io "snd now"] assms(1,6) by auto
  ultimately show ?thesis
    using assms(4) by (intro exI [of _ ?t] exI [of _ u]) (auto simp: batch_ready_def)
qed

lemma flush_run:
  assumes "\<not> app_down (c_app s)" and "flights s g = Gate"
  shows "\<exists>t. ran su io g s (flush su io now (c_app s)) t"
proof -
  obtain ok cb where gate: "cb_gate (fst now) (app_cb (c_app s)) = (ok, cb)" by fastforce
  obtain q b where read: "buf_ReadAll io (app_buf (c_app s)) = (q, b)" by fastforce
  show ?thesis
  proof (cases ok)
    case False
    let ?t = "goto g Idle
      (upd_app (\<lambda>a. upd_metrics (\<lambda>m. m\<lparr>cbRejections := cbRejections m + 1\<rparr>) (a\<lparr>app_cb := cb\<rparr>)) s)"
    from gate False step.gate_shut [OF assms, of "fst now" cb su io]
    have "ran su io g s (flush su io now (c_app s)) ?t" by (auto simp: ran_def flush_def)
    then show ?thesis ..
  next
    case True
    let ?s = "goto g Draining (upd_app (\<lambda>a. a\<lparr>app_cb := cb\<rparr>) s)"
    let ?t = "goto g Idle (upd_app (\<lambda>a. a\<lparr>app_buf := b\<rparr>) ?s)"
    have one: "step su io s ?s" using step.gate_open [OF assms, of "fst now" cb su io] gate True by simp
    have s: "\<not> app_down (c_app ?s)" "flights ?s g = Draining" "buf_ReadAll io (app_buf (c_app ?s)) = (q, b)"
      using assms(1) read by simp_all
    have "\<exists>t. ran su io g ?s (flush su io now (c_app s)) t"
    proof (cases "q = Inr [] \<or> (\<exists>e. q = Inl e)")
      case True
      then have "step su io ?s ?t"
        using step.drain_error [OF s(1,2)] step.drain_empty [OF s(1,2)] s(3) by blast
      then show ?thesis
        using gate read True \<open>ok\<close> by (intro exI [of _ ?t]) (auto simp: ran_def flush_def)
    next
      case False
      then obtain ls where q: "q = Inr ls" "ls \<noteq> []" by (cases q) auto
      with flush_lines_run [OF s(1,2), of io ls b su "snd now"] s(3) gate read \<open>ok\<close>
      show ?thesis by (simp add: flush_def)
    qed
    with ran_step [OF one] show ?thesis by fastforce
  qed
qed


lemma accept_run:
  assumes "\<not> app_down (c_app s)" and "flights s MainLoop = Idle" and "closing s \<noteq> Some MainLoop"
  shows "\<exists>t. (step su io)\<^sup>*\<^sup>* s t \<and> c_app t = accept_line su io now l (c_app s) \<and>
    flights t = flights s \<and> closing t = closing s \<and> arrived t = arrived s @ [trim_space l]"
proof -
  obtain r b where w: "buf_Write io (app_buf (c_app s)) (trim_space l) = (r, b)" by fastforce
  have same: "(flights s)(MainLoop := Idle) = flights s" using assms(2) by auto
  show ?thesis
  proof (cases r)
    case (Some e)
    let ?t = "s\<lparr>c_app := upd_metrics (\<lambda>m. m\<lparr>linesRead := linesRead m + 1,
        linesNotProcessed := linesNotProcessed m + 1\<rparr>) ((c_app s)\<lparr>app_buf := b\<rparr>),
      arrived := arrived s @ [trim_space l], lost := lost s @ [trim_space l]\<rparr>"
    from w Some step.reject [OF assms, of io l e b su] have "step su io s ?t" by simp
    then show ?thesis
      using Some by (intro exI [of _ ?t]) (simp add: r_into_rtranclp accept_line_eq [OF w] Let_def)
  next
    case None
    let ?s1 = "goto MainLoop Wrote (s
      \<lparr>c_app := upd_metrics (\<lambda>m. m\<lparr>linesRead := linesRead m + 1\<rparr>) ((c_app s)\<lparr>app_buf := b\<rparr>),
       arrived := arrived s @ [trim_space l]\<rparr>)"
    let ?s2 = "goto MainLoop Measured
      (upd_app (upd_metrics (\<lambda>m. m\<lparr>bufferSize := buf_Len (app_buf (c_app ?s1))\<rparr>)) ?s1)"
    let ?full = "buf_Len (app_buf (c_app ?s2)) \<ge> MaxBufferSize (Settings (s_cfg su))"
    let ?s3 = "goto MainLoop (if ?full then Gate else Idle) ?s2"
    have "step su io s ?s1" using step.accept [OF assms, of io l b su] w None by simp
    moreover have "step su io ?s1 ?s2" using step.measure [of ?s1 su io] assms(1) by simp
    moreover have "step su io ?s2 ?s3" using step.compare_len [of ?s2 su io] assms(1) by simp
    ultimately have steps: "(step su io)\<^sup>*\<^sup>* s ?s3" by auto
    have acc: "accept_line su io now l (c_app s) =
        (if ?full then flush su io now (c_app ?s3) else c_app ?s3)"
      using None by (simp add: accept_line_eq [OF w] Let_def)
    have s3: "flights ?s3 = (flights s)(MainLoop := if ?full then Gate else Idle)"
      "closing ?s3 = closing s" "arrived ?s3 = arrived s @ [trim_space l]" by simp_all
    show ?thesis
    proof (cases ?full)
      case False
      with steps acc s3 show ?thesis by (intro exI [of _ ?s3]) (simp add: same)
    next
      case True
      then obtain t where "ran su io MainLoop ?s3 (flush su io now (c_app ?s3)) t"
        using flush_run [of ?s3 MainLoop su io now] assms(1) by auto
      with True steps acc s3 show ?thesis
        by (intro exI [of _ t]) (auto simp: ran_def same intro: rtranclp_trans)
    qed
  qed
qed

lemma tick_run:
  assumes "\<not> app_down (c_app s)" and "flights s FlushLoop = Idle"
  shows "\<exists>t. ran su io FlushLoop s (flush su io now (c_app s)) t"
  using flush_run [of "goto FlushLoop Gate s" FlushLoop su io now] assms(1)
    ran_step [OF step.tick [OF assms]] by fastforce

lemma shutdown_run:
  assumes "\<not> app_down (c_app s)" and "flights s SignalHandler = Idle" and "closing s = None"
  shows "\<exists>t. (step su io)\<^sup>*\<^sup>* s t \<and> c_app t = shutdown su io now (c_app s) \<and>
    flights t = flights s \<and> arrived t = arrived s"
proof -
  let ?s1 = "goto SignalHandler Gate (s\<lparr>closing := Some SignalHandler\<rparr>)"
  have one: "step su io s ?s1" using step.start_shutdown [of s SignalHandler su io] assms by simp
  obtain t where t: "ran su io SignalHandler ?s1 (flush su io now (c_app s)) t"
    using flush_run [of ?s1 SignalHandler su io now] assms(1) by auto
  let ?a = "flush su io now (c_app s)"
  have st: "c_app t = ?a" "flights t SignalHandler = Idle" "closing t = Some SignalHandler"
    "\<not> app_down (c_app t)" "arrived t = arrived s" "flights t = flights s"
    using t assms(1,2) by (auto simp: ran_def)
  let ?t1 = "goto SignalHandler ShutClient
    (upd_app (\<lambda>a. a\<lparr>app_client := snd (Close (s_driver su) (app_client a))\<rparr>) t)"
  let ?t2 = "goto SignalHandler ShutBuffer (upd_app (\<lambda>a. a\<lparr>app_buf := buf_Close io (app_buf a)\<rparr>) ?t1)"
  let ?t3 = "goto SignalHandler Idle (upd_app (\<lambda>a. a\<lparr>app_down := True\<rparr>) ?t2)"
  have "step su io t ?t1" by (rule step.close_client [OF st(4,3,2)])
  moreover have "step su io ?t1 ?t2" by (rule step.close_buffer) (use st(4) in simp_all)
  moreover have "step su io ?t2 ?t3" by (rule step.exit_process) (use st(4) in simp_all)
  moreover have "(step su io)\<^sup>*\<^sup>* s t"
    using one t by (auto simp: ran_def intro: converse_rtranclp_into_rtranclp)
  ultimately have "(step su io)\<^sup>*\<^sup>* s ?t3" by (meson rtranclp.rtrancl_into_rtrancl)
  moreover have "flights ?t3 = flights s" using st(6) assms(2) by auto
  ultimately show ?thesis
    using st assms(1) by (intro exI [of _ ?t3]) (simp add: shutdown_eq Let_def)
qed

text \<open>The lines a sequential run reads before it is shut down.\<close>

fun lines_read :: "('w, 'e, 'p) services \<Rightarrow> disk_io \<Rightarrow> 'w app \<Rightarrow> event list \<Rightarrow> string list" where
  "lines_read su io a [] = []"
| "lines_read su io a (e # es) =
     (case e of Line l now \<Rightarrow> if app_down a then [] else [trim_space l] | _ \<Rightarrow> []) @
     lines_read su io (app_step su io a e) es"

lemma event_run:
  assumes "flights s = (\<lambda>g. Idle)" and "\<not> app_down (c_app s) \<Longrightarrow> closing s = None"
  shows "\<exists>t. (step su io)\<^sup>*\<^sup>* s t \<and> c_app t = app_step su io (c_app s) e \<and> flights t = (\<lambda>g. Idle) \<and>
    (\<not> app_down (c_app t) \<longrightarrow> closing t = None) \<and>
    arrived t = arrived s @ lines_read su io (c_app s) [e]"
proof (cases "app_down (c_app s)")
  case True
  then show ?thesis using assms by (intro exI [of _ s]) (cases e; simp)
next
  case up: False
  note c = assms(2) [OF up]
  show ?thesis
  proof (cases e)
    case (Line l now)
    then show ?thesis using accept_run [OF up, of su io now l] assms(1) c up by fastforce
  next
    case (Tick now)
    then show ?thesis
      using tick_run [OF up, of su io now] assms(1) c up by (fastforce simp: ran_def)
  next
    case (Stop now)
    have "app_down (shutdown su io now (c_app s))" using up by (simp add: shutdown_eq Let_def)
    with Stop show ?thesis using shutdown_run [OF up _ c, of su io now] assms(1) up by fastforce
  qed
qed

text \<open>
  C13. The sequential model is one of the interleavings: for every start and every sequence of
  lines, timer flushes and shutdowns, the state theory Pipeline computes with whole operations
  is reached by the goroutines one critical section at a time (each attempt of a save, each
  call of the buffer or the breaker), with every goroutine idle again and the same lines read.
\<close>

theorem sequential_runs_are_interleavings:
  "\<exists>s. reachable su io a s \<and> c_app s = foldl (app_step su io) a es \<and> flights s = (\<lambda>g. Idle) \<and>
     arrived s = lines_read su io a es"
proof -
  have "\<exists>t. (step su io)\<^sup>*\<^sup>* s t \<and> c_app t = foldl (app_step su io) (c_app s) es \<and>
      flights t = (\<lambda>g. Idle) \<and> arrived t = arrived s @ lines_read su io (c_app s) es"
    if "flights s = (\<lambda>g. Idle)" "\<not> app_down (c_app s) \<longrightarrow> closing s = None" for s :: "'a conc"
    using that
  proof (induction es arbitrary: s)
    case (Cons e es)
    obtain t where t: "(step su io)\<^sup>*\<^sup>* s t" "c_app t = app_step su io (c_app s) e"
      "flights t = (\<lambda>g. Idle)" "\<not> app_down (c_app t) \<longrightarrow> closing t = None"
      "arrived t = arrived s @ lines_read su io (c_app s) [e]"
      using event_run [of s su io e] Cons.prems by blast
    obtain u where u: "(step su io)\<^sup>*\<^sup>* t u" "c_app u = foldl (app_step su io) (c_app t) es"
      "flights u = (\<lambda>g. Idle)" "arrived u = arrived t @ lines_read su io (c_app t) es"
      using Cons.IH [OF t(3,4)] by blast
    with t show ?case by (intro exI [of _ u]) (auto intro: rtranclp_trans)
  qed auto
  from this [of "conc_start a"] show ?thesis by (simp add: reachable_def conc_start_def)
qed


section \<open>Conservation\<close>

text \<open>The lines a flush in progress holds, and those of them that have been stored.\<close>

fun held_lines :: "flight \<Rightarrow> string list" where
  "held_lines (Saving ls kept k) = ls"
| "held_lines (Saved ls n) = ls"
| "held_lines (Failed ls n) = ls"
| "held_lines (Rebuffering ls) = ls"
| "held_lines _ = []"

fun saved_lines :: "flight \<Rightarrow> string list" where
  "saved_lines (Saved ls n) = ls"
| "saved_lines _ = []"

definition over :: "(flight \<Rightarrow> string list) \<Rightarrow> 'w conc \<Rightarrow> string multiset" where
  "over h s = mset (h (flights s MainLoop)) + mset (h (flights s FlushLoop)) +
     mset (h (flights s SignalHandler))"

abbreviation in_flight :: "'w conc \<Rightarrow> string multiset" where
  "in_flight \<equiv> over held_lines"

lemma over_simps [simp]:
  "over h (s\<lparr>c_app := a\<rparr>) = over h s" "over h (s\<lparr>closing := c\<rparr>) = over h s"
  "over h (s\<lparr>arrived := x\<rparr>) = over h s" "over h (s\<lparr>ended := x\<rparr>) = over h s"
  "over h (s\<lparr>lost := x\<rparr>) = over h s"
  by (simp_all add: over_def)

lemma over_split:
  "\<exists>rest. over h s = mset (h (flights s g)) + rest \<and>
     (\<forall>f. over h (goto g f s) = mset (h f) + rest)"
  by (cases g) (auto simp: over_def ac_simps intro: exI)

lemma over_goto:
  "mset (h f) = mset (h (flights s g)) + d \<Longrightarrow> over h (goto g f s) = over h s + d"
  using over_split [of h s g] by (auto simp: ac_simps)

lemma over_goto_same:
  "h f = h (flights s g) \<Longrightarrow> over h (goto g f s) = over h s"
  using over_goto [of h f s g "{#}"] by simp

lemma over_goto_less:
  "mset (h (flights s g)) = mset (h f) + d \<Longrightarrow> over h s = over h (goto g f s) + d"
  using over_split [of h s g] by (auto simp: ac_simps)

lemma over_mem: "set (h (flights s g)) \<subseteq> set_mset (over h s)"
  using over_split [of h s g] by auto

definition conserved :: "disk_io \<Rightarrow> bool \<Rightarrow> nat \<Rightarrow> string list \<Rightarrow> 'w conc \<Rightarrow> bool" where
  "conserved io on_disk n base s \<longleftrightarrow>
     mset base + mset (arrived s) =
       mset (buf_lines (app_buf (c_app s))) + in_flight s + mset (ended s) + mset (lost s) \<and>
     buf_room io on_disk n (app_buf (c_app s))"

lemma step_arrived: "step su io s t \<Longrightarrow> \<exists>ls. arrived t = arrived s @ ls"
  by (induction rule: step.induct) simp_all

lemma conserved_held:
  assumes "conserved io on_disk n base s" and "flights s g = f"
  shows "set (held_lines f) \<subseteq> set base \<union> set (arrived s)"
proof -
  have "set_mset (mset base + mset (arrived s)) = set_mset (mset (buf_lines (app_buf (c_app s))) +
      in_flight s + mset (ended s) + mset (lost s))"
    using assms(1) by (simp add: conserved_def)
  then have "set_mset (in_flight s) \<subseteq> set base \<union> set (arrived s)" by auto
  then show ?thesis using over_mem [of held_lines s g] assms(2) by blast
qed

lemma step_conserved:
  assumes "step su io s t" and "conserved io on_disk (Suc n) base s"
    and "\<forall>l\<in>set base \<union> set (arrived t). takes_line on_disk l"
  shows "conserved io on_disk n base t"
proof -
  have room: "buf_room io on_disk (Suc n) (app_buf (c_app s))" and
    room': "buf_room io on_disk n (app_buf (c_app s))"
    using assms(2) buf_room_mono [of io on_disk "Suc n" _ n] by (simp_all add: conserved_def)
  have cons: "mset base + mset (arrived s) =
      mset (buf_lines (app_buf (c_app s))) + in_flight s + mset (ended s) + mset (lost s)"
    using assms(2) by (simp add: conserved_def)
  show ?thesis
    using assms(1)
  proof (cases rule: step_cases)
    case (accept l b)
    have "takes_line on_disk (trim_space l)" using assms(3) accept(1) by simp
    from room_write [OF room this accept(5)] cons over_goto_same [of held_lines Wrote s MainLoop] accept(1,3)
    show ?thesis by (simp add: conserved_def)
  next
    case (reject l e b)
    have "takes_line on_disk (trim_space l)" using assms(3) reject(1) by simp
    from room_write [OF room this reject(5)] cons reject(1) show ?thesis by (simp add: conserved_def)
  next
    case (drain_error g e b)
    from room_drain [OF room] drain_error(4) show ?thesis by auto
  next
    case (drain_empty g b)
    from room_drain [OF room'] drain_empty(4) cons drain_empty(1)
      over_goto_same [of held_lines Idle s g] drain_empty(3)
    show ?thesis by (auto simp: conserved_def)
  next
    case (drain g ls b kept draws)
    let ?f = "if kept = [] then Idle else Saving ls kept (attempts su)"
    have "over held_lines (goto g ?f s) = over held_lines s + mset (if kept = [] then [] else ls)"
      using drain(3) by (intro over_goto) simp
    with room_drain [OF room'] drain(4) cons drain(1) show ?thesis
      by (auto simp: conserved_def)
  next
    case (put_back g l ls b)
    have "takes_line on_disk l"
      using conserved_held [OF assms(2) put_back(3)] assms(3) put_back(1) by simp
    from room_write [OF room this put_back(4)] cons put_back(1)
      over_goto_less [of held_lines s g "Rebuffering ls" "{#l#}"] put_back(3)
    show ?thesis by (simp add: conserved_def)
  next
    case (put_back_full g l ls e b)
    have "takes_line on_disk l"
      using conserved_held [OF assms(2) put_back_full(3)] assms(3) put_back_full(1) by simp
    from room_write [OF room this put_back_full(4)] cons put_back_full(1)
      over_goto_less [of held_lines s g "Rebuffering ls" "{#l#}"] put_back_full(3)
    show ?thesis by (simp add: conserved_def)
  next
    case (record_success g ls k)
    with cons over_goto_less [of held_lines s g Idle "mset ls"] room' show ?thesis
      by (simp add: conserved_def flush_saved_def Let_def)
  next
    case (close_buffer g)
    from room_close [OF room'] cons close_buffer over_goto_same [of held_lines ShutBuffer s g]
    show ?thesis by (simp add: conserved_def)
  qed (use cons room' in \<open>simp_all add: conserved_def over_goto_same record_failure_def Let_def\<close>)
qed


lemma relpowp_arrived: "(step su io ^^ n) s t \<Longrightarrow> \<exists>ls. arrived t = arrived s @ ls"
proof (induction n arbitrary: t)
  case (Suc n)
  then obtain u where "(step su io ^^ n) s u" "step su io u t" by auto
  with Suc.IH step_arrived show ?case by (metis append.assoc)
qed auto

lemma run_conserved:
  assumes "(step su io ^^ n) s t" and "conserved io on_disk (n + m) base s"
    and "\<forall>l\<in>set base \<union> set (arrived t). takes_line on_disk l"
  shows "conserved io on_disk m base t"
  using assms
proof (induction n arbitrary: t m)
  case (Suc n)
  from Suc.prems(1) obtain u where u: "(step su io ^^ n) s u" "step su io u t" by auto
  obtain ls where "arrived t = arrived u @ ls" using step_arrived [OF u(2)] by blast
  then have "\<forall>l\<in>set base \<union> set (arrived u). takes_line on_disk l" using Suc.prems(3) by auto
  with Suc.IH [OF u(1), of "Suc m"] Suc.prems(2) have "conserved io on_disk (Suc m) base u" by simp
  with step_conserved [OF u(2) _ Suc.prems(3)] show ?case by blast
qed auto

lemma conserved_start:
  "buf_room io on_disk n (app_buf a) \<Longrightarrow>
   conserved io on_disk n (buf_lines (app_buf a)) (conc_start a)"
  by (simp add: conserved_def conc_start_def over_def)

lemma reachable_steps: "reachable su io a s \<longleftrightarrow> (\<exists>n. (step su io ^^ n) (conc_start a) s)"
  by (simp add: reachable_def rtranclp_power)

text \<open>
  C12. No interleaving of the goroutines duplicates a line or loses one silently: whatever the server,
  the breaker and the timing do, after any number of steps each line that was buffered at the
  start or read since is, with its multiplicity, in the buffer, in the batch of a flush in
  progress, among the lines whose flush ended in a save (or had no entries to save), or among
  those a write to the buffer rejected; and a memory buffer is within its capacity.  (A disk
  buffer needs a working operating system, lines below 64 KB, and fewer than a million steps.)
\<close>

theorem lines_conserved:
  assumes "(step su io ^^ n) (conc_start a) s" and "buf_room io on_disk n (app_buf a)"
    and "\<forall>l\<in>set (buf_lines (app_buf a) @ arrived s). takes_line on_disk l"
  shows "mset (buf_lines (app_buf a) @ arrived s) =
      mset (buf_lines (app_buf (c_app s))) + in_flight s + mset (ended s) + mset (lost s) \<and>
    (\<forall>b. app_buf (c_app s) = Mem b \<longrightarrow> mem_Len b \<le> mem_maxSize b)"
proof -
  have "conserved io on_disk (n + 0) (buf_lines (app_buf a)) (conc_start a)"
    using conserved_start [OF assms(2)] by simp
  from run_conserved [OF assms(1) this] assms(3)
  have "conserved io on_disk 0 (buf_lines (app_buf a)) s" by auto
  then show ?thesis by (auto simp: conserved_def mem_defs)
qed

text \<open>A write that loses a line of a memory buffer is a write to a full one.\<close>

lemma lost_only_when_full:
  assumes "step su io s t" and "app_buf (c_app s) = Mem b" and "lost t \<noteq> lost s"
  shows "mem_Len b \<ge> mem_maxSize b \<and> length (lost t) = length (lost s) + 1 \<and>
    app_buf (c_app t) = app_buf (c_app s)"
  using assms by (cases rule: step_cases) (auto simp: mem_defs split: if_splits)

section \<open>Delivery under every interleaving\<close>

text \<open>The rows of a multiset of lines.\<close>

definition row_mset :: "('w, 'e, 'p) services \<Rightarrow> (go_val list \<Rightarrow> bool) \<Rightarrow> string multiset \<Rightarrow>
    go_val list multiset" where
  "row_mset su acc M = (\<Sum>l\<in>#M. mset (rows_of su acc [l]))"

lemma row_mset_simps [simp]:
  "row_mset su acc {#} = {#}"
  "row_mset su acc (M + N) = row_mset su acc M + row_mset su acc N"
  by (simp_all add: row_mset_def)

lemma row_mset_mset [simp]: "row_mset su acc (mset ls) = mset (rows_of su acc ls)"
proof (induction ls)
  case (Cons l ls)
  have "rows_of su acc (l # ls) = rows_of su acc [l] @ rows_of su acc ls"
    using rows_of_append [of su acc "[l]" ls] by simp
  with Cons show ?case by (simp add: row_mset_def)
qed simp

text \<open>
  What the goroutines keep: the rows of the lines whose flush has ended, or is about to record
  its success, are stored; and a flush that is saving a batch has an attempt left.  What \<open>stored\<close>
  means is a parameter: all of them are in the table (\<open>\<subseteq>#\<close>), or they are precisely the table (\<open>=\<close>).
\<close>

type_synonym row_rel = "go_val list multiset \<Rightarrow> go_val list multiset \<Rightarrow> bool"

definition row_order :: "row_rel \<Rightarrow> bool" where
  "row_order le \<longleftrightarrow> (\<forall>A. le A A) \<and> (\<forall>A B C. le A B \<longrightarrow> le B C \<longrightarrow> le A C) \<and>
     (\<forall>A B C. le A B \<longrightarrow> le (A + C) (B + C))"

lemma row_orders: "row_order (\<subseteq>#)" "row_order (=)"
  by (auto simp: row_order_def intro: subset_mset.order_trans subset_mset.add_right_mono)

definition delivered :: "row_rel \<Rightarrow> ('w, 'e, 'p) services \<Rightarrow> ('w \<Rightarrow> go_val list list) \<Rightarrow>
    (go_val list \<Rightarrow> bool) \<Rightarrow> go_val list list \<Rightarrow> 'w conc \<Rightarrow> bool" where
  "delivered le su stored acc base s \<longleftrightarrow>
     le (mset base + mset (rows_of su acc (ended s)) + row_mset su acc (over saved_lines s))
       (mset (stored (world (app_client (c_app s))))) \<and>
     (\<forall>g ls kept k. flights s g = Saving ls kept k \<longrightarrow>
        mset kept = mset (entries_of su ls) \<and> 0 < k)"

lemma attempts_pos: "installed su stored pending acc \<Longrightarrow> 0 < attempts su"
proof -
  assume inst: "installed su stored pending acc"
  let ?m = "save_retries (RetryCfg (Settings (s_cfg su)))"
  have m: "0 \<le> ?m" "?m < 2 ^ 63 - 1" using inst by (simp_all add: installed_def save_retries_def)
  then have "wrap64 (?m + 1) = ?m + 1" by (intro wrap64_idI) simp_all
  then show ?thesis using inst m(1) by (simp add: attempts_def installed_def)
qed

lemma Healthy_stored:
  "driver_ok drv stored pending acc \<Longrightarrow> stored (world (snd (Healthy drv c))) = stored (world c)"
  using driver_okD(2) [of drv stored pending acc]
  by (simp add: Healthy_def split: option.split prod.split) (metis snd_conv)

text \<open>How a failed attempt changes the table, in terms of the parameter.\<close>

definition failure_keeps :: "row_rel \<Rightarrow> ('w, 'e, 'p) services \<Rightarrow> ('w \<Rightarrow> go_val list list) \<Rightarrow> bool" where
  "failure_keeps le su stored \<longleftrightarrow>
     (\<forall>kept c e c'. save_attempt (s_driver su) (s_lib su) (s_cfg su) kept c = (Some e, c') \<longrightarrow>
        le (mset (stored (world c))) (mset (stored (world c'))))"

lemma failure_keeps_rows:
  assumes "installed su stored pending acc"
  shows "failure_keeps (\<subseteq>#) su stored"
proof -
  have "mset (stored (world c)) \<subseteq># mset (stored (world c'))"
    if "save_attempt (s_driver su) (s_lib su) (s_cfg su) kept c = (Some e, c')" for kept c e c'
  proof -
    have "save_inv (s_driver su) stored pending acc (stored (world c)) c"
      using assms by (simp add: save_inv_def installed_def)
    from save_attempt_err [OF this that] show ?thesis by (auto simp: save_inv_def prefix_def)
  qed
  then show ?thesis by (simp add: failure_keeps_def)
qed

lemma step_delivered:
  assumes "row_order le" and "failure_keeps le su stored"
    and "installed su stored pending acc" and "step su io s t" and "delivered le su stored acc base s"
  shows "delivered le su stored acc base t"
proof -
  have ok: "driver_ok (s_driver su) stored pending acc" using assms(3) by (simp add: installed_def)
  let ?st = "\<lambda>c. mset (stored (world c))"
  have del: "le (mset base + mset (rows_of su acc (ended s)) + row_mset su acc (over saved_lines s))
       (?st (app_client (c_app s)))"
    and sav: "flights s g = Saving ls kept k \<Longrightarrow> mset kept = mset (entries_of su ls) \<and> 0 < k"
    for g ls kept k
    using assms(5) by (auto simp: delivered_def)
  have trans: "le A B \<Longrightarrow> le B C \<Longrightarrow> le A C" and add: "le A B \<Longrightarrow> le (A + C) (B + C)" for A B C
    using assms(1) unfolding row_order_def by blast+
  show ?thesis
    using assms(4)
  proof (cases rule: step_cases)
    case (drain g ls b kept draws)
    have kept: "mset kept = mset (entries_of su ls)"
      using drain(6) installedD(1) [OF assms(3)] unfolding per_line_def by (metis fst_conv)
    then have "kept = [] \<Longrightarrow> rows_of su acc ls = []" by (simp add: rows_of_none)
    then show ?thesis
      using del sav attempts_pos [OF assms(3)] drain(1,3) kept
        over_goto_same [of saved_lines _ s g]
      by (auto simp: delivered_def split: if_splits)
  next
    case (no_attempt g ls kept)
    from sav [OF no_attempt(3)] show ?thesis by simp
  next
    case (attempt_ok g ls kept k c)
    have "?st c = ?st (app_client (c_app s)) + mset (rows_of su acc ls)"
      using save_attempt_stores(1) [OF ok attempt_ok(4)] entries_rows_mset sav [OF attempt_ok(3)]
      by (metis mset_append)
    moreover have "over saved_lines (goto g (Saved ls (length kept)) s) = over saved_lines s + mset ls"
      using attempt_ok(3) by (intro over_goto) simp
    ultimately show ?thesis
      using add [OF del, of "mset (rows_of su acc ls)"] sav attempt_ok(1)
      by (auto simp: delivered_def ac_simps)
  next
    case (attempt_failed g ls kept k e c)
    have "le (?st (app_client (c_app s))) (?st c)"
      using assms(2) attempt_failed(4) unfolding failure_keeps_def by blast
    from trans [OF del this] have "le (mset base + mset (rows_of su acc (ended s)) +
        row_mset su acc (over saved_lines s)) (?st c)" .
    moreover have "over saved_lines (goto g f s) = over saved_lines s" if "saved_lines f = []" for f
      using attempt_failed(3) that by (intro over_goto_same) simp
    ultimately show ?thesis
      using sav [OF attempt_failed(3)] sav attempt_failed(1)
      by (auto simp: delivered_def split: if_splits)
  next
    case (record_success g ls n)
    with del sav over_goto_less [of saved_lines s g Idle "mset ls"] show ?thesis
      by (auto simp: delivered_def flush_saved_def Let_def ac_simps split: if_splits)
  next
    case probe
    with del sav show ?thesis by (auto simp: delivered_def Healthy_stored [OF ok])
  next
    case (close_client g)
    with del sav over_goto_same [of saved_lines ShutClient s g] show ?thesis
      by (auto simp: delivered_def Close_stored [OF ok] split: if_splits)
  qed (use del sav in \<open>auto simp: delivered_def over_goto_same record_failure_def Let_def split: if_splits\<close>)
qed


lemma run_delivered:
  assumes "row_order le" and "failure_keeps le su stored"
    and "installed su stored pending acc" and "(step su io ^^ n) (conc_start a) s"
  shows "delivered le su stored acc (stored (world (app_client a))) s"
  using assms(4)
proof (induction n arbitrary: s)
  case 0
  moreover have "le A A" for A using assms(1) by (simp add: row_order_def)
  ultimately show ?case by (auto simp: delivered_def conc_start_def over_def)
next
  case (Suc n)
  then obtain u where "(step su io ^^ n) (conc_start a) u" "step su io u s" by auto
  with Suc.IH step_delivered [OF assms(1-3)] show ?case by blast
qed

lemma at_least_once_everywhere:
  assumes "installed su stored pending acc" and "(step su io ^^ n) (conc_start a) s"
    and "buf_room io on_disk n (app_buf a)"
    and "\<forall>l\<in>set (buf_lines (app_buf a) @ arrived s). takes_line on_disk l"
  shows "mset (stored (world (app_client a))) +
      mset (rows_of su acc (buf_lines (app_buf a) @ arrived s)) \<subseteq>#
    mset (stored (world (app_client (c_app s)))) +
      row_mset su acc (mset (buf_lines (app_buf (c_app s))) + in_flight s + mset (lost s))"
proof -
  have "conserved io on_disk (n + 0) (buf_lines (app_buf a)) (conc_start a)"
    using conserved_start [OF assms(3)] by simp
  from run_conserved [OF assms(2) this] assms(4)
  have "mset (buf_lines (app_buf a) @ arrived s) =
      mset (buf_lines (app_buf (c_app s))) + in_flight s + mset (ended s) + mset (lost s)"
    by (auto simp: conserved_def)
  then have "row_mset su acc (mset (buf_lines (app_buf a) @ arrived s)) = row_mset su acc
      (mset (buf_lines (app_buf (c_app s))) + in_flight s + mset (ended s) + mset (lost s))"
    by (rule arg_cong)
  then have rows: "mset (rows_of su acc (buf_lines (app_buf a) @ arrived s)) =
      row_mset su acc (mset (buf_lines (app_buf (c_app s))) + in_flight s + mset (lost s)) +
      mset (rows_of su acc (ended s))"
    unfolding row_mset_mset row_mset_simps by (simp only: ac_simps)
  have "mset (stored (world (app_client a))) + mset (rows_of su acc (ended s)) \<subseteq>#
      mset (stored (world (app_client (c_app s))))"
    using run_delivered [OF row_orders(1) failure_keeps_rows [OF assms(1)] assms(1,2)]
      subset_mset.order_trans [OF mset_subset_eq_add_left]
    unfolding delivered_def by blast
  from subset_mset.add_right_mono [OF this, of "row_mset su acc
      (mset (buf_lines (app_buf (c_app s))) + in_flight s + mset (lost s))"]
  show ?thesis unfolding rows by (simp only: ac_simps)
qed

text \<open>
  C10. At least once, under every interleaving: when parsing and filtering work line by line, after any number of
  critical sections of the goroutines in any order, whatever the server does and also in the
  middle of flushes and of the shutdown, every row stored before and every row of a line that was
  buffered or has been read is, with its multiplicity, stored, or its line is in the buffer, held
  by a flush in progress, or was rejected by the buffer.  (A memory buffer always has room; for a
  disk buffer as in the sequential theorem.)
\<close>

theorem concurrent_at_least_once:
  assumes "installed su stored pending acc" and "(step su io ^^ n) (conc_start a) s"
    and "buf_room io on_disk n (app_buf a)"
    and "\<forall>l\<in>set (buf_lines (app_buf a) @ arrived s). takes_line on_disk l"
  shows "mset (stored (world (app_client a))) +
      mset (rows_of su acc (buf_lines (app_buf a) @ arrived s)) \<subseteq>#
    mset (stored (world (app_client (c_app s)))) +
      row_mset su acc (mset (buf_lines (app_buf (c_app s))) + in_flight s + mset (lost s))"
  by (rule at_least_once_everywhere [OF assms])

section \<open>What other interleavings do\<close>

text \<open>The main loop reads a line, the timer drains the buffer, and the save is under way.\<close>

lemma drained_reachable:
  assumes "\<not> app_down a" and "app_buf a = Mem \<lparr>mem_lines = [], mem_maxSize = 1\<rparr>"
    and "fst (cb_gate now (app_cb a))" and "0 < MaxBufferSize (Settings (s_cfg su))"
    and "kept_of su [trim_space x] a \<noteq> []"
  shows "\<exists>s. reachable su io a s \<and> \<not> app_down (c_app s) \<and> closing s = None \<and>
    app_buf (c_app s) = Mem \<lparr>mem_lines = [], mem_maxSize = 1\<rparr> \<and> app_client (c_app s) = app_client a \<and>
    app_cb (c_app s) = snd (cb_gate now (app_cb a)) \<and>
    flights s = (\<lambda>g. Idle)(FlushLoop := Saving [trim_space x] (kept_of su [trim_space x] a) (attempts su)) \<and>
    arrived s = [trim_space x] \<and> ended s = [] \<and> lost s = []"
proof -
  let ?x = "trim_space x" and ?b1 = "Mem \<lparr>mem_lines = [trim_space x], mem_maxSize = 1\<rparr>"
  let ?b0 = "Mem \<lparr>mem_lines = [], mem_maxSize = 1\<rparr>"
  obtain kept draws where k: "filter_entries su (parse_lines su [?x]) (app_draws a) = (kept, draws)"
    by fastforce
  then have kept: "kept_of su [?x] a = kept" "kept \<noteq> []" using assms(5) by (simp_all add: kept_of_def)
  obtain cb where cb: "cb_gate now (app_cb a) = (True, cb)"
    using assms(3) by (metis (full_types) prod.collapse)
  let ?s0 = "conc_start a"
  let ?s1 = "goto MainLoop Wrote (?s0
      \<lparr>c_app := upd_metrics (\<lambda>m. m\<lparr>linesRead := linesRead m + 1\<rparr>) ((c_app ?s0)\<lparr>app_buf := ?b1\<rparr>),
       arrived := arrived ?s0 @ [?x]\<rparr>)"
  let ?s2 = "goto FlushLoop Gate ?s1"
  let ?s3 = "goto FlushLoop Draining (upd_app (\<lambda>a. a\<lparr>app_cb := cb\<rparr>) ?s2)"
  let ?s4 = "goto FlushLoop (Saving [?x] kept (attempts su)) (?s3
      \<lparr>ended := ended ?s3 @ [], c_app := (c_app ?s3)\<lparr>app_buf := ?b0, app_draws := draws,
         app_metrics := batch_counts [?x] (parse_lines su [?x]) kept (app_metrics (c_app ?s3))\<rparr>\<rparr>)"
  let ?s5 = "goto MainLoop Measured
      (upd_app (upd_metrics (\<lambda>m. m\<lparr>bufferSize := buf_Len (app_buf (c_app ?s4))\<rparr>)) ?s4)"
  let ?s6 = "goto MainLoop Idle ?s5"
  have st1: "step su io ?s0 ?s1"
    by (rule step.accept) (use assms(1,2) in \<open>simp_all add: conc_start_def mem_defs\<close>)
  have st2: "step su io ?s1 ?s2"
    by (rule step.tick) (use assms(1) in \<open>simp_all add: conc_start_def\<close>)
  have st3: "step su io ?s2 ?s3"
    by (rule step.gate_open [of _ _ now]) (use assms(1) cb in \<open>simp_all add: conc_start_def\<close>)
  have st4: "step su io ?s3 ?s4"
    using step.drain [of ?s3 FlushLoop io "[?x]" ?b0 su kept draws] assms(1) k kept(2)
    by (simp add: conc_start_def mem_defs)
  have st5: "step su io ?s4 ?s5"
    by (rule step.measure) (use assms(1) in \<open>simp_all add: conc_start_def\<close>)
  have st6: "step su io ?s5 ?s6"
    using step.compare_len [of ?s5 su io] assms(1,4) by (simp add: conc_start_def mem_defs)
  have "reachable su io a ?s6"
    by (rule reachable_step [OF _ st6], rule reachable_step [OF _ st5], rule reachable_step [OF _ st4],
        rule reachable_step [OF _ st3], rule reachable_step [OF _ st2], rule reachable_step [OF _ st1],
        rule reachable_init)
  then show ?thesis
    using assms(1) kept(1) cb by (intro exI [of _ ?s6]) (auto simp: conc_start_def goto_def)
qed


lemma reachable_conserved:
  assumes "reachable su io a s" and "app_buf a = Mem b" and "mem_inv b"
  shows "conserved io False 0 (mem_lines b) s"
proof -
  obtain n where n: "(step su io ^^ n) (conc_start a) s" using assms(1) by (auto simp: reachable_steps)
  have "conserved io False (n + 0) (mem_lines b) (conc_start a)"
    using conserved_start [of io False n a] assms(2,3) by simp
  from run_conserved [OF n this] show ?thesis by (simp add: takes_line_def)
qed

lemma flush_mem_empty:
  assumes "app_buf a = Mem b" and "mem_lines b = []"
  shows "app_buf (flush su io now a) = app_buf a"
proof (cases "fst (cb_gate (fst now) (app_cb a))")
  case True
  have "b\<lparr>mem_lines := []\<rparr> = b" using assms(2) by simp
  then have "buf_ReadAll io (app_buf a) = (Inr [], Mem b)" using assms by (simp add: mem_ReadAll_def)
  from flush_empty [OF True this, of su] show ?thesis using assms(1) by simp
qed (simp add: flush_rejected)

text \<open>
  C25. Concurrency costs what a lone flush guarantees.  Take any installation with a memory buffer for
  one line, and a line whose save fails.  There is a run in which the line, accepted and drained
  by the timer, is dropped when it is written back, because a newer line has taken its place;
  and a run in which the process exits while the timer's flush still holds the line, which is
  then neither stored nor buffered nor counted as lost.
\<close>

theorem interleavings_lose_lines:
  assumes "\<not> app_down a" and "app_buf a = Mem \<lparr>mem_lines = [], mem_maxSize = 1\<rparr>"
    and "fst (cb_gate now (app_cb a))" and "0 < MaxBufferSize (Settings (s_cfg su))"
    and "kept_of su [trim_space x] a \<noteq> []" and "save_kept su [trim_space x] a = (Some e, c, sl)"
  shows "(\<exists>s. reachable su io a s \<and> arrived s = [trim_space x, trim_space y] \<and>
      buf_lines (app_buf (c_app s)) = [trim_space y] \<and> lost s = [trim_space x] \<and> ended s = []) \<and>
    (\<exists>s. reachable su io a s \<and> app_down (c_app s) \<and> arrived s = [trim_space x] \<and>
      buf_lines (app_buf (c_app s)) = [] \<and> in_flight s = {#trim_space x#} \<and> lost s = [] \<and> ended s = [])"
proof
  let ?x = "trim_space x" and ?y = "trim_space y" and ?kept = "kept_of su [trim_space x] a"
  let ?by = "Mem \<lparr>mem_lines = [trim_space y], mem_maxSize = 1\<rparr>"
  obtain s where s: "reachable su io a s" "\<not> app_down (c_app s)" "closing s = None"
    "app_buf (c_app s) = Mem \<lparr>mem_lines = [], mem_maxSize = 1\<rparr>" "app_client (c_app s) = app_client a"
    "flights s = (\<lambda>g. Idle)(FlushLoop := Saving [?x] ?kept (attempts su))"
    "arrived s = [?x]" "ended s = []" "lost s = []"
    using drained_reachable [OF assms(1-5), of io] by blast
  let ?s1 = "goto MainLoop Wrote (s
      \<lparr>c_app := upd_metrics (\<lambda>m. m\<lparr>linesRead := linesRead m + 1\<rparr>) ((c_app s)\<lparr>app_buf := ?by\<rparr>),
       arrived := arrived s @ [?y]\<rparr>)"
  let ?s2 = "goto FlushLoop (Failed [?x] (length ?kept)) (upd_app (\<lambda>a. a\<lparr>app_client := c\<rparr>) ?s1)"
  let ?s3 = "goto FlushLoop (Rebuffering [?x]) (upd_app (record_failure now (length ?kept)) ?s2)"
  let ?s4 = "goto FlushLoop (Rebuffering [])
      (upd_app (\<lambda>a. a\<lparr>app_buf := ?by\<rparr>) (?s3\<lparr>lost := lost ?s3 @ [?x]\<rparr>))"
  have st1: "step su io s ?s1" by (rule step.accept) (use s in \<open>simp_all add: mem_defs\<close>)
  have "Save (s_rand su) (s_driver su) (s_lib su) (s_cfg su) ?kept (app_client (c_app ?s1)) = (Some e, c, sl)"
    using assms(6) s(5) by (simp add: save_kept_def)
  with save_run [of ?s1 FlushLoop "[?x]" ?kept su "Some e" c sl io] s assms(5)
  have st2: "(step su io)\<^sup>*\<^sup>* ?s1 ?s2" by simp
  have st3: "step su io ?s2 ?s3" by (rule step.record_failed) (use s in simp_all)
  have st4: "step su io ?s3 ?s4"
    by (rule step.put_back_full [where e = ErrBufferFull])
      (use s in \<open>simp_all add: record_failure_def Let_def mem_defs\<close>)
  have "(step su io)\<^sup>*\<^sup>* s ?s4"
    using st1 st2 st3 st4 by (meson converse_rtranclp_into_rtranclp rtranclp.rtrancl_into_rtrancl)
  then have "reachable su io a ?s4" using s(1) by (auto simp: reachable_def)
  then show "\<exists>s. reachable su io a s \<and> arrived s = [?x, ?y] \<and>
      buf_lines (app_buf (c_app s)) = [?y] \<and> lost s = [?x] \<and> ended s = []"
    using s by (intro exI [of _ ?s4]) simp
  obtain t where t: "(step su io)\<^sup>*\<^sup>* s t" "c_app t = shutdown su io (now, now) (c_app s)"
    "flights t = flights s" "arrived t = arrived s"
    using shutdown_run [OF s(2) _ s(3), of su io "(now, now)"] s(6) by auto
  have reach: "reachable su io a t" using s(1) t(1) by (auto simp: reachable_def)
  have buf: "app_buf (c_app t) = app_buf (c_app s)" "app_down (c_app t)"
    using flush_mem_empty [OF s(4), of su io "(now, now)"] s(2,4) by (simp_all add: t(2) shutdown_eq Let_def)
  have flight: "in_flight t = {#?x#}" using t(3) s(6) by (simp add: over_def)
  have "mem_inv \<lparr>mem_lines = [], mem_maxSize = 1\<rparr>" by (simp add: mem_defs)
  from reachable_conserved [OF reach assms(2) this]
  have "ended t = []" "lost t = []" using t(4) s(4,7) buf(1) flight by (simp_all add: conserved_def)
  then show "\<exists>s. reachable su io a s \<and> app_down (c_app s) \<and> arrived s = [?x] \<and>
      buf_lines (app_buf (c_app s)) = [] \<and> in_flight s = {#?x#} \<and> lost s = [] \<and> ended s = []"
    using reach buf s(4,7) t(4) flight by (intro exI [of _ t]) simp
qed

section \<open>The theorems at work\<close>

text \<open>The small installation with room for one line and a server that refuses one flush.\<close>

definition tiny_app :: "demo_world app" where
  "tiny_app = (demo_app 2 None [])\<lparr>app_buf := Mem \<lparr>mem_lines = [], mem_maxSize = 1\<rparr>\<rparr>"

lemma tiny_app_simps [simp]:
  "app_buf tiny_app = Mem \<lparr>mem_lines = [], mem_maxSize = 1\<rparr>" "app_cb tiny_app = None"
  "app_client tiny_app = app_client (demo_app 2 None [])" "\<not> app_down tiny_app"
  by (simp_all add: tiny_app_def)

lemma tiny_kept: "kept_of demo_services ls tiny_app = kept_of demo_services ls (demo_app 2 None [])"
  by (simp add: kept_of_def tiny_app_def)

lemma tiny_save: "save_kept demo_services ls tiny_app = save_kept demo_services ls (demo_app 2 None [])"
  by (simp add: save_kept_def tiny_kept)

theorem interleavings_lose_lines_witness:
  "(\<exists>s. reachable demo_services io_ok tiny_app s \<and> lost s = [''::1'']) \<and>
   (\<exists>s. reachable demo_services io_ok tiny_app s \<and> app_down (c_app s) \<and> in_flight s = {#''::1''#})"
proof -
  have trim: "trim_space ''::1'' = ''::1''" by code_simp
  obtain e c sl where run: "save_kept demo_services [''::1''] (demo_app 2 None []) = (Some e, c, sl)"
    using demo_save_kept(1) by blast
  from interleavings_lose_lines [of tiny_app 0 demo_services "''::1''" e c sl io_ok "''::2''",
      unfolded trim tiny_kept tiny_save, OF _ _ _ _ demo_kept run]
  show ?thesis by (auto simp: cb_gate_def)
qed

text \<open>Two steps of the main loop and the timer.\<close>

lemma tiny_steps:
  "\<exists>s. (step demo_services io_ok ^^ 2) (conc_start tiny_app) s \<and> arrived s = [trim_space ''::1''] \<and>
    flights s FlushLoop = Gate"
proof -
  let ?s0 = "conc_start tiny_app"
  let ?b = "Mem \<lparr>mem_lines = [trim_space ''::1''], mem_maxSize = 1\<rparr>"
  let ?s1 = "goto MainLoop Wrote (?s0
      \<lparr>c_app := upd_metrics (\<lambda>m. m\<lparr>linesRead := linesRead m + 1\<rparr>) ((c_app ?s0)\<lparr>app_buf := ?b\<rparr>),
       arrived := arrived ?s0 @ [trim_space ''::1'']\<rparr>)"
  have "step demo_services io_ok ?s0 ?s1"
    by (rule step.accept) (simp_all add: conc_start_def mem_defs)
  moreover have "step demo_services io_ok ?s1 (goto FlushLoop Gate ?s1)"
    by (rule step.tick) (simp_all add: conc_start_def)
  ultimately have "(step demo_services io_ok ^^ 2) ?s0 (goto FlushLoop Gate ?s1)"
    by (auto simp: numeral_2_eq_2)
  then show ?thesis by (intro exI [of _ "goto FlushLoop Gate ?s1"]) (simp add: conc_start_def)
qed

theorem lines_conserved_witness:
  "\<exists>s. (step demo_services io_ok ^^ 2) (conc_start tiny_app) s \<and>
     {#''::1''#} = mset (buf_lines (app_buf (c_app s))) + in_flight s + mset (ended s) + mset (lost s)"
proof -
  have trim: "trim_space ''::1'' = ''::1''" by code_simp
  obtain s where s: "(step demo_services io_ok ^^ 2) (conc_start tiny_app) s" "arrived s = [''::1'']"
    using tiny_steps trim by auto
  from lines_conserved [OF s(1), of False] s show ?thesis
    by (intro exI [of _ s]) (simp add: mem_defs takes_line_def)
qed

theorem concurrent_at_least_once_witness:
  "\<exists>s. (step demo_services io_ok ^^ 2) (conc_start tiny_app) s \<and>
     mset (rows_of demo_services (\<lambda>_. True) [''::1'']) \<subseteq>#
       mset (demo_rows (world (app_client (c_app s)))) +
       row_mset demo_services (\<lambda>_. True)
         (mset (buf_lines (app_buf (c_app s))) + in_flight s + mset (lost s))"
proof -
  have trim: "trim_space ''::1'' = ''::1''" by code_simp
  obtain s where s: "(step demo_services io_ok ^^ 2) (conc_start tiny_app) s" "arrived s = [''::1'']"
    using tiny_steps trim by auto
  from concurrent_at_least_once [OF demo_installed s(1), of False] s show ?thesis
    by (intro exI [of _ s]) (simp add: mem_defs takes_line_def NewClient_def)
qed

end
