(* ===== verification/Progress.thy ===== *)
theory Progress
  imports Concurrency
begin

text \<open>
  Progress of the goroutines: a flush (or any other operation under way) ends after finitely many
  steps of its own, whatever the others do in between; it is never blocked for good; and the
  program can be shut down from every state it reaches.
\<close>

section \<open>Every own step brings a goroutine closer to its end\<close>

fun phase :: "flight \<Rightarrow> nat \<times> nat" where
  "phase Idle = (0, 0)"
| "phase (Rebuffering ls) = (1, length ls)"
| "phase (Saved ls n) = (1, 0)"
| "phase ShutBuffer = (1, 0)"
| "phase (Failed ls n) = (2, 0)"
| "phase ShutClient = (2, 0)"
| "phase (Saving ls kept k) = (3, k)"
| "phase Draining = (4, 0)"
| "phase Gate = (5, 0)"
| "phase Measured = (6, 0)"
| "phase Wrote = (7, 0)"

abbreviation phase_less :: "(flight \<times> flight) set" where
  "phase_less \<equiv> inv_image (less_than <*lex*> less_than) phase"

lemma wf_phase_less: "wf phase_less"
  by (intro wf_inv_image wf_lex_prod wf_less_than)

lemma step_phase:
  assumes "step su io s t" and "flights s g \<noteq> Idle" and "flights t g \<noteq> flights s g"
  shows "(flights t g, flights s g) \<in> phase_less"
  using assms(1)
  by (cases rule: step_cases) (use assms(2,3) in \<open>auto split: if_splits\<close>)

text \<open>Only the main loop writes lines and measures the buffer.\<close>

definition roles :: "'w conc \<Rightarrow> bool" where
  "roles s \<longleftrightarrow> (\<forall>g. flights s g \<in> {Wrote, Measured} \<longrightarrow> g = MainLoop) \<and>
     (\<forall>g. flights s g \<in> {ShutClient, ShutBuffer} \<longrightarrow> closing s = Some g)"

lemma step_roles:
  assumes "step su io s t" and "roles s"
  shows "roles t"
proof -
  note s = assms(2) [unfolded roles_def]
  have "g = MainLoop" if "flights t g \<in> {Wrote, Measured}" for g
    using assms(1) that s by (cases rule: step_cases) (auto split: if_splits)
  moreover have "closing t = Some g" if "flights t g \<in> {ShutClient, ShutBuffer}" for g
  proof -
    from assms(1) that have "closing t = Some g" if "flights s g \<notin> {ShutClient, ShutBuffer}"
      by (cases rule: step_cases) (use that in \<open>auto split: if_splits\<close>)
    moreover from assms(1) have "closing t = Some g" if "closing s = Some g"
      by (cases rule: step_cases) (use that in simp_all)
    ultimately show ?thesis using s by blast
  qed
  ultimately show ?thesis by (auto simp: roles_def)
qed

lemma reachable_roles: "reachable su io a s \<Longrightarrow> roles s"
  unfolding reachable_def
  by (induction rule: rtranclp_induct) (simp add: roles_def conc_start_def, rule step_roles)

section \<open>No goroutine is blocked\<close>



lemma enabled:
  assumes "roles s" and "\<not> app_down (c_app s)" and "flights s g \<noteq> Idle"
  shows "\<exists>t f. step su io s t \<and> flights t = (flights s)(g := f) \<and> f \<noteq> flights s g"
proof (cases "flights s g")
  case Wrote
  with assms(1) have "g = MainLoop" by (simp add: roles_def)
  with step.measure [OF assms(2), of su io] Wrote show ?thesis by fastforce
next
  case Measured
  with assms(1) have "g = MainLoop" by (simp add: roles_def)
  with step.compare_len [OF assms(2), of su io] Measured show ?thesis by (fastforce split: if_splits)
next
  case Gate
  obtain ok cb where "cb_gate 0 (app_cb (c_app s)) = (ok, cb)" by fastforce
  with step.gate_open [OF assms(2) Gate, of 0 cb su io] step.gate_shut [OF assms(2) Gate, of 0 cb su io]
  show ?thesis using Gate by (cases ok) fastforce+
next
  case Draining
  obtain q b where read: "buf_ReadAll io (app_buf (c_app s)) = (q, b)" by fastforce
  show ?thesis
  proof (cases "\<exists>e. q = Inl e")
    case True
    with step.drain_error [OF assms(2) Draining] read Draining show ?thesis by fastforce
  next
    case False
    then obtain ls where q: "q = Inr ls" by (cases q) auto
    obtain kept draws where k: "filter_entries su (parse_lines su ls) (app_draws (c_app s)) = (kept, draws)"
      by fastforce
    show ?thesis
    proof (cases "ls = []")
      case True
      with step.drain_empty [OF assms(2) Draining] read q Draining show ?thesis by fastforce
    next
      case False
      from step.drain [OF assms(2) Draining read [unfolded q] False k] Draining show ?thesis
        by (fastforce split: if_splits)
    qed
  qed
next
  case (Saving ls kept k)
  show ?thesis
  proof (cases k)
    case 0
    with step.no_attempt [OF assms(2), of g ls kept su io] Saving show ?thesis by fastforce
  next
    case (Suc j)
    obtain q c where "save_attempt (s_driver su) (s_lib su) (s_cfg su) kept (app_client (c_app s)) = (q, c)"
      by fastforce
    with step.attempt_ok [OF assms(2), of g ls kept j su c io]
      step.attempt_failed [OF assms(2), of g ls kept j su _ c io] Saving Suc
    show ?thesis by (cases q) (fastforce split: if_splits)+
  qed
next
  case (Saved ls n)
  with step.record_success [OF assms(2) Saved, of su io] show ?thesis by fastforce
next
  case (Failed ls n)
  with step.record_failed [OF assms(2) Failed, of su io 0] show ?thesis by fastforce
next
  case (Rebuffering ls)
  show ?thesis
  proof (cases ls)
    case Nil
    with step.all_back [OF assms(2), of g su io] Rebuffering show ?thesis by fastforce
  next
    case (Cons l ls')
    obtain q b where "buf_Write io (app_buf (c_app s)) l = (q, b)" by fastforce
    with step.put_back [OF assms(2), of g l ls' io b su] step.put_back_full [OF assms(2), of g l ls' io _ b su]
      Rebuffering Cons
    show ?thesis by (cases q) fastforce+
  qed
next
  case ShutClient
  with step.close_buffer [OF assms(2), of g su io] show ?thesis by fastforce
next
  case ShutBuffer
  with step.exit_process [OF assms(2), of g su io] show ?thesis by fastforce
qed (use assms(3) in simp)

lemma step_stops:
  assumes "step su io s t" and "\<not> app_down (c_app s)" and "app_down (c_app t)"
  shows "\<exists>g. flights s g = ShutBuffer \<and> flights t = (flights s)(g := Idle)"
  using assms(1)
  by (cases rule: step_cases)
    (use assms(2,3) in \<open>auto simp: record_failure_def flush_saved_def Let_def\<close>)

text \<open>So every operation can be run to its end.\<close>

lemma finish:
  assumes "roles s" and "\<not> app_down (c_app s)"
  shows "\<exists>t. (step su io)\<^sup>*\<^sup>* s t \<and> flights t = (flights s)(g := Idle)"
  using assms
proof (induction "flights s g" arbitrary: s rule: wf_induct_rule [OF wf_phase_less])
  case (1 s)
  show ?case
  proof (cases "flights s g = Idle")
    case True
    then show ?thesis by (intro exI [of _ s]) auto
  next
    case False
    from enabled [OF 1(2,3) False] obtain t f where t: "step su io s t"
      "flights t = (flights s)(g := f)" "f \<noteq> flights s g" by blast
    show ?thesis
    proof (cases "app_down (c_app t)")
      case True
      from step_stops [OF t(1) 1(3) True] t(2,3) have "f = Idle" by (metis fun_upd_same fun_upd_other)
      with t show ?thesis by auto
    next
      case up: False
      from step_phase [OF t(1) False] t(2,3) have "(flights t g, flights s g) \<in> phase_less" by simp
      from 1(1) [OF this step_roles [OF t(1) 1(2)] up] obtain u
        where "(step su io)\<^sup>*\<^sup>* t u" "flights u = (flights t)(g := Idle)" by blast
      with t(1,2) show ?thesis by (auto intro: converse_rtranclp_into_rtranclp)
    qed
  qed
qed

section \<open>The program can always be stopped\<close>

lemma steps_roles: "(step su io)\<^sup>*\<^sup>* s t \<Longrightarrow> roles s \<Longrightarrow> roles t"
  by (induction rule: rtranclp_induct) (auto intro: step_roles)

lemma steps_closing: "(step su io)\<^sup>*\<^sup>* s t \<Longrightarrow> closing s = Some g \<Longrightarrow> closing t = Some g"
  by (induction rule: rtranclp_induct) (auto elim: step_cases)

lemma close_run:
  assumes "\<not> app_down (c_app s)" and "closing s = Some g" and "flights s g = Idle"
  shows "\<exists>t. (step su io)\<^sup>*\<^sup>* s t \<and> app_down (c_app t)"
proof -
  let ?t1 = "goto g ShutClient
    (upd_app (\<lambda>a. a\<lparr>app_client := snd (Close (s_driver su) (app_client a))\<rparr>) s)"
  let ?t2 = "goto g ShutBuffer (upd_app (\<lambda>a. a\<lparr>app_buf := buf_Close io (app_buf a)\<rparr>) ?t1)"
  let ?t3 = "goto g Idle (upd_app (\<lambda>a. a\<lparr>app_down := True\<rparr>) ?t2)"
  have "step su io s ?t1" by (rule step.close_client [OF assms])
  moreover have "step su io ?t1 ?t2" by (rule step.close_buffer) (use assms(1) in simp_all)
  moreover have "step su io ?t2 ?t3" by (rule step.exit_process) (use assms(1) in simp_all)
  ultimately have "(step su io)\<^sup>*\<^sup>* s ?t3"
    by (meson rtranclp.rtrancl_into_rtrancl rtranclp.rtrancl_refl)
  then show ?thesis by (intro exI [of _ ?t3]) simp
qed

lemma stop_run:
  assumes "roles s" and "\<not> app_down (c_app s)"
  shows "\<exists>t. (step su io)\<^sup>*\<^sup>* s t \<and> app_down (c_app t)"
proof -
  obtain t where t: "(step su io)\<^sup>*\<^sup>* s t" "flights t SignalHandler = Idle"
    using finish [OF assms, of su io SignalHandler] by fastforce
  have "\<exists>u. (step su io)\<^sup>*\<^sup>* t u \<and> app_down (c_app u)" if up: "\<not> app_down (c_app t)"
  proof (cases "closing t")
    case None
    from shutdown_run [OF up t(2) None, of su io "(0, 0)"] up show ?thesis
      by (auto simp: shutdown_eq Let_def)
  next
    case (Some g)
    obtain u where u: "(step su io)\<^sup>*\<^sup>* t u" "flights u g = Idle"
      using finish [OF steps_roles [OF t(1) assms(1)] up, of su io g] by fastforce
    from close_run [OF _ steps_closing [OF u(1) Some] u(2), of su io] u(1) show ?thesis
      by (meson rtranclp_trans)
  qed
  with t(1) show ?thesis by (meson rtranclp_trans)
qed

section \<open>The theorem\<close>

text \<open>
  C14. Nothing the goroutines do can block one of them or go on for ever: in every state the
  program reaches, whatever the server answers and with either buffer, each goroutine can be run
  alone to the end of its operation, the others staying where they are; no goroutine takes
  infinitely many steps within one operation, however the steps of the others fall in between; and
  from every such state there is a run that ends with the process exiting.
\<close>

theorem goroutines_progress:
  assumes "reachable su io a s" and "\<not> app_down (c_app s)"
  shows "(\<exists>t. (step su io)\<^sup>*\<^sup>* s t \<and> flights t = (flights s)(g := Idle)) \<and>
    (\<exists>t. (step su io)\<^sup>*\<^sup>* s t \<and> app_down (c_app t)) \<and>
    wf {(f', f). \<exists>s t h. step su io s t \<and> flights s h = f \<and> flights t h = f' \<and> f \<noteq> Idle \<and> f' \<noteq> f}"
proof (intro conjI)
  note roles = reachable_roles [OF assms(1)]
  show "\<exists>t. (step su io)\<^sup>*\<^sup>* s t \<and> flights t = (flights s)(g := Idle)" by (rule finish [OF roles assms(2)])
  show "\<exists>t. (step su io)\<^sup>*\<^sup>* s t \<and> app_down (c_app t)" by (rule stop_run [OF roles assms(2)])
  show "wf {(f', f). \<exists>s t h. step su io s t \<and> flights s h = f \<and> flights t h = f' \<and> f \<noteq> Idle \<and> f' \<noteq> f}"
    by (rule wf_subset [OF wf_phase_less]) (use step_phase in fastforce)
qed

theorem goroutines_progress_witness:
  "(\<exists>t. (step demo_services io_ok)\<^sup>*\<^sup>* (goto FlushLoop Gate (conc_start tiny_app)) t \<and>
     flights t = (flights (goto FlushLoop Gate (conc_start tiny_app)))(FlushLoop := Idle)) \<and>
   (\<exists>t. (step demo_services io_ok)\<^sup>*\<^sup>* (goto FlushLoop Gate (conc_start tiny_app)) t \<and>
     app_down (c_app t))"
proof -
  let ?s = "conc_start tiny_app" and ?t = "goto FlushLoop Gate (conc_start tiny_app)"
  have up: "\<not> app_down (c_app ?s)" "flights ?s FlushLoop = Idle" by (simp_all add: conc_start_def)
  have "reachable demo_services io_ok tiny_app ?t"
    by (rule reachable_step [OF reachable_init step.tick [OF up]])
  from goroutines_progress [OF this, of FlushLoop] up(1) show ?thesis by simp
qed

end
