(* ===== verification/Accounting.thy ===== *)
theory Accounting
  imports Concurrency
begin

text \<open>
  The counters the program publishes, under every interleaving of its goroutines and with either
  buffer: no line disappears from them.
\<close>

section \<open>What the counters and the flushes in progress account for\<close>

definition counted :: "metrics \<Rightarrow> int" where
  "counted m = linesProcessed m + linesNotProcessed m + parseErrors m + linesFiltered m"

text \<open>The entries of a batch whose outcome has not been counted yet.\<close>

fun uncounted :: "flight \<Rightarrow> int" where
  "uncounted (Saving ls kept k) = int (length kept)"
| "uncounted (Saved ls n) = int n"
| "uncounted (Failed ls n) = int n"
| "uncounted _ = 0"

definition all_uncounted :: "'w conc \<Rightarrow> int" where
  "all_uncounted s = uncounted (flights s MainLoop) + uncounted (flights s FlushLoop) +
     uncounted (flights s SignalHandler)"

definition balance :: "'w conc \<Rightarrow> int" where
  "balance s = counted (app_metrics (c_app s)) + int (length (buf_lines (app_buf (c_app s)))) +
     all_uncounted s"

lemma all_uncounted_simps [simp]:
  "all_uncounted (s\<lparr>c_app := a\<rparr>) = all_uncounted s"
  "all_uncounted (s\<lparr>closing := c\<rparr>) = all_uncounted s"
  "all_uncounted (s\<lparr>arrived := x\<rparr>) = all_uncounted s"
  "all_uncounted (s\<lparr>ended := x\<rparr>) = all_uncounted s"
  "all_uncounted (s\<lparr>lost := x\<rparr>) = all_uncounted s"
  by (simp_all add: all_uncounted_def)

lemma all_uncounted_goto:
  "all_uncounted (goto g f s) = all_uncounted s - uncounted (flights s g) + uncounted f"
  by (cases g) (simp_all add: all_uncounted_def)

lemma counted_simps [simp]:
  "counted (m\<lparr>linesRead := x\<rparr>) = counted m" "counted (m\<lparr>bufferSize := x\<rparr>) = counted m"
  "counted (m\<lparr>cbRejections := x\<rparr>) = counted m" "counted (m\<lparr>clickhouseUp := x\<rparr>) = counted m"
  "counted (updateCBState cb m) = counted m"
  "counted (m\<lparr>linesNotProcessed := x\<rparr>) = counted m + (x - linesNotProcessed m)"
  "counted (m\<lparr>linesProcessed := x\<rparr>) = counted m + (x - linesProcessed m)"
  by (simp_all add: counted_def)

text \<open>A drained batch: every line is a parse error, filtered, or an entry still to be counted.\<close>

lemma counted_batch:
  assumes "length kept \<le> length es" and "length es \<le> length ls"
  shows "counted (batch_counts ls es kept m) + int (length kept) = counted m + int (length ls)"
    and "linesRead (batch_counts ls es kept m) = linesRead m"
  using assms by (simp_all add: batch_counts_def Let_def counted_def)

lemma counted_outcomes:
  "counted (app_metrics (flush_saved n a)) = counted (app_metrics a) + int n"
  "counted (app_metrics (record_failure now n a)) = counted (app_metrics a) + int n"
  "linesRead (app_metrics (flush_saved n a)) = linesRead (app_metrics a)"
  "linesRead (app_metrics (record_failure now n a)) = linesRead (app_metrics a)"
  "app_buf (flush_saved n a) = app_buf a" "app_buf (record_failure now n a) = app_buf a"
  by (simp_all add: flush_saved_def record_failure_def Let_def)

section \<open>Steps\<close>

lemma step_balance:
  assumes "step su io s t" and "parser_ok su" and "conserved io on_disk (Suc n) base s"
    and "\<forall>l\<in>set base \<union> set (arrived t). takes_line on_disk l \<and> nl \<notin> set l"
  shows "linesRead (app_metrics (c_app t)) - int (length (arrived t)) =
      linesRead (app_metrics (c_app s)) - int (length (arrived s)) \<and>
    balance s + int (length (arrived t)) \<le> balance t + int (length (arrived s))"
proof -
  have room: "buf_room io on_disk (Suc n) (app_buf (c_app s))"
    using assms(3) by (simp add: conserved_def)
  have cons: "set (buf_lines (app_buf (c_app s))) \<subseteq> set base \<union> set (arrived s)"
  proof -
    have "set_mset (mset base + mset (arrived s)) = set_mset (mset (buf_lines (app_buf (c_app s))) +
        in_flight s + mset (ended s) + mset (lost s))"
      using assms(3) by (simp add: conserved_def)
    then show ?thesis by auto
  qed
  show ?thesis
    using assms(1)
  proof (cases rule: step_cases)
    case (accept l b)
    have "takes_line on_disk (trim_space l)" using assms(4) accept(1) by simp
    from room_write(2) [OF room this accept(5)] accept(1,3) show ?thesis
      by (simp add: balance_def all_uncounted_goto)
  next
    case (reject l e b)
    have "takes_line on_disk (trim_space l)" using assms(4) reject(1) by simp
    from room_write(3) [OF room this reject(5)] reject(1) show ?thesis by (simp add: balance_def)
  next
    case (drain_error g e b)
    from room_drain [OF room] drain_error(4) show ?thesis by auto
  next
    case (drain_empty g b)
    from room_drain [OF room] drain_empty(4) drain_empty(1,3) show ?thesis
      by (simp add: balance_def all_uncounted_goto)
  next
    case (drain g ls b kept draws)
    have b: "ls = buf_lines (app_buf (c_app s))" "buf_lines b = []"
      using room_drain [OF room] drain(4) by auto
    have "arrived t = arrived s" using drain(1) by simp
    then have "length (parse_lines su ls) \<le> length ls"
      using cons assms(4) b(1) by (intro parse_lines_length [OF assms(2)]) auto
    moreover have "length kept \<le> length (parse_lines su ls)"
      using kept_length [of su ls "c_app s"] drain(6) by (simp add: kept_of_def)
    ultimately have
      "counted (batch_counts ls (parse_lines su ls) kept (app_metrics (c_app s))) + int (length kept) =
        counted (app_metrics (c_app s)) + int (length ls)"
      "linesRead (batch_counts ls (parse_lines su ls) kept (app_metrics (c_app s))) =
        linesRead (app_metrics (c_app s))"
      by (simp_all add: counted_batch)
    then show ?thesis
      using drain(1,3) b by (auto simp: balance_def all_uncounted_goto)
  next
    case (put_back g l ls b)
    have "takes_line on_disk l"
      using conserved_held [OF assms(3) put_back(3)] assms(4) put_back(1) by simp
    from room_write(2) [OF room this put_back(4)] put_back(1,3) show ?thesis
      by (simp add: balance_def all_uncounted_goto)
  next
    case (put_back_full g l ls e b)
    have "takes_line on_disk l"
      using conserved_held [OF assms(3) put_back_full(3)] assms(4) put_back_full(1) by simp
    from room_write(3) [OF room this put_back_full(4)] put_back_full(1,3) show ?thesis
      by (simp add: balance_def all_uncounted_goto)
  next
    case (close_buffer g)
    from room_close [OF room] close_buffer show ?thesis by (simp add: balance_def all_uncounted_goto)
  qed (simp_all add: balance_def all_uncounted_goto counted_outcomes)
qed

lemma run_balance:
  assumes "(step su io ^^ n) s t" and "parser_ok su" and "conserved io on_disk (n + m) base s"
    and "\<forall>l\<in>set base \<union> set (arrived t). takes_line on_disk l \<and> nl \<notin> set l"
  shows "linesRead (app_metrics (c_app t)) - int (length (arrived t)) =
      linesRead (app_metrics (c_app s)) - int (length (arrived s)) \<and>
    balance s + int (length (arrived t)) \<le> balance t + int (length (arrived s))"
  using assms(1,3,4)
proof (induction n arbitrary: t m)
  case (Suc n)
  from Suc.prems(1) obtain u where u: "(step su io ^^ n) s u" "step su io u t" by auto
  obtain ls where "arrived t = arrived u @ ls" using step_arrived [OF u(2)] by blast
  then have lines: "\<forall>l\<in>set base \<union> set (arrived u). takes_line on_disk l \<and> nl \<notin> set l"
    using Suc.prems(3) by auto
  then have "conserved io on_disk (Suc m) base u"
    using run_conserved [OF u(1), of on_disk "Suc m" base] Suc.prems(2) by simp
  from step_balance [OF u(2) assms(2) this Suc.prems(3)] Suc.IH [OF u(1), of "Suc m"] Suc.prems(2) lines
  show ?case by simp
qed simp

section \<open>The theorem\<close>

text \<open>
  C24. After any number of critical sections of the goroutines in any order, with either buffer and
  whatever the server does, the counter of lines read has grown by exactly the number of lines
  read, and every line that was buffered or has been read is accounted for: the lines processed,
  not processed, unparsable and filtered, together with those in the buffer and the entries of
  flushes in progress, are at least as many.  (They can be more, since a line that is written back
  and tried again is counted for each attempt.)
\<close>

theorem counters_account_for_lines:
  assumes "parser_ok su" and "(step su io ^^ n) (conc_start a) s" and "buf_room io on_disk n (app_buf a)"
    and "\<forall>l\<in>set (buf_lines (app_buf a) @ arrived s). takes_line on_disk l \<and> nl \<notin> set l"
  shows "linesRead (app_metrics (c_app s)) = linesRead (app_metrics a) + int (length (arrived s)) \<and>
    counted (app_metrics a) + int (length (buf_lines (app_buf a) @ arrived s)) \<le>
      counted (app_metrics (c_app s)) + int (length (buf_lines (app_buf (c_app s)))) + all_uncounted s"
proof -
  have "conserved io on_disk (n + 0) (buf_lines (app_buf a)) (conc_start a)"
    using conserved_start [OF assms(3)] by simp
  from run_balance [OF assms(2,1) this] assms(4) show ?thesis
    by (auto simp: balance_def conc_start_def all_uncounted_def)
qed

theorem counters_account_for_lines_witness:
  "\<exists>s. (step demo_services io_ok ^^ 2) (conc_start tiny_app) s \<and>
     linesRead (app_metrics (c_app s)) = 1 \<and>
     1 \<le> counted (app_metrics (c_app s)) + int (length (buf_lines (app_buf (c_app s)))) + all_uncounted s"
proof -
  have trim: "trim_space ''::1'' = ''::1''" by code_simp
  obtain s where s: "(step demo_services io_ok ^^ 2) (conc_start tiny_app) s" "arrived s = [''::1'']"
    using tiny_steps trim by auto
  have "parser_ok demo_services" by (simp add: parser_ok_def demo_services_def)
  moreover have "buf_room io_ok False 2 (app_buf tiny_app)" by (simp add: mem_defs)
  moreover have "\<forall>l\<in>set (buf_lines (app_buf tiny_app) @ arrived s). takes_line False l \<and> nl \<notin> set l"
    using s(2) by (simp add: takes_line_def)
  ultimately have "linesRead (app_metrics (c_app s)) = linesRead (app_metrics tiny_app) + int (length (arrived s)) \<and>
    counted (app_metrics tiny_app) + int (length (buf_lines (app_buf tiny_app) @ arrived s)) \<le>
      counted (app_metrics (c_app s)) + int (length (buf_lines (app_buf (c_app s)))) + all_uncounted s"
    using counters_account_for_lines [where su = demo_services and io = io_ok and n = 2 and a = tiny_app and s = s and on_disk = False] s(1) by blast
  moreover have "app_metrics tiny_app = metrics0" by (simp add: tiny_app_def)
  ultimately show ?thesis
    using s by (intro exI [of _ s]) (simp add: metrics0_def counted_def)
qed

end
