(* ===== verification/ExactlyOnce.thy ===== *)
theory ExactlyOnce
  imports Concurrency
begin

text \<open>
  Where the duplicates of at-least-once delivery come from: only from a \<open>Send\<close> that reports an error
  after it has stored rows.  With a server whose failed inserts store nothing, every interleaving
  of the goroutines delivers exactly once.
\<close>

section \<open>A server whose failed inserts store nothing\<close>

definition driver_atomic :: "('w, 'e) driver \<Rightarrow> ('w \<Rightarrow> go_val list list) \<Rightarrow> bool" where
  "driver_atomic drv stored \<longleftrightarrow>
     (\<forall>b w. fst (Send drv b w) \<noteq> None \<longrightarrow> stored (snd (Send drv b w)) = stored w)"

lemma failed_attempt_stores_nothing:
  assumes "driver_ok drv stored pending acc" and "driver_atomic drv stored"
    and "save_attempt drv lib cfg entries c = (Some e, c')"
  shows "stored (world c') = stored (world c)"
proof (cases "connect drv (ClickHouse cfg) c")
  case (Pair r c1)
  note ok = assms(1)
  have c1: "stored (world c1) = stored (world c)"
    using connect_stored [OF ok, of "ClickHouse cfg" c] Pair by simp
  let ?st = "if UseServerSideBatching (ClickHouse cfg) then async_settings else []"
  obtain p w1 where prep:
    "PrepareBatch drv (the (conn c1)) ?st (insert_query (ClickHouse cfg)) (world c1) = (p, w1)"
    by fastforce
  have w1: "stored w1 = stored (world c)"
    using c1 prep driver_okD(4) [OF ok] by (metis snd_conv)
  show ?thesis
  proof (cases r)
    case (Some e')
    with assms(3) Pair have "c' = resetConn drv c1" by (auto simp: save_attempt_def)
    then show ?thesis using c1 by (simp add: resetConn_stored [OF ok])
  next
    case None
    show ?thesis
    proof (cases p)
      case (Inl e')
      with assms(3) Pair None prep have "c' = resetConn drv (c1\<lparr>world := w1\<rparr>)"
        by (auto simp: save_attempt_def)
      then show ?thesis using w1 by (simp add: resetConn_stored [OF ok])
    next
      case (Inr b)
      let ?w = "append_rows drv b (batch_rows lib cfg entries) w1"
      from Inr assms(3) Pair None prep obtain e' w2 where send: "Send drv b ?w = (Some e', w2)"
        and c': "c' = resetConn drv (c1\<lparr>world := w2\<rparr>)"
        by (auto simp: save_attempt_def split: prod.splits option.splits)
      have "stored w2 = stored ?w"
        using assms(2) send unfolding driver_atomic_def by (metis fst_conv option.distinct(1) snd_conv)
      then show ?thesis using w1 c' by (simp add: resetConn_stored [OF ok] append_rows_stored [OF ok])
    qed
  qed
qed

section \<open>The table and the lines under every interleaving\<close>

text \<open>The lines a flush in progress holds that are not in the table.\<close>

fun unsaved_lines :: "flight \<Rightarrow> string list" where
  "unsaved_lines (Saved ls n) = []"
| "unsaved_lines f = held_lines f"

lemma held_split: "over held_lines s = over saved_lines s + over unsaved_lines s"
proof -
  have "mset (held_lines f) = mset (saved_lines f) + mset (unsaved_lines f)" for f by (cases f) simp_all
  then show ?thesis by (simp add: over_def ac_simps)
qed

lemma failure_keeps_table:
  assumes "installed su stored pending acc" and "driver_atomic (s_driver su) stored"
  shows "failure_keeps (=) su stored"
  using failed_attempt_stores_nothing [OF _ assms(2)] assms(1)
  unfolding failure_keeps_def installed_def by metis

section \<open>The theorem\<close>

text \<open>
  C11. Exactly once, when a failed insert stores nothing: after any number of critical sections of the
  goroutines in any order, with either buffer, however often saves fail and are retried and
  whatever is written back, the table holds precisely what it held before and, once each, the rows
  of the lines that were buffered or have been read, less those of the lines that are in the
  buffer, in an unsaved batch of a flush in progress, or were rejected by the buffer.  In
  particular nothing is stored twice and nothing is made up.
\<close>

theorem exactly_once:
  assumes "installed su stored pending acc" and "driver_atomic (s_driver su) stored"
    and "(step su io ^^ n) (conc_start a) s" and "buf_room io on_disk n (app_buf a)"
    and "\<forall>l\<in>set (buf_lines (app_buf a) @ arrived s). takes_line on_disk l"
  shows "mset (stored (world (app_client a))) +
      mset (rows_of su acc (buf_lines (app_buf a) @ arrived s)) =
    mset (stored (world (app_client (c_app s)))) +
      row_mset su acc (mset (buf_lines (app_buf (c_app s))) + over unsaved_lines s + mset (lost s))"
proof -
  have "conserved io on_disk (n + 0) (buf_lines (app_buf a)) (conc_start a)"
    using conserved_start [OF assms(4)] by simp
  from run_conserved [OF assms(3) this] assms(5)
  have "mset (buf_lines (app_buf a) @ arrived s) =
      mset (buf_lines (app_buf (c_app s))) + in_flight s + mset (ended s) + mset (lost s)"
    by (auto simp: conserved_def)
  then have "row_mset su acc (mset (buf_lines (app_buf a) @ arrived s)) = row_mset su acc
      (mset (buf_lines (app_buf (c_app s))) + in_flight s + mset (ended s) + mset (lost s))"
    by (rule arg_cong)
  moreover have "mset (stored (world (app_client (c_app s)))) = mset (stored (world (app_client a))) +
      mset (rows_of su acc (ended s)) + row_mset su acc (over saved_lines s)"
    using run_delivered [OF row_orders(2) failure_keeps_table [OF assms(1,2)] assms(1,3)]
    by (simp add: delivered_def)
  ultimately show ?thesis
    unfolding row_mset_mset row_mset_simps held_split by (simp only: ac_simps)
qed

theorem exactly_once_witness:
  "\<exists>s. (step demo_services io_ok ^^ 2) (conc_start tiny_app) s \<and>
     mset (rows_of demo_services (\<lambda>_. True) [''::1'']) =
       mset (demo_rows (world (app_client (c_app s)))) + row_mset demo_services (\<lambda>_. True)
         (mset (buf_lines (app_buf (c_app s))) + over unsaved_lines s + mset (lost s))"
proof -
  have trim: "trim_space ''::1'' = ''::1''" by code_simp
  obtain s where s: "(step demo_services io_ok ^^ 2) (conc_start tiny_app) s" "arrived s = [''::1'']"
    using tiny_steps trim by auto
  have "driver_atomic (s_driver demo_services) demo_rows"
    by (simp add: driver_atomic_def demo_services_def demo_driver_def)
  moreover have "buf_room io_ok False 2 (app_buf tiny_app)" by (simp add: mem_defs)
  moreover have "\<forall>l\<in>set (buf_lines (app_buf tiny_app) @ arrived s). takes_line False l"
    by (simp add: takes_line_def)
  ultimately have "mset (demo_rows (world (app_client tiny_app))) +
      mset (rows_of demo_services (\<lambda>_. True) (buf_lines (app_buf tiny_app) @ arrived s)) =
    mset (demo_rows (world (app_client (c_app s)))) + row_mset demo_services (\<lambda>_. True)
      (mset (buf_lines (app_buf (c_app s))) + over unsaved_lines s + mset (lost s))"
    using exactly_once [OF demo_installed _ s(1)] by blast
  then show ?thesis using s by (intro exI [of _ s]) (simp add: NewClient_def)
qed

end
