(* ===== verification/Crash.thy ===== *)
theory Crash
  imports Concurrency Startup
begin

text \<open>
  Crashes at any point of a concurrent run with a disk buffer: what a restart on the segments
  recovers, and what exactly is at risk.
\<close>

text \<open>
  C6. The program, with a disk buffer, is killed after any number of critical sections of its
  goroutines, in the middle of flushes or of the shutdown, while the server does what it likes;
  only the segment directory and the table are left.  A start on that directory against an
  answering server drains it, and then every row stored before the session and every row of a line
  that was buffered or read in it is in the table, with multiplicity, unless its line was in a batch
  taken by a flush still under way, or had been rejected by the buffer.  (The rows of the lines
  in the directory fit the table; \<open>fits\<close> may be true everywhere.)
\<close>

theorem crash_anywhere_recovers:
  assumes "installed su stored pending acc"
    and "driver_up (s_driver su) (ClickHouse (s_cfg su)) fits up"
    and "BufferType (BufferCfg (Settings (s_cfg su))) = ''disk''"
    and "(step su io_ok ^^ n) (conc_start a) s" and "buf_room io_ok True n (app_buf a)"
    and "\<forall>l\<in>set (buf_lines (app_buf a) @ arrived s). takes_line True l"
    and "app_buf (c_app s) = Disk k" and "up (world (app_client (c_app s)))"
    and "sendable su fits (disk_lines k)"
  shows "\<exists>a'. launch io_ok (dir k) (world (app_client (c_app s))) draws su = Inr a' \<and>
    buf_lines (app_buf a') = [] \<and>
    mset (stored (world (app_client a))) +
      mset (rows_of su acc (buf_lines (app_buf a) @ arrived s)) \<subseteq>#
    mset (stored (world (app_client a'))) + row_mset su acc (in_flight s + mset (lost s))"
proof -
  have "conserved io_ok True (n + 0) (buf_lines (app_buf a)) (conc_start a)"
    using conserved_start [OF assms(5)] by simp
  from run_conserved [OF assms(4) this] assms(6) have
    "conserved io_ok True 0 (buf_lines (app_buf a)) s" by auto
  then have inv: "disk_inv k" using assms(7) by (simp add: conserved_def disk_tight_def)
  have safe: "mset (stored (world (app_client a))) +
      mset (rows_of su acc (buf_lines (app_buf a) @ arrived s)) \<subseteq>#
    mset (stored (world (app_client (c_app s)))) +
      row_mset su acc (mset (disk_lines k) + in_flight s + mset (lost s))"
    using at_least_once_everywhere [OF assms(1,4,5,6)] assms(7) by simp
  from restart_delivers [OF assms(1-3) inv assms(8,9), of draws] obtain a' where
    "launch io_ok (dir k) (world (app_client (c_app s))) draws su = Inr a'" "buf_lines (app_buf a') = []"
    "mset (stored (world (app_client a'))) =
      mset (stored (world (app_client (c_app s)))) + mset (rows_of su acc (disk_lines k))"
    by blast
  with safe show ?thesis by (intro exI [of _ a']) (simp add: ac_simps)
qed

theorem crash_anywhere_recovers_witness:
  "\<exists>s k a'. reachable demo_disk_services io_ok ((demo_app 0 None [])\<lparr>app_buf := Disk (disk_empty 0)\<rparr>) s \<and>
     app_buf (c_app s) = Disk k \<and>
     launch io_ok (dir k) (world (app_client (c_app s))) (sconst 0) demo_disk_services = Inr a' \<and>
     mset (rows_of demo_disk_services (\<lambda>_. True) [''::1'']) \<subseteq># mset (demo_rows (world (app_client a')))"
proof -
  let ?a = "(demo_app 0 None [])\<lparr>app_buf := Disk (disk_empty 0)\<rparr>"
  have trim: "trim_space ''::1'' = ''::1''" by code_simp
  have plain: "plain_line maxScanTokenSize ''::1''"
    by (simp add: plain_line_def maxScanTokenSize_def has_suffix_def)
  then have "disk_fits (disk_empty 0) ''::1''"
    by (simp add: disk_fits_def disk_okw_def disk_empty_def)
  from disk.write_fits [OF disk_inv_empty this] obtain k where
    k: "disk_Write io_ok (disk_empty 0) ''::1'' = (None, k)"
    by metis
  have empty: "disk_lines (disk_empty 0) = []" by (simp add: disk_empty_def disk_lines_def segs_def)
  let ?s0 = "conc_start ?a"
  let ?t = "goto MainLoop Wrote (?s0
      \<lparr>c_app := upd_metrics (\<lambda>m. m\<lparr>linesRead := linesRead m + 1\<rparr>) ((c_app ?s0)\<lparr>app_buf := Disk k\<rparr>),
       arrived := arrived ?s0 @ [trim_space ''::1'']\<rparr>)"
  have st: "step demo_disk_services io_ok ?s0 ?t"
    using step.accept [of ?s0 io_ok "''::1''" "Disk k" demo_disk_services] k trim
    by (simp add: conc_start_def demo_app_def)
  then have run: "(step demo_disk_services io_ok ^^ 1) ?s0 ?t" unfolding relpowp_1 .
  have s: "app_buf (c_app ?t) = Disk k" "arrived ?t = [''::1'']" "in_flight ?t = {#}" "lost ?t = []"
    "demo_down (world (app_client (c_app ?t))) = 0"
    using trim by (simp_all add: conc_start_def over_def NewClient_def)
  have room: "buf_room io_ok True 1 (app_buf ?a)"
    using disk_tight_empty [of 0] empty by (simp add: disk_empty_def)
  have short: "\<forall>l\<in>set (buf_lines (app_buf ?a) @ arrived ?t). takes_line True l"
    using plain empty s(2) by (simp add: takes_line_def)
  from crash_anywhere_recovers [OF demo_disk_installed(1-3) run room short s(1) s(5) sendable_any, of "sconst 0"]
  obtain a' where "launch io_ok (dir k) (world (app_client (c_app ?t))) (sconst 0) demo_disk_services = Inr a'"
    "mset (demo_rows (world (app_client ?a))) + mset (rows_of demo_disk_services (\<lambda>_. True)
        (buf_lines (app_buf ?a) @ arrived ?t)) \<subseteq>#
     mset (demo_rows (world (app_client a'))) +
       row_mset demo_disk_services (\<lambda>_. True) (in_flight ?t + mset (lost ?t))"
    by blast
  moreover from this(2) have "mset (rows_of demo_disk_services (\<lambda>_. True) [''::1'']) \<subseteq>#
      mset (demo_rows (world (app_client a')))"
    using s(2-4) empty by (simp add: NewClient_def)
  moreover have "reachable demo_disk_services io_ok ?a ?t" using st by (rule reachable_step [OF reachable_init])
  ultimately show ?thesis using s(1) by blast
qed

text \<open>
  C38. A flush puts its whole batch at risk: before it saves anything, \<open>flush\<close> (here the timer's) has
  deleted the segments.  From a state with a well-formed disk buffer whose lines yield entries, and a breaker
  that lets the flush through, the run of the flush comes to a state in which the save of those
  lines is still to be made, nothing has been sent yet, and the directory is empty: a process
  that starts on what is left then recovers no line and sends nothing.  (Left alone, the run goes on to the
  end of that flush.)
\<close>

theorem crash_in_flush_loses_lines:
  assumes "app_buf a = Disk k" and "disk_inv k" and "disk_lines k \<noteq> []"
    and "BufferType (BufferCfg (Settings (s_cfg su))) = ''disk''" and "\<not> app_down a"
    and "fst (cb_gate (fst now) (app_cb a))" and "kept_of su (disk_lines k) a \<noteq> []"
  shows "\<exists>s t k' a'. reachable su io_ok a s \<and>
    flights s FlushLoop = Saving (disk_lines k) (kept_of su (disk_lines k) a) (attempts su) \<and>
    app_client (c_app s) = app_client a \<and> app_buf (c_app s) = Disk k' \<and> segs (dir k') = [] \<and>
    launch io_ok (dir k') w draws su = Inr a' \<and> buf_lines (app_buf a') = [] \<and>
    app_client a' = NewClient w \<and>
    (step su io_ok)\<^sup>*\<^sup>* s t \<and> c_app t = flush su io_ok now a"
proof -
  obtain k' where k': "disk_ReadAll io_ok k = (Inr (disk_lines k), k')" "disk_inv k'"
    "disk_lines k' = []" "segs (dir k') = []"
    using disk_ReadAll_step [OF assms(2)] by auto
  let ?s = "goto FlushLoop Gate (conc_start a)"
  have tick: "step su io_ok (conc_start a) ?s"
    by (rule step.tick) (use assms(5) in \<open>simp_all add: conc_start_def\<close>)
  have "buf_ReadAll io_ok (app_buf a) = (Inr (disk_lines k), Disk k')" using assms(1) k'(1) by simp
  from flush_reaches_save [of ?s FlushLoop now io_ok "disk_lines k" "Disk k'" su] this assms(3,5-7)
  obtain s t where s: "(step su io_ok)\<^sup>*\<^sup>* ?s s"
    "flights s FlushLoop = Saving (disk_lines k) (kept_of su (disk_lines k) a) (attempts su)"
    "app_client (c_app s) = app_client a" "app_buf (c_app s) = Disk k'"
    and t: "ran su io_ok FlushLoop s (flush su io_ok now a) t"
    by (auto simp: conc_start_def)
  have "reachable su io_ok a s" using tick s(1) by (auto simp: reachable_def intro: converse_rtranclp_into_rtranclp)
  moreover obtain a' where "launch io_ok (dir k') w draws su = Inr a'" "buf_lines (app_buf a') = []"
    "app_client a' = NewClient w"
    using launch_disk [OF k'(2) assms(4), of w draws] k'(3) by (auto simp: replay_def)
  ultimately show ?thesis using s t k'(4) by (auto simp: ran_def)
qed

theorem crash_in_flush_loses_lines_witness:
  "\<exists>k s k' a'. disk_lines k = [''::1''] \<and>
     reachable demo_disk_services io_ok ((demo_app 0 None [])\<lparr>app_buf := Disk k\<rparr>) s \<and>
     app_buf (c_app s) = Disk k' \<and> app_client (c_app s) = NewClient demo_w \<and>
     launch io_ok (dir k') demo_w (sconst 0) demo_disk_services = Inr a' \<and>
     buf_lines (app_buf a') = [] \<and> app_client a' = NewClient demo_w"
proof -
  obtain k where k: "disk_inv k" "disk_lines k = [''::1'']" using demo_disk by blast
  let ?a = "(demo_app 0 None [])\<lparr>app_buf := Disk k\<rparr>"
  have "kept_of demo_disk_services [''::1''] ?a \<noteq> []"
    by (simp add: kept_of_def demo_disk_services_def demo_services_def parse_lines_def
        filter_entries_def ParseJSONLogs_def)
  moreover have a: "app_buf ?a = Disk k" "\<not> app_down ?a" "fst (cb_gate (fst (0, 0)) (app_cb ?a))"
    by (simp_all add: demo_app_def cb_gate_def)
  ultimately obtain s t k' a' where
    "reachable demo_disk_services io_ok ?a s \<and> app_client (c_app s) = app_client ?a \<and>
     app_buf (c_app s) = Disk k' \<and> launch io_ok (dir k') demo_w (sconst 0) demo_disk_services = Inr a' \<and>
     buf_lines (app_buf a') = [] \<and> app_client a' = NewClient demo_w"
    using crash_in_flush_loses_lines [OF a(1) k(1) _ demo_disk_installed(3) a(2,3), of demo_w "sconst 0"] k(2)
    by auto
  moreover have "app_client ?a = NewClient demo_w" by (simp add: demo_w_def)
  ultimately show ?thesis using k(2) by metis
qed

end
