(* ===== verification/UserAgent.thy ===== *)
theory UserAgent
  imports Clickhouse "HOL-Library.Monad_Syntax"
begin

text \<open>
  The user-agent parser of \<open>clickhouse/clickhouse.go\<close> as the code has it: a package variable, created
  on first use (\<open>sync.Once\<close>), a sharded cache whose statistics are copied to counters after each
  insert.  Theory Clickhouse takes the parser as a pure function; here an attempt of \<open>Save\<close> runs
  with the cache, and is shown to do the same to the client and the table.  The cache is a
  library: its type and functions are parameters.  A result \<^const>\<open>None\<close> is \<open>logrus.Fatal\<close>.
\<close>

section \<open>The parser and its statistics\<close>

text \<open>
  The library \<open>uax\<close>: \<open>NewParser\<close> with \<open>NewShardedCache\<close> (which may fail), \<open>ParseString\<close> on a cache
  (the flag tells whether the hook after a parse has run), and \<open>Stats\<close> (hits, misses).
\<close>

record 'c ua_lib =
  NewCache :: "'c option"
  CacheParse :: "'c \<Rightarrow> string \<Rightarrow> ua_result \<times> bool \<times> 'c"
  CacheStats :: "'c \<Rightarrow> int \<times> int"

text \<open>The package variables and the Prometheus counters; \<open>uaParses\<close> counts the observed durations.\<close>

record 'c ua_state =
  uaParser :: "'c option"
  uaLastStats :: "int \<times> int"
  uaCacheHits :: int
  uaCacheMisses :: int
  uaBotTotal :: int
  uaParses :: int

definition ua_start :: "'c ua_state" where
  "ua_start =
     \<lparr>uaParser = None, uaLastStats = (0, 0), uaCacheHits = 0, uaCacheMisses = 0, uaBotTotal = 0,
      uaParses = 0\<rparr>"

definition getUAParser :: "'c ua_lib \<Rightarrow> 'c ua_state \<Rightarrow> ('c \<times> 'c ua_state) option" where
  "getUAParser ul st =
     (case uaParser st of
        Some c \<Rightarrow> Some (c, st)
      | None \<Rightarrow> do { c \<leftarrow> NewCache ul; Some (c, st\<lparr>uaParser := Some c\<rparr>) })"

text \<open>The hook: the duration is observed, bots are counted.\<close>

definition post_parse :: "ua_result \<Rightarrow> 'c ua_state \<Rightarrow> 'c ua_state" where
  "post_parse r st =
     st\<lparr>uaParses := uaParses st + 1, uaBotTotal := uaBotTotal st + (if IsBot r then 1 else 0)\<rparr>"

definition parseUA_cached :: "'c ua_lib \<Rightarrow> row_lib \<Rightarrow> log_entry \<Rightarrow> 'c ua_state \<Rightarrow>
    (ua_result \<times> 'c ua_state) option" where
  "parseUA_cached ul lib entry st =
     (case entry ''http_user_agent'' of
        None \<Rightarrow> Some (ua_zero lib, st)
      | Some ua \<Rightarrow>
          if ua = [] \<or> ua = ''-'' then Some (ua_zero lib, st)
          else do {
            (c, st) \<leftarrow> getUAParser ul st;
            let (r, hooked, c') = CacheParse ul c ua;
            let st = st\<lparr>uaParser := Some c'\<rparr>;
            Some (r, if hooked then post_parse r st else st) })"

definition updateUACacheMetrics :: "'c ua_lib \<Rightarrow> 'c ua_state \<Rightarrow> 'c ua_state" where
  "updateUACacheMetrics ul st =
     (case uaParser st of
        None \<Rightarrow> st
      | Some c \<Rightarrow>
          (let (hits, misses) = CacheStats ul c;
               dh = hits - fst (uaLastStats st);
               dm = misses - snd (uaLastStats st) in
           st\<lparr>uaCacheHits := uaCacheHits st + (if dh > 0 then dh else 0),
              uaCacheMisses := uaCacheMisses st + (if dm > 0 then dm else 0),
              uaLastStats := (hits, misses)\<rparr>))"

section \<open>Rows and attempts with the cache\<close>

text \<open>The enrichments that call \<open>parseUA\<close>, and what they take of its result.\<close>

definition reads_ua :: "string \<Rightarrow> bool" where
  "reads_ua field \<longleftrightarrow> field \<in> {''_is_bot'', ''_bot_name'', ''_bot_class'', ''_browser'',
     ''_browser_version'', ''_os'', ''_device_type''}"

definition ua_cell :: "string \<Rightarrow> ua_result \<Rightarrow> string" where
  "ua_cell field r =
     (if field = ''_is_bot'' then (if IsBot r then ''1'' else ''0'')
      else if field = ''_bot_name'' then BotName r
      else if field = ''_bot_class'' then BotClass r
      else if field = ''_browser'' then BrowserName r
      else if field = ''_browser_version'' then BrowserMajor r
      else if field = ''_os'' then OSName r
      else DeviceClass r)"

definition field_of :: "(string \<times> string) list \<Rightarrow> string \<Rightarrow> string" where
  "field_of columns col = (case map_of columns col of None \<Rightarrow> [] | Some f \<Rightarrow> f)"

definition cell_cached :: "'c ua_lib \<Rightarrow> row_lib \<Rightarrow> (string \<times> string) list \<Rightarrow> log_entry \<Rightarrow>
    EnrichmentConfig \<Rightarrow> string \<Rightarrow> 'c ua_state \<Rightarrow> (go_val \<times> 'c ua_state) option" where
  "cell_cached ul lib columns entry e col st =
     (if reads_ua (field_of columns col)
      then do { (r, st) \<leftarrow> parseUA_cached ul lib entry st;
                Some (VStr (ua_cell (field_of columns col) r), st) }
      else Some (buildCell lib columns entry e col, st))"

fun row_cached :: "'c ua_lib \<Rightarrow> row_lib \<Rightarrow> (string \<times> string) list \<Rightarrow> log_entry \<Rightarrow>
    EnrichmentConfig \<Rightarrow> string list \<Rightarrow> 'c ua_state \<Rightarrow> (go_val list \<times> 'c ua_state) option" where
  "row_cached ul lib columns entry e [] st = Some ([], st)"
| "row_cached ul lib columns entry e (col # keys) st = do {
     (v, st) \<leftarrow> cell_cached ul lib columns entry e col st;
     (row, st) \<leftarrow> row_cached ul lib columns entry e keys st;
     Some (v # row, st) }"

fun append_cached :: "('w, 'e) driver \<Rightarrow> 'c ua_lib \<Rightarrow> row_lib \<Rightarrow> Config \<Rightarrow> nat \<Rightarrow> log_entry list \<Rightarrow>
    'w \<Rightarrow> 'c ua_state \<Rightarrow> ('w \<times> 'c ua_state) option" where
  "append_cached drv ul lib cfg b [] w st = Some (w, st)"
| "append_cached drv ul lib cfg b (entry # entries) w st = do {
     (row, st) \<leftarrow> row_cached ul lib (Columns (ClickHouse cfg)) entry (Enrichments (Settings cfg))
       (sorted_columns (Columns (ClickHouse cfg))) st;
     append_cached drv ul lib cfg b entries (snd (Append drv b row w)) st }"

text \<open>The callback of \<open>Save\<close>, as \<^const>\<open>save_attempt\<close>, with the statistics copied at its end.\<close>

definition attempt_cached :: "('w, 'e) driver \<Rightarrow> 'c ua_lib \<Rightarrow> row_lib \<Rightarrow> Config \<Rightarrow> log_entry list \<Rightarrow>
    'w client \<Rightarrow> 'c ua_state \<Rightarrow> ('e client_error option \<times> 'w client \<times> 'c ua_state) option" where
  "attempt_cached drv ul lib cfg entries c st =
     (case connect drv (ClickHouse cfg) c of
        (Some e, c) \<Rightarrow> Some (Some e, resetConn drv c, st)
      | (None, c) \<Rightarrow>
          (case PrepareBatch drv (the (conn c))
                  (if UseServerSideBatching (ClickHouse cfg) then async_settings else [])
                  (insert_query (ClickHouse cfg)) (world c) of
             (Inl e, w) \<Rightarrow> Some (Some (PrepareFailed e), resetConn drv (c\<lparr>world := w\<rparr>), st)
           | (Inr b, w) \<Rightarrow> do {
               (w, st) \<leftarrow> append_cached drv ul lib cfg b entries w st;
               case Send drv b w of
                 (Some e, w) \<Rightarrow> Some (Some (SendFailed e), resetConn drv (c\<lparr>world := w\<rparr>), st)
               | (None, w) \<Rightarrow> Some (None, c\<lparr>world := w\<rparr>, updateUACacheMetrics ul st) }))"


section \<open>What the library promises\<close>

text \<open>
  A new cache has counted nothing; a parse gives what the parser gives for the string, whether
  it was cached or not, and counts one hit, or one miss and then runs the hook.  \<open>okc\<close> describes
  the caches the library builds.
\<close>

definition ua_ok :: "'c ua_lib \<Rightarrow> ('c \<Rightarrow> bool) \<Rightarrow> row_lib \<Rightarrow> bool" where
  "ua_ok ul okc lib \<longleftrightarrow>
     (\<forall>c. NewCache ul = Some c \<longrightarrow> okc c \<and> CacheStats ul c = (0, 0)) \<and>
     (\<forall>c ua. okc c \<longrightarrow> (case CacheParse ul c ua of (r, hooked, c') \<Rightarrow>
        r = ParseString lib ua \<and> okc c' \<and>
        CacheStats ul c' = (case CacheStats ul c of (h, m) \<Rightarrow> if hooked then (h, m + 1) else (h + 1, m))))"

lemma ua_ok_new: "ua_ok ul okc lib \<Longrightarrow> NewCache ul = Some c \<Longrightarrow> okc c \<and> CacheStats ul c = (0, 0)"
  by (simp add: ua_ok_def)

lemma ua_ok_parse:
  assumes "ua_ok ul okc lib" and "okc c" and "CacheParse ul c ua = (r, hooked, c')"
    and "CacheStats ul c = (h, m)"
  shows "r = ParseString lib ua" and "okc c'"
    and "CacheStats ul c' = (if hooked then (h, m + 1) else (h + 1, m))"
proof -
  have "case CacheParse ul c ua of (r, hooked, c') \<Rightarrow> r = ParseString lib ua \<and> okc c' \<and>
      CacheStats ul c' = (case CacheStats ul c of (h, m) \<Rightarrow> if hooked then (h, m + 1) else (h + 1, m))"
    by (rule assms(1) [unfolded ua_ok_def, THEN conjunct2, rule_format, OF assms(2)])
  then show "r = ParseString lib ua" "okc c'" "CacheStats ul c' = (if hooked then (h, m + 1) else (h + 1, m))"
    using assms(3,4) by simp_all
qed

text \<open>The invariant of the package variables, and the number of lookups so far.\<close>

definition ua_inv :: "'c ua_lib \<Rightarrow> ('c \<Rightarrow> bool) \<Rightarrow> 'c ua_state \<Rightarrow> bool" where
  "ua_inv ul okc st \<longleftrightarrow>
     (case uaParser st of
        None \<Rightarrow> st = ua_start
      | Some c \<Rightarrow> okc c \<and> uaLastStats st = (uaCacheHits st, uaCacheMisses st) \<and>
          uaCacheHits st \<le> fst (CacheStats ul c) \<and> uaCacheMisses st \<le> snd (CacheStats ul c) \<and>
          uaParses st = snd (CacheStats ul c) \<and> 0 \<le> uaBotTotal st \<and> uaBotTotal st \<le> uaParses st)"

definition lookups :: "'c ua_lib \<Rightarrow> 'c ua_state \<Rightarrow> int" where
  "lookups ul st =
     (case uaParser st of None \<Rightarrow> 0 | Some c \<Rightarrow> fst (CacheStats ul c) + snd (CacheStats ul c))"

text \<open>The lookups a batch needs: one for each user-agent column of an entry with a user agent.\<close>

definition asks :: "log_entry \<Rightarrow> bool" where
  "asks entry \<longleftrightarrow> (case entry ''http_user_agent'' of None \<Rightarrow> False | Some ua \<Rightarrow> ua \<noteq> [] \<and> ua \<noteq> ''-'')"

definition row_reads :: "(string \<times> string) list \<Rightarrow> log_entry \<Rightarrow> string list \<Rightarrow> nat" where
  "row_reads columns entry keys =
     (if asks entry then length (filter (\<lambda>k. reads_ua (field_of columns k)) keys) else 0)"

definition batch_reads :: "Config \<Rightarrow> log_entry list \<Rightarrow> nat" where
  "batch_reads cfg entries =
     (\<Sum>e\<leftarrow>entries. row_reads (Columns (ClickHouse cfg)) e (sorted_columns (Columns (ClickHouse cfg))))"

lemma ua_inv_start: "ua_inv ul okc ua_start" "lookups ul ua_start = 0"
  by (simp_all add: ua_inv_def lookups_def ua_start_def)

text \<open>
  There is a parser, or one can be created.  A computation that looks up \<open>n\<close> user agents and
  otherwise gives \<open>v\<close>: it exits exactly when it has to look one up and there is no parser.
\<close>

definition ready :: "'c ua_lib \<Rightarrow> 'c ua_state \<Rightarrow> bool" where
  "ready ul st \<longleftrightarrow> NewCache ul \<noteq> None \<or> uaParser st \<noteq> None"

definition looks_up :: "'c ua_lib \<Rightarrow> ('c \<Rightarrow> bool) \<Rightarrow> nat \<Rightarrow> 'c ua_state \<Rightarrow> 'v \<Rightarrow>
    ('v \<times> 'c ua_state) option \<Rightarrow> bool" where
  "looks_up ul okc n st v res \<longleftrightarrow>
     (if ready ul st \<or> n = 0
      then \<exists>st'. res = Some (v, st') \<and> ua_inv ul okc st' \<and> lookups ul st' = lookups ul st + int n \<and>
        (ready ul st' \<longleftrightarrow> ready ul st)
      else res = None)"

lemma looks_up_return: "ua_inv ul okc st \<Longrightarrow> looks_up ul okc 0 st v (Some (v, st))"
  by (simp add: looks_up_def)

lemma looks_up_bind:
  assumes "looks_up ul okc n st v x"
    and "\<And>st'. ua_inv ul okc st' \<Longrightarrow> looks_up ul okc m st' v' (f v st')"
  shows "looks_up ul okc (n + m) st v' (x \<bind> (\<lambda>(v, st). f v st))"
proof (cases "ready ul st \<or> n = 0")
  case True
  then obtain st' where "x = Some (v, st')" "ua_inv ul okc st'" "lookups ul st' = lookups ul st + int n"
    "ready ul st' \<longleftrightarrow> ready ul st"
    using assms(1) by (auto simp: looks_up_def)
  with assms(2) [OF this(2)] True show ?thesis by (auto simp: looks_up_def)
qed (use assms(1) in \<open>simp add: looks_up_def\<close>)

lemma looks_up_map:
  assumes "looks_up ul okc n st v x"
  shows "looks_up ul okc n st (f v) (x \<bind> (\<lambda>(v, st). Some (f v, st)))"
  using looks_up_bind [OF assms, of 0 "f v" "\<lambda>v st. Some (f v, st)"] looks_up_return by fastforce

text \<open>Getting the parser keeps the invariant; the first call creates the cache.\<close>

lemma getUAParser_inv:
  assumes "ua_ok ul okc lib" and "ua_inv ul okc st" and "ready ul st"
  obtains c st' where "getUAParser ul st = Some (c, st')" and "uaParser st' = Some c"
    and "ua_inv ul okc st'" and "lookups ul st' = lookups ul st" and "okc c"
proof (cases "uaParser st")
  case None
  with assms(3) obtain c0 where c0: "NewCache ul = Some c0" by (auto simp: ready_def)
  then have "ua_inv ul okc (st\<lparr>uaParser := Some c0\<rparr>)" "lookups ul (st\<lparr>uaParser := Some c0\<rparr>) = lookups ul st"
    using None assms ua_ok_new [OF assms(1) c0] by (auto simp: ua_inv_def lookups_def ua_start_def)
  with None c0 ua_ok_new [OF assms(1) c0] show ?thesis
    by (intro that [of c0 "st\<lparr>uaParser := Some c0\<rparr>"]) (simp_all add: getUAParser_def)
next
  case (Some c)
  with assms(2) show ?thesis by (intro that [of c st]) (simp_all add: getUAParser_def ua_inv_def)
qed

lemma parseUA_cached_eq:
  assumes "ua_ok ul okc lib" and "ua_inv ul okc st"
  shows "looks_up ul okc (if asks entry then 1 else 0) st (parseUA lib entry) (parseUA_cached ul lib entry st)"
proof (cases "asks entry")
  case False
  then show ?thesis
    using assms(2) by (auto simp: asks_def parseUA_cached_def parseUA_def looks_up_def split: option.splits)
next
  case True
  then obtain ua where ua: "entry ''http_user_agent'' = Some ua" "ua \<noteq> []" "ua \<noteq> ''-''"
    by (auto simp: asks_def split: option.splits)
  show ?thesis
  proof (cases "ready ul st")
    case False
    then have "getUAParser ul st = None" by (simp add: ready_def getUAParser_def)
    with False True ua show ?thesis by (simp add: looks_up_def parseUA_cached_def)
  next
    case ready: True
    obtain c st1 where g: "getUAParser ul st = Some (c, st1)" "uaParser st1 = Some c"
      "ua_inv ul okc st1" "lookups ul st1 = lookups ul st" "okc c"
      by (rule getUAParser_inv [OF assms ready])
    obtain r hooked c' where p: "CacheParse ul c ua = (r, hooked, c')" using prod_cases3 by blast
    obtain h m where s: "CacheStats ul c = (h, m)" by fastforce
    note ok = ua_ok_parse [OF assms(1) g(5) p s]
    let ?st = "if hooked then post_parse r (st1\<lparr>uaParser := Some c'\<rparr>) else st1\<lparr>uaParser := Some c'\<rparr>"
    have "parseUA_cached ul lib entry st = Some (parseUA lib entry, ?st)"
      using ua g(1) p ok(1) by (simp add: parseUA_cached_def parseUA_def Let_def)
    moreover have "ua_inv ul okc ?st"
      using g(2,3) ok(2,3) s by (auto simp: ua_inv_def post_parse_def)
    moreover have "lookups ul ?st = lookups ul st + 1"
      using g(2,4) ok(3) s by (auto simp: lookups_def post_parse_def)
    moreover have "ready ul ?st" by (simp add: ready_def post_parse_def)
    ultimately show ?thesis using True ready by (simp add: looks_up_def)
  qed
qed

lemma resolveEnrichment_ua:
  "reads_ua field \<Longrightarrow> resolveEnrichment lib field entry e = ua_cell field (parseUA lib entry)"
  by (auto simp: reads_ua_def resolveEnrichment_def ua_cell_def)

lemma buildCell_ua:
  "reads_ua (field_of columns col) \<Longrightarrow>
   buildCell lib columns entry e col = VStr (ua_cell (field_of columns col) (parseUA lib entry))"
proof -
  assume r: "reads_ua (field_of columns col)"
  then have "has_prefix (field_of columns col) ''_''" by (auto simp: reads_ua_def has_prefix_def)
  then show ?thesis
    using resolveEnrichment_ua [OF r] by (simp add: buildCell_def field_of_def Let_def)
qed


section \<open>The cached attempt is the attempt of theory Clickhouse\<close>

lemma cell_cached_eq:
  assumes "ua_ok ul okc lib" and "ua_inv ul okc st"
  shows "looks_up ul okc (if asks entry \<and> reads_ua (field_of columns col) then 1 else 0) st
    (buildCell lib columns entry e col) (cell_cached ul lib columns entry e col st)"
proof (cases "reads_ua (field_of columns col)")
  case True
  then show ?thesis
    using looks_up_map [OF parseUA_cached_eq [OF assms, of entry],
        of "\<lambda>r. VStr (ua_cell (field_of columns col) r)"]
    by (simp add: cell_cached_def buildCell_ua)
qed (use assms(2) in \<open>simp add: cell_cached_def looks_up_return\<close>)

lemma row_cached_eq:
  assumes "ua_ok ul okc lib" and "ua_inv ul okc st"
  shows "looks_up ul okc (row_reads columns entry keys) st (buildRow lib keys columns entry e)
    (row_cached ul lib columns entry e keys st)"
  using assms(2)
proof (induction keys arbitrary: st)
  case Nil
  then show ?case by (simp add: buildRow_def row_reads_def looks_up_return)
next
  case (Cons col keys)
  let ?v = "buildCell lib columns entry e col"
  have split: "row_reads columns entry (col # keys) =
      (if asks entry \<and> reads_ua (field_of columns col) then 1 else 0) + row_reads columns entry keys"
    by (simp add: row_reads_def)
  have rest: "looks_up ul okc (row_reads columns entry keys) st' (?v # buildRow lib keys columns entry e)
      (row_cached ul lib columns entry e keys st' \<bind> (\<lambda>(row, st). Some (?v # row, st)))"
    if "ua_inv ul okc st'" for st'
    by (rule looks_up_map [OF Cons.IH [OF that]])
  have row: "buildRow lib (col # keys) columns entry e = ?v # buildRow lib keys columns entry e"
    by (simp add: buildRow_def)
  show ?case
    unfolding row_cached.simps split row
    by (rule looks_up_bind [OF cell_cached_eq [OF assms(1) Cons.prems]]) (rule rest)
qed

lemma append_cached_eq:
  assumes "ua_ok ul okc lib" and "ua_inv ul okc st"
  shows "looks_up ul okc (batch_reads cfg entries) st (append_rows drv b (batch_rows lib cfg entries) w)
    (append_cached drv ul lib cfg b entries w st)"
  using assms(2)
proof (induction entries arbitrary: w st)
  case Nil
  then show ?case by (simp add: batch_rows_def batch_reads_def looks_up_return)
next
  case (Cons x xs)
  let ?cols = "Columns (ClickHouse cfg)"
  let ?row = "buildRow lib (sorted_columns ?cols) ?cols x (Enrichments (Settings cfg))"
  have split: "batch_reads cfg (x # xs) = row_reads ?cols x (sorted_columns ?cols) + batch_reads cfg xs"
    by (simp add: batch_reads_def)
  have rows: "append_rows drv b (batch_rows lib cfg (x # xs)) w =
      append_rows drv b (batch_rows lib cfg xs) (snd (Append drv b ?row w))"
    by (simp add: batch_rows_def)
  show ?case
    unfolding append_cached.simps split rows
    by (rule looks_up_bind [OF row_cached_eq [OF assms(1) Cons.prems]]) (rule Cons.IH)
qed

lemma updateUACacheMetrics_sync:
  assumes "ua_inv ul okc st"
  shows "ua_inv ul okc (updateUACacheMetrics ul st)"
    and "lookups ul (updateUACacheMetrics ul st) = lookups ul st"
    and "uaCacheHits (updateUACacheMetrics ul st) + uaCacheMisses (updateUACacheMetrics ul st) =
      lookups ul st"
    and "uaCacheMisses (updateUACacheMetrics ul st) = uaParses (updateUACacheMetrics ul st)"
proof -
  have "ua_inv ul okc (updateUACacheMetrics ul st) \<and>
    lookups ul (updateUACacheMetrics ul st) = lookups ul st \<and>
    uaCacheHits (updateUACacheMetrics ul st) + uaCacheMisses (updateUACacheMetrics ul st) =
      lookups ul st \<and>
    uaCacheMisses (updateUACacheMetrics ul st) = uaParses (updateUACacheMetrics ul st)"
  proof (cases "uaParser st")
    case None
    then show ?thesis using assms by (simp add: updateUACacheMetrics_def lookups_def ua_inv_def ua_start_def)
  next
    case (Some c)
    obtain h m where "CacheStats ul c = (h, m)" by fastforce
    with Some assms show ?thesis
      by (auto simp: updateUACacheMetrics_def lookups_def ua_inv_def)
  qed
  then show "ua_inv ul okc (updateUACacheMetrics ul st)"
    "lookups ul (updateUACacheMetrics ul st) = lookups ul st"
    "uaCacheHits (updateUACacheMetrics ul st) + uaCacheMisses (updateUACacheMetrics ul st) =
      lookups ul st"
    "uaCacheMisses (updateUACacheMetrics ul st) = uaParses (updateUACacheMetrics ul st)" by simp_all
qed

text \<open>
  C23. The pure user-agent parser of the other theories is an abstraction of the code's: with the
  lazily created, shared cache an attempt of \<open>Save\<close> returns the same result and leaves the same
  client and table, whatever the cache holds.  It exits instead only when the cache does not exist
  yet, cannot be created, and an entry of the batch has a user agent that a column reads; such an attempt never
  succeeds.  When it succeeds, the counters of cache hits and misses add up to all lookups made so
  far (one for each user-agent column of each entry with a user agent, those of failed attempts
  included), the misses are the parses whose duration was observed, and the bots are among them.
\<close>

theorem attempt_cached_refines:
  assumes "ua_ok ul okc lib" and "ua_inv ul okc st"
    and "save_attempt drv lib cfg entries c = (r, c')"
  shows "case attempt_cached drv ul lib cfg entries c st of
      None \<Rightarrow> NewCache ul = None \<and> uaParser st = None \<and> 0 < batch_reads cfg entries
    | Some (r', c'', st') \<Rightarrow> r' = r \<and> c'' = c' \<and> ua_inv ul okc st' \<and>
        (r = None \<longrightarrow>
          (NewCache ul \<noteq> None \<or> uaParser st \<noteq> None \<or> batch_reads cfg entries = 0) \<and>
          lookups ul st' = lookups ul st + int (batch_reads cfg entries) \<and>
          uaCacheHits st' + uaCacheMisses st' = lookups ul st' \<and>
          uaCacheMisses st' = uaParses st' \<and> uaBotTotal st' \<le> uaCacheMisses st')"
proof -
  obtain q c1 where conn: "connect drv (ClickHouse cfg) c = (q, c1)" by fastforce
  let ?st = "if UseServerSideBatching (ClickHouse cfg) then async_settings else []"
  obtain p w where prep: "PrepareBatch drv (the (conn c1)) ?st (insert_query (ClickHouse cfg)) (world c1) =
      (p, w)" by fastforce
  show ?thesis
  proof (cases "q \<noteq> None \<or> (\<exists>e. p = Inl e)")
    case True
    with conn prep assms(2,3) show ?thesis
      by (cases q) (auto simp: attempt_cached_def save_attempt_def)
  next
    case False
    then obtain b where b: "q = None" "p = Inr b" by (cases p) auto
    let ?w = "append_rows drv b (batch_rows lib cfg entries) w"
    note append = append_cached_eq [OF assms(1,2), of cfg entries drv b w]
    show ?thesis
    proof (cases "ready ul st \<or> batch_reads cfg entries = 0")
      case False
      with append have "append_cached drv ul lib cfg b entries w st = None" by (simp add: looks_up_def)
      with conn prep b False show ?thesis by (auto simp: attempt_cached_def ready_def)
    next
      case ready: True
      with append obtain st1 where st1: "append_cached drv ul lib cfg b entries w st = Some (?w, st1)"
        "ua_inv ul okc st1" "lookups ul st1 = lookups ul st + int (batch_reads cfg entries)"
        by (auto simp: looks_up_def)
      obtain z w' where send: "Send drv b ?w = (z, w')" by fastforce
      note sync = updateUACacheMetrics_sync [OF st1(2)]
      have bots: "uaBotTotal (updateUACacheMetrics ul st1) \<le> uaParses (updateUACacheMetrics ul st1)"
        using sync(1) by (auto simp: ua_inv_def ua_start_def split: option.splits)
      show ?thesis
      proof (cases z)
        case (Some e)
        with conn prep b st1 send assms(3) show ?thesis
          by (auto simp: attempt_cached_def save_attempt_def)
      next
        case None
        with conn prep b st1 send assms(3) sync bots ready show ?thesis
          by (auto simp: attempt_cached_def save_attempt_def ready_def)
      qed
    qed
  qed
qed

text \<open>
  Without a user-agent column the parser is never asked for: the library may fail to create one.
\<close>

lemma row_cached_lazy:
  assumes "\<forall>k\<in>set keys. \<not> reads_ua (field_of columns k)"
  shows "row_cached ul lib columns entry e keys st = Some (buildRow lib keys columns entry e, st)"
  using assms by (induction keys) (simp_all add: cell_cached_def buildRow_def)

lemma append_cached_lazy:
  assumes "\<forall>k\<in>set (sorted_columns (Columns (ClickHouse cfg))).
    \<not> reads_ua (field_of (Columns (ClickHouse cfg)) k)"
  shows "append_cached drv ul lib cfg b entries w st =
    Some (append_rows drv b (batch_rows lib cfg entries) w, st)"
  by (induction entries arbitrary: w) (simp_all add: row_cached_lazy [OF assms] batch_rows_def)

section \<open>The theorem at work\<close>

text \<open>A cache that keeps the strings it has seen, with its statistics.\<close>

definition demo_ua :: "(string list \<times> int \<times> int) ua_lib" where
  "demo_ua =
     \<lparr>NewCache = Some ([], 0, 0),
      CacheParse = (\<lambda>(seen, h, m) ua.
        if ua \<in> set seen then (ParseString demo_lib ua, False, (seen, h + 1, m))
        else (ParseString demo_lib ua, True, (ua # seen, h, m + 1))),
      CacheStats = (\<lambda>(seen, h, m). (h, m))\<rparr>"

lemma demo_ua_ok: "ua_ok demo_ua (\<lambda>_. True) demo_lib"
  by (simp add: ua_ok_def demo_ua_def)

definition demo_ua_cfg :: Config where
  "demo_ua_cfg = (demo_cfg 1)\<lparr>ClickHouse :=
     (ClickHouse (demo_cfg 1))\<lparr>Columns := [(''bot'', ''_is_bot''), (''os'', ''_os'')]\<rparr>\<rparr>"

text \<open>Two columns read the user agent of one entry: one miss, one hit, one bot.\<close>

theorem attempt_cached_refines_witness:
  "\<exists>c' st'. attempt_cached demo_driver demo_ua demo_lib demo_ua_cfg [[''http_user_agent'' \<mapsto> ''x'']]
       (NewClient \<lparr>demo_down = 0, demo_rows = [], demo_batch = []\<rparr>) ua_start = Some (None, c', st') \<and>
     uaCacheHits st' + uaCacheMisses st' = 2"
proof -
  let ?c = "NewClient \<lparr>demo_down = 0, demo_rows = [], demo_batch = []\<rparr>"
  let ?es = "[[''http_user_agent'' \<mapsto> ''x'']]"
  obtain c' where run: "save_attempt demo_driver demo_lib demo_ua_cfg ?es ?c = (None, c')"
    by (simp add: demo_defs demo_ua_cfg_def atoi_9000 del: atoi.simps)
  have cols: "sorted_columns (Columns (ClickHouse demo_ua_cfg)) = [''bot'', ''os'']"
    by (simp add: demo_ua_cfg_def) code_simp
  have "batch_reads demo_ua_cfg ?es = 2"
    unfolding batch_reads_def cols
    by (simp add: demo_ua_cfg_def row_reads_def asks_def reads_ua_def field_of_def)
  moreover have "NewCache demo_ua \<noteq> None" by (simp add: demo_ua_def)
  ultimately show ?thesis
    using attempt_cached_refines [OF demo_ua_ok ua_inv_start(1) run] ua_inv_start(2) [of demo_ua]
    by (auto split: option.splits)
qed

end
