(* ===== verification/DiskErrors.thy ===== *)
theory DiskErrors
  imports DiskBuffer
begin

text \<open>
  The disk buffer when the operating system fails: any call may fail, a write after any number of
  bytes.  What is already buffered survives, \<open>ReadAll\<close> gives all lines or an error, and a crash in
  the middle of a write costs the line being written; but a write that fails half way damages
  the next line, which \<open>Write\<close> accepts.
\<close>

section \<open>Reading\<close>

lemma read_segments_Inr:
  "read_segments io d fs = Inr ls \<Longrightarrow>
   ls = concat (map (\<lambda>f. content_lines (file_content d f)) fs) \<and>
   (\<forall>f\<in>set fs. \<not> snd (scan_lines maxScanTokenSize (file_content d f)))"
proof (induction fs arbitrary: ls)
  case (Cons f fs)
  obtain l1 err where scan: "scan_file io d f = (l1, err)" by fastforce
  with Cons.prems have "\<not> err" by (auto split: if_splits)
  then obtain rest where rest: "read_segments io d fs = Inr rest" "ls = l1 @ rest"
    using Cons.prems scan by (auto split: if_splits sum.splits)
  have "l1 = content_lines (file_content d f)" "\<not> snd (scan_lines maxScanTokenSize (file_content d f))"
    using scan \<open>\<not> err\<close> by (auto simp: scan_file_def content_lines_def split: option.splits)
  with rest Cons.IH show ?case by simp
qed simp

lemma listSegments_Some:
  "listSegments io d = Some fs \<Longrightarrow> listSegments io_ok d = Some fs"
  by (simp add: listSegments_def split: if_splits)

text \<open>The removal loop tries every segment: what stays are the files whose own removal failed.\<close>

lemma remove_segments_any:
  "remove_segments io fs d = filter (\<lambda>(g, c). \<not> (g \<in> set fs \<and> remove_ok io g)) d"
proof (induction fs arbitrary: d)
  case Nil
  show ?case by (simp add: remove_segments_def split_def)
next
  case (Cons f fs)
  have "remove_segments io (f # fs) d =
      remove_segments io fs (if remove_ok io f then dir_remove f d else d)"
    by (simp add: remove_segments_def)
  also have "\<dots> = filter (\<lambda>(g, c). \<not> (g \<in> set (f # fs) \<and> remove_ok io g)) d"
    unfolding Cons by (cases "remove_ok io f")
      (auto simp: dir_remove_def filter_filter split_def intro!: filter_cong)
  finally show ?case .
qed

text \<open>
  C17. Whatever the operating system does, \<open>ReadAll\<close> is all or nothing: it returns exactly the lines
  the buffer holds, in order, or an error, and after an error the directory and the counters are
  untouched, so that a later \<open>ReadAll\<close> can return them.  When it succeeds every segment whose
  removal succeeds is gone, whether or not the removal of another one fails; the segments that could not be removed
  stay as they were, and exactly their lines are still there, to be returned again, although the
  counters say that the buffer is empty.
\<close>

theorem disk_ReadAll_errors:
  assumes "disk_inv b" and "disk_ReadAll io b = (r, b')"
  shows "case r of
      Inl e \<Rightarrow> b' = b\<lparr>currentFile := None\<rparr> \<and> disk_lines b' = disk_lines b \<and> disk_inv b'
    | Inr ls \<Rightarrow> ls = disk_lines b \<and>
        dir b' = filter (\<lambda>(f, c). \<not> (is_segment f \<and> remove_ok io f)) (dir b) \<and>
        disk_lines b' = concat (map (\<lambda>(f, c). content_lines c)
          (filter (\<lambda>(f, c). \<not> remove_ok io f) (segs (dir b)))) \<and>
        disk_Len b' = 0 \<and> currentBytes b' = 0"
proof (cases r)
  case (Inl e)
  then have b': "b' = b\<lparr>currentFile := None\<rparr>"
    using assms(2) by (auto simp: disk_ReadAll_def Let_def split: option.splits if_splits sum.splits)
  moreover have "disk_inv (b\<lparr>currentFile := None\<rparr>)" "disk_lines (b\<lparr>currentFile := None\<rparr>) = disk_lines b"
    using assms(1) by (simp_all add: disk_inv_def open_last_def disk_lines_def)
  ultimately show ?thesis using Inl by simp
next
  case (Inr ls)
  obtain ns where ns: "numbered ns (dir b)" using assms(1) by (auto simp: disk_inv_def)
  let ?fs = "map fst (segs (dir b))"
  obtain fs where "listSegments io (dir b) = Some fs"
    using assms(2) Inr by (auto simp: disk_ReadAll_def Let_def split: option.splits)
  then have list: "listSegments io (dir b) = Some ?fs"
    using listSegments_Some listSegments_inv [OF ns] by fastforce
  have "ls = disk_lines b \<and> dir b' = remove_segments io ?fs (dir b) \<and> lineCount b' = 0 \<and> currentBytes b' = 0"
  proof (cases "segs (dir b) = []")
    case True
    with assms list Inr show ?thesis
      by (auto simp: disk_ReadAll_def Let_def disk_lines_def remove_segments_def disk_inv_def seg_sizes_def)
  next
    case False
    then have read: "read_segments io (dir b) ?fs = Inr ls"
      and b': "dir b' = remove_segments io ?fs (dir b)" "lineCount b' = 0" "currentBytes b' = 0"
      using assms(2) list Inr by (auto simp: disk_ReadAll_def Let_def split: sum.splits)
    have "content_lines (file_content (dir b) (fst x)) = (case x of (f, c) \<Rightarrow> content_lines c)"
      if "x \<in> set (segs (dir b))" for x
      using file_content_segs [OF numbered_distinct [OF ns]] that by (cases x) auto
    then have "ls = disk_lines b"
      using read_segments_Inr [OF read] by (simp add: disk_lines_def comp_def cong: map_cong)
    with b' show ?thesis by simp
  qed
  moreover have dirs: "remove_segments io ?fs (dir b) = filter (\<lambda>(f, c). \<not> (is_segment f \<and> remove_ok io f)) (dir b)"
    unfolding remove_segments_any by (rule filter_cong) (force simp: segs_def)+
  moreover have "segs (filter (\<lambda>(f, c). \<not> (is_segment f \<and> remove_ok io f)) (dir b)) =
      filter (\<lambda>(f, c). \<not> remove_ok io f) (segs (dir b))"
    by (auto simp: segs_def filter_filter split_def intro!: filter_cong)
  ultimately show ?thesis using Inr by (simp add: disk_lines_def disk_Len_def)
qed


section \<open>Writing\<close>

text \<open>What a new buffer finds on a directory with readable, numbered segments.\<close>

definition recoverable :: "directory \<Rightarrow> bool" where
  "recoverable d \<longleftrightarrow> (\<exists>ns. numbered ns d) \<and> readable d"

lemma inv_recoverable: "disk_inv b \<Longrightarrow> recoverable (dir b)"
  by (auto simp: disk_inv_def recoverable_def)

lemma recoverable_replay:
  assumes "recoverable (dir b)"
  shows "\<exists>k. NewDiskBuffer io_ok (dir b) maxB = Inr k \<and> fst (disk_Replay io_ok k) = Inr (disk_lines b)"
proof -
  obtain ns where "numbered ns (dir b)" "readable (dir b)"
    using assms by (auto simp: recoverable_def)
  from NewDiskBuffer_step [OF this] obtain k where
    k: "NewDiskBuffer io_ok (dir b) maxB = Inr k" "disk_inv k" "dir k = dir b" by blast
  have "disk_lines k = disk_lines b" using k(3) by (simp add: disk_lines_def)
  with k disk_ReadAll_step [OF k(2)] show ?thesis by (auto simp: disk_Replay_def)
qed

text \<open>A piece of a line at the end of a file is a line for the scanner.\<close>

lemma scan_piece:
  assumes "nl \<notin> set t" and "length t < maxtok"
  shows "scan_lines maxtok t = (if t = [] then [] else [drop_cr t], False)"
proof (cases "t = []")
  case False
  have tw: "takeWhile (\<lambda>c. c \<noteq> nl) t = t" "dropWhile (\<lambda>c. c \<noteq> nl) t = []"
    using assms(1) by (auto simp: takeWhile_eq_all_conv dropWhile_eq_Nil_conv)
  show ?thesis using scan_lines_rest [OF False, of maxtok, unfolded tw] False assms(2) by simp
qed simp

text \<open>The pieces of a line that a failed write may leave.\<close>

definition torn_line :: "nat \<Rightarrow> string \<Rightarrow> string list" where
  "torn_line n l = (if n = 0 then [] else if n \<le> length l then [drop_cr (take n l)] else [l])"

lemma scan_torn:
  assumes "line_closed c" and "\<not> snd (scan_lines maxScanTokenSize c)"
    and "plain_line maxScanTokenSize l"
  shows "scan_lines maxScanTokenSize (c @ take n (l @ [nl])) = (content_lines c @ torn_line n l, False)"
proof (cases "n \<le> length l")
  case True
  have l: "nl \<notin> set l" "length l < maxScanTokenSize" using assms(3) by (simp_all add: plain_line_def)
  then have "nl \<notin> set (take n l)" "length (take n l) < maxScanTokenSize"
    using True in_set_takeD [of nl n l] by auto
  from scan_piece [OF this] have "scan_lines maxScanTokenSize (take n l) = (torn_line n l, False)"
    using True by (cases "n = 0"; cases "l = []") (simp_all add: torn_line_def)
  with scan_lines_append [OF assms(1,2), of "take n l"] True show ?thesis
    by (simp add: content_lines_def)
next
  case False
  with scan_lines_snoc [OF assms] show ?thesis by (simp add: content_lines_def torn_line_def)
qed

lemma append_torn:
  assumes inv: "disk_inv b" and cur: "currentFile b = Some f"
    and plain: "plain_line maxScanTokenSize l"
    and b': "b' = b\<lparr>dir := dir_append f (take n (l @ [nl])) (dir b)\<rparr>"
  shows "disk_lines b' = disk_lines b @ torn_line n l" and "recoverable (dir b')"
    and "\<exists>xs c. segs (dir b) = xs @ [(f, c)] \<and> segs (dir b') = xs @ [(f, c @ take n (l @ [nl]))] \<and>
      line_closed c \<and> \<not> snd (scan_lines maxScanTokenSize c)"
proof -
  obtain ns where ns: "numbered ns (dir b)" using inv by (auto simp: disk_inv_def)
  from inv cur obtain xs c where segs: "segs (dir b) = xs @ [(f, c)]" and closed: "line_closed c"
    and ok: "\<not> snd (scan_lines maxScanTokenSize c)"
    and segs': "segs (dir b') = xs @ [(f, c @ take n (l @ [nl]))]"
    unfolding b' by (rule append_current_segs) simp
  note scan = scan_torn [OF closed ok plain, of n]
  show "disk_lines b' = disk_lines b @ torn_line n l"
    using disk_lines_snoc [OF segs] disk_lines_snoc [OF segs'] scan by (simp add: content_lines_def)
  have "numbered ns (dir b')" using ns segs segs' by (simp add: numbered_def)
  moreover have "readable (dir b')" using inv segs segs' scan by (auto simp: disk_inv_def readable_def)
  ultimately show "recoverable (dir b')" by (auto simp: recoverable_def)
  show "\<exists>xs c. segs (dir b) = xs @ [(f, c)] \<and> segs (dir b') = xs @ [(f, c @ take n (l @ [nl]))] \<and>
      line_closed c \<and> \<not> snd (scan_lines maxScanTokenSize c)"
    using segs segs' closed ok by blast
qed

text \<open>The segment a write appends to, after a rotation if there is one.\<close>

lemma disk_Write_any:
  assumes inv: "disk_inv b" and okw: "disk_okw b l" and w: "disk_Write io b l = (r, b')"
  shows "(b' = b \<or> b' = b\<lparr>currentFile := None\<rparr>) \<and> r \<notin> {None, Some ErrWritingSegment} \<or>
    (\<exists>b1 f. disk_inv b1 \<and> disk_lines b1 = disk_lines b \<and> currentFile b1 = Some f \<and>
       append_current io b1 (l @ [nl]) = (r, b'))"
proof (cases "maxBytes b > 0 \<and> currentBytes b + int (length (l @ [nl])) > maxBytes b")
  case True
  then have "disk_Write io b l = (Some ErrBufferFull, b)" by (simp add: disk_Write_def Let_def)
  with w show ?thesis by auto
next
  case fits: False
  show ?thesis
  proof (cases "currentFile b = None \<or> currentBytes b > 0 \<and> needsRotation io b (int (length (l @ [nl])))")
    case True
    have w': "(case openSegment io b of
          (True, b') \<Rightarrow> (Some (ErrOpeningSegment (segmentName (segmentCounter b'))), b')
        | (False, b') \<Rightarrow> append_current io b' (l @ [nl])) = (r, b')"
      using w fits True by (simp add: disk_Write_def Let_def split: if_splits)
    show ?thesis
    proof (cases "create_ok io (segmentName (segmentCounter b))")
      case False
      with w' show ?thesis by (simp add: openSegment_def Let_def) auto
    next
      case created: True
      then have "openSegment io b = openSegment io_ok b" by (simp add: openSegment_def Let_def)
      with w' openSegment_step [OF inv] okw show ?thesis by (fastforce simp: disk_okw_def)
    qed
  next
    case False
    then obtain f where f: "currentFile b = Some f" by auto
    have "append_current io b (l @ [nl]) = (r, b')"
      using w fits False by (simp add: disk_Write_def Let_def split: if_splits)
    with f inv show ?thesis by blast
  qed
qed

lemma disk_Write_torn:
  assumes "disk_inv b" and "disk_okw b l" and "disk_Write io b l = (r, b')"
  shows "recoverable (dir b') \<and> (if r = None then disk_lines b' = disk_lines b @ [l] \<and> disk_inv b'
    else \<exists>n. disk_lines b' = disk_lines b @ torn_line n l)"
  using disk_Write_any [OF assms]
proof (rule disjE)
  assume unchanged: "(b' = b \<or> b' = b\<lparr>currentFile := None\<rparr>) \<and> r \<notin> {None, Some ErrWritingSegment}"
  then have "dir b' = dir b" by auto
  then show ?thesis
    using unchanged inv_recoverable [OF assms(1)]
    by (auto simp: disk_lines_def torn_line_def intro: exI [of _ 0])
next
  assume "\<exists>b1 f. disk_inv b1 \<and> disk_lines b1 = disk_lines b \<and> currentFile b1 = Some f \<and>
    append_current io b1 (l @ [nl]) = (r, b')"
  then obtain b1 f where b1: "disk_inv b1" "disk_lines b1 = disk_lines b" "currentFile b1 = Some f"
    and app: "append_current io b1 (l @ [nl]) = (r, b')" by blast
  have plain: "plain_line maxScanTokenSize l" using assms(2) by (simp add: disk_okw_def)
  show ?thesis
  proof (cases "write_fail io")
    case None
    then have "append_current io b1 (l @ [nl]) = append_current io_ok b1 (l @ [nl])"
      by (simp add: append_current_def split: option.split)
    with append_current_step [OF b1(1,3) plain] app b1(2) show ?thesis
      using inv_recoverable by auto
  next
    case (Some n)
    with app b1(3) have "r = Some ErrWritingSegment"
      "b' = b1\<lparr>dir := dir_append f (take n (l @ [nl])) (dir b1)\<rparr>"
      by (auto simp: append_current_def)
    with append_torn(1,2) [OF b1(1,3) plain this(2)] b1(2) show ?thesis by auto
  qed
qed

text \<open>
  C18. Whatever the operating system does during a write, and at whichever byte it fails, no line
  already buffered is damaged: a write that returns \<open>nil\<close> has appended its line; after an error
  the buffer holds what it held, followed by nothing, a beginning of the line, or the line; and a
  crash at that point leaves a directory from which a new buffer replays just that.
\<close>

theorem disk_Write_errors:
  assumes "disk_inv b" and "plain_line maxScanTokenSize l" and "segmentCounter b < 1000000"
    and "disk_Write io b l = (r, b')"
  shows "(if r = None then disk_lines b' = disk_lines b @ [l] \<and> disk_inv b'
      else \<exists>n. disk_lines b' = disk_lines b @ torn_line n l) \<and>
    (\<exists>k. NewDiskBuffer io_ok (dir b') maxB = Inr k \<and> fst (disk_Replay io_ok k) = Inr (disk_lines b'))"
proof -
  have "disk_okw b l" using assms(2,3) by (simp add: disk_okw_def)
  from disk_Write_torn [OF assms(1) this assms(4)] recoverable_replay show ?thesis by blast
qed


section \<open>After a write that failed half way\<close>

lemma recoverable_ReadAll:
  assumes "recoverable (dir b)"
  shows "fst (disk_ReadAll io_ok b) = Inr (disk_lines b)"
proof -
  obtain k where k: "NewDiskBuffer io_ok (dir b) 0 = Inr k" "fst (disk_Replay io_ok k) = Inr (disk_lines b)"
    using recoverable_replay [OF assms] by blast
  then have "dir k = dir b" by (auto simp: NewDiskBuffer_def split: option.splits prod.splits)
  then have "fst (disk_ReadAll io_ok k) = fst (disk_ReadAll io_ok b)"
    by (simp add: disk_ReadAll_def Let_def split: option.split sum.split)
  with k(2) show ?thesis by (simp add: disk_Replay_def)
qed

lemma has_suffix_append_ne: "m \<noteq> [] \<Longrightarrow> has_suffix (t @ m) [c] \<longleftrightarrow> has_suffix m [c]"
  by (cases m rule: rev_cases) (simp_all add: has_suffix_def has_prefix_def)

text \<open>
  A write that fails half way damages the next one: the bytes it left are not removed, and the
  next line goes after them in the same segment.  \<open>Write\<close> returns \<open>nil\<close> for that line, but what
  \<open>ReadAll\<close> returns is one line, the beginning of the first followed by the second; the second,
  accepted line is in the buffer no more.
\<close>

theorem disk_torn_write_corrupts:
  assumes "disk_inv b" and "plain_line maxScanTokenSize l" and "plain_line maxScanTokenSize m"
    and "segmentCounter b < 1000000" and "write_fail io = Some n" and "n \<le> length l" and "m \<noteq> []"
    and "disk_Write io b l = (Some ErrWritingSegment, b1)"
    and "length l + length m < maxScanTokenSize"
    and "\<not> needsRotation io_ok b1 (int (length m) + 1)"
    and "maxBytes b1 \<le> 0 \<or> currentBytes b1 + int (length m) + 1 \<le> maxBytes b1"
  shows "\<exists>b2. disk_Write io_ok b1 m = (None, b2) \<and>
    fst (disk_ReadAll io_ok b2) = Inr (disk_lines b @ [take n l @ m])"
proof -
  have okw: "disk_okw b l" using assms(2,4) by (simp add: disk_okw_def)
  obtain b0 f where b0: "disk_inv b0" "disk_lines b0 = disk_lines b" "currentFile b0 = Some f"
    and app: "append_current io b0 (l @ [nl]) = (Some ErrWritingSegment, b1)"
    using disk_Write_any [OF assms(1) okw assms(8)] by auto
  have b1: "b1 = b0\<lparr>dir := dir_append f (take n (l @ [nl])) (dir b0)\<rparr>"
    using app b0(3) assms(5) by (simp add: append_current_def)
  obtain xs c where segs: "segs (dir b0) = xs @ [(f, c)]" "segs (dir b1) = xs @ [(f, c @ take n l)]"
    "line_closed c" "\<not> snd (scan_lines maxScanTokenSize c)"
    using append_torn(3) [OF b0(1,3) assms(2) b1] assms(6) by auto
  obtain ns where ns: "numbered ns (dir b0)" using b0(1) by (auto simp: disk_inv_def)
  let ?b2 = "b1\<lparr>dir := dir_append f (m @ [nl]) (dir b1), currentBytes := currentBytes b1 + int (length m + 1),
    lineCount := lineCount b1 + 1\<rparr>"
  have cur: "currentFile b1 = Some f" using b0(3) b1 by simp
  have w: "disk_Write io_ok b1 m = (None, ?b2)"
    using cur assms(10,11) by (auto simp: disk_Write_def Let_def append_current_def algebra_simps)
  have "distinct (map fst (xs @ [(f, c)]))" using numbered_distinct [OF ns] segs(1) by simp
  then have segs2: "segs (dir ?b2) = xs @ [(f, c @ (take n l @ m) @ [nl])]"
    using dir_append_last [of xs f "c @ take n l" "m @ [nl]"] segs(2) by (simp add: segs_append)
  have "plain_line maxScanTokenSize (take n l @ m)"
    using assms(2,3,7,9) has_suffix_append_ne [OF assms(7), of "take n l" cr] in_set_takeD [of nl n l]
    by (auto simp: plain_line_def)
  note scan = scan_lines_snoc [OF segs(3,4) this]
  have "readable (dir b0)" using b0(1) by (simp add: disk_inv_def)
  then have "readable (dir ?b2)" using segs(1) segs2 scan by (auto simp: readable_def)
  moreover have "numbered ns (dir ?b2)" using ns segs(1) segs2 by (simp add: numbered_def)
  ultimately have rec: "recoverable (dir ?b2)" by (auto simp: recoverable_def)
  have "disk_lines ?b2 = disk_lines b @ [take n l @ m]"
    using disk_lines_snoc [OF segs(1)] disk_lines_snoc [OF segs2] scan b0(2)
    by (simp add: content_lines_def)
  with w recoverable_ReadAll [OF rec] show ?thesis by simp
qed

section \<open>The theorems at work\<close>

text \<open>A disk that takes three bytes of a write and then is full.\<close>

definition full_disk :: disk_io where
  "full_disk = io_ok\<lparr>write_fail := Some 3\<rparr>"

lemma full_disk_simps [simp]:
  "glob_ok full_disk" "stat_ok full_disk f" "open_ok full_disk f" "create_ok full_disk f"
  "remove_ok full_disk f" "read_fail full_disk f = None" "write_fail full_disk = Some 3"
  by (simp_all add: full_disk_def)

lemma full_disk_write:
  "disk_Write full_disk (disk_empty 0) ''first'' =
   (Some ErrWritingSegment, (disk_empty 0)\<lparr>dir := [(segmentName 0, ''fir'')],
      currentFile := Some (segmentName 0), segmentCounter := 1\<rparr>)"
  by (simp add: disk_Write_def disk_empty_def Let_def openSegment_def append_current_def
      dir_create_def dir_append_def)

lemma plain_words: "plain_line maxScanTokenSize ''first''" "plain_line maxScanTokenSize ''second''"
  by (simp_all add: plain_line_def maxScanTokenSize_def has_suffix_def has_prefix_def)

text \<open>A failing listing, and a segment that cannot be removed and is read again.\<close>

theorem disk_ReadAll_errors_witness:
  "disk_lines (snd (disk_ReadAll (io_ok\<lparr>glob_ok := False\<rparr>) (disk_empty 0))) = disk_lines (disk_empty 0) \<and>
   (\<exists>b b'. disk_ReadAll (io_ok\<lparr>remove_ok := \<lambda>_. False\<rparr>) b = (Inr [''first''], b') \<and>
      disk_lines b' = [''first''] \<and> disk_Len b' = 0)"
proof
  obtain b' where r: "disk_ReadAll (io_ok\<lparr>glob_ok := False\<rparr>) (disk_empty 0) = (Inl ErrListingSegments, b')"
    by (simp add: disk_ReadAll_def listSegments_def Let_def)
  from disk_ReadAll_errors [OF disk_inv_empty this]
  show "disk_lines (snd (disk_ReadAll (io_ok\<lparr>glob_ok := False\<rparr>) (disk_empty 0))) = disk_lines (disk_empty 0)"
    unfolding sum.case r snd_conv by (elim conjE)
  let ?io = "io_ok\<lparr>remove_ok := \<lambda>_. False\<rparr>"
  have "disk_fits (disk_empty 0) ''first''"
    using plain_words(1) by (simp add: disk_fits_def disk_okw_def disk_empty_def)
  from disk.write_fits [OF disk_inv_empty this] obtain b where
    b: "disk_inv b" "disk_lines b = disk_lines (disk_empty 0) @ [''first'']" by metis
  have lines: "disk_lines b = [''first'']" using b(2) by (simp add: disk_empty_def disk_lines_def segs_def)
  have "listSegments ?io (dir b) = listSegments io_ok (dir b)" by (simp add: listSegments_def)
  moreover have "read_segments ?io d fs = read_segments io_ok d fs" for d fs
    by (induction fs) (simp_all add: scan_file_def split: prod.split)
  ultimately have "fst (disk_ReadAll ?io b) = fst (disk_ReadAll io_ok b)"
    by (simp add: disk_ReadAll_def Let_def split: option.split sum.split)
  then obtain b' where r': "disk_ReadAll ?io b = (Inr [''first''], b')"
    using disk.read_all_ok [OF b(1)] lines by (metis prod.collapse)
  from disk_ReadAll_errors [OF b(1) r'] have "disk_lines b' = disk_lines b" "disk_Len b' = 0"
    by (simp_all add: disk_lines_def)
  with r' lines show "\<exists>b b'. disk_ReadAll ?io b = (Inr [''first''], b') \<and>
      disk_lines b' = [''first''] \<and> disk_Len b' = 0"
    by auto
qed

theorem disk_Write_errors_witness:
  "\<exists>n. disk_lines (snd (disk_Write full_disk (disk_empty 0) ''first'')) = torn_line n ''first''"
proof -
  have "disk_lines (disk_empty 0) = []" by (simp add: disk_empty_def disk_lines_def segs_def)
  with disk_Write_errors [OF disk_inv_empty plain_words(1) _ full_disk_write] full_disk_write
  show ?thesis by (auto simp: disk_empty_def)
qed

theorem disk_torn_write_corrupts_witness:
  "\<exists>b2. disk_Write io_ok (snd (disk_Write full_disk (disk_empty 0) ''first'')) ''second'' = (None, b2) \<and>
     fst (disk_ReadAll io_ok b2) = Inr [''firsecond'']"
proof -
  have "disk_lines (disk_empty 0) = []" by (simp add: disk_empty_def disk_lines_def segs_def)
  with disk_torn_write_corrupts [OF disk_inv_empty plain_words _ full_disk_simps(7) _ _ full_disk_write]
    full_disk_write
  show ?thesis
    by (simp add: disk_empty_def needsRotation_def maxSegmentBytes_def maxScanTokenSize_def
        file_content_def)
qed

end
