(* ===== verification/Spec2Isabelle.thy ===== *)
theory Spec2Isabelle
  imports Program Progress Accounting ExactlyOnce Crash UserAgent DiskErrors
begin

text \<open>
  A verification library for nginx-clickhouse, a daemon that reads nginx access log lines, keeps
  them in a buffer, and inserts them in batches into a ClickHouse table.

  \<^bold>\<open>The program and its parts.\<close>  \<open>main\<close> (main.go) reads the configuration, builds a parser, a filter
  chain, a ClickHouse client, a line buffer and an optional circuit breaker, replays what a disk
  buffer still holds, and then feeds the lines of its source to the buffer.  A batch leaves the
  buffer in \<open>flush\<close>, called by the main loop when the buffer is full, by the timer goroutine
  \<open>flushLoop\<close>, and once more by the shutdown: the circuit breaker is asked, the buffer is drained,
  the lines are parsed and filtered, and \<open>Client.Save\<close> inserts the entries, with retries; when it
  fails the lines are written back to the buffer.

  \<^bold>\<open>Which theory models what.\<close>
  \<^item> Prelude: Go's byte strings, the functions of \<open>strings\<close> the code calls, 64-bit wrap-around.
  \<^item> GoLib: decimal printing and \<open>strconv.Atoi\<close> with their round trips, \<open>strings.TrimSpace\<close> and
    \<open>ToLower\<close> over UTF-8 bytes, \<open>bufio.Scanner\<close> with its token limit, 64-bit floats.
  \<^item> GoTime: \<open>time.Parse\<close> and \<open>time.Format\<close> for the two layouts of the configuration package, with
    calendar dates as a datatype that is an instance of \<open>linorder\<close>.
  \<^item> Retry: retry/retry.go, \<open>Backoff\<close> (the doubling in wrapping 64-bit arithmetic) and \<open>Do\<close>, whose
    loop over attempts is recursion on the attempts left.
  \<^item> CircuitBreaker: circuitbreaker/circuitbreaker.go, one transformer for each method of the
    struct; the clock is an argument, the specification is the number of trailing failures.
  \<^item> Buffer: buffer/buffer.go; the Go interface \<open>Buffer\<close> is the locale \<open>line_buffer\<close>, extended by
    \<open>total_line_buffer\<close>, which the memory buffer satisfies.
  \<^item> DiskBuffer: buffer/disk.go over a directory (an association list of named files); operating system
    errors are the answers of a \<open>disk_io\<close> record.  It is an instance of \<open>line_buffer\<close>.
  \<^item> DiskErrors: the disk buffer when the operating system fails: listing, opening, reading, removing
    and writing segments, a write that stops half way included.
  \<^item> Flags: the flags registered by main.go and config/config.go, and \<open>flag.Parse\<close> for them.
  \<^item> Config: the records of config/config.go, \<open>Read\<close>, and \<open>SetEnvVariables\<close> over an environment.
  \<^item> Nginx: nginx/nginx.go and nginx/json.go, \<open>ParseField\<close>, \<open>ParseLogs\<close>, \<open>ParseJSONLogs\<close>, \<open>anyToString\<close>.
  \<^item> FilterChain: filter/filter.go, compilation and validation of rules, the environment an
    expression sees, sampling over a stream of random numbers, \<open>Apply\<close>.
  \<^item> Clickhouse: clickhouse/clickhouse.go, the client state (connection or none), enrichment and row
    building (with \<open>path.Ext\<close> and \<open>URL.Hostname\<close> of the standard library), and \<open>Save\<close>, which
    instantiates the locale \<open>retried_call\<close> of theory Retry with one attempt.
  \<^item> UserAgent: the user-agent parser of clickhouse/clickhouse.go as a package variable with lazy
    creation, cache and counters; an attempt of \<open>Save\<close> with it refines the one of Clickhouse.
  \<^item> Check: clickhouse/check.go, the four validation checks.
  \<^item> Pipeline: main.go: the buffer behind its interface (again a \<open>line_buffer\<close>), \<open>flush\<close>, the body of
    the main loop, shutdown, the metrics that count lines.
  \<^item> LineWise: when the entries of a batch are those of its lines one by one (in order, or as
    multisets), and the rows a list of lines comes to.
  \<^item> SafeBuffer: what the delivery theorems need of a buffer of either kind (\<open>buf_room\<close>), and that
    every operation of the program keeps it.
  \<^item> Delivery: runs of the main loop (\<open>app_step\<close> over any list of events), against a server that
    fails at will, comes back, or answers all the time.  An event is a whole operation (a line, a
    timer flush, the shutdown): one operation runs at a time here, with either buffer.
  \<^item> Startup: main.go: defaults, construction, replay, line source, \<open>/healthz\<close> and \<open>-check\<close>.
  \<^item> Program: \<open>main\<close> from the command line on, and the \<open>-once\<close> mode from file to table.
  \<^item> Concurrency: the goroutines of main.go as a step relation whose steps are the critical
    sections: a call of the buffer or the breaker, one attempt of \<open>Save\<close>, a probe of the health
    endpoint.  The runs of Pipeline are among its runs; the invariants hold for all of them, with
    either buffer.
  \<^item> Accounting: the counters under every interleaving.  ExactlyOnce: the table under every
    interleaving, when a failed insert stores nothing.  Crash: a kill between any two steps, and the
    restart on what the disk buffer left; the point of a flush at which its batch is on no disk.
  \<^item> Progress: the steps of an operation decrease a measure, an operation under way always has a next
    step, and the shutdown can be reached from every state.

  \<^bold>\<open>Correspondence.\<close>  A Go struct is a record with the same field names (a prefix where names
  clash), a Go error is a value of a sum or option, a Go \<open>string\<close> is a byte list, an \<open>int\<close> is an
  \<^typ>\<open>int\<close> with wrap-around written out where the code can reach it, a Go map with string keys
  is an association list or a HOL map (the code sorts the keys wherever an order is visible).
  Methods that hold a mutex for their whole body are atomic transformers of the struct they lock.

  \<^bold>\<open>Parameters.\<close>  Code that is not in the repository is an argument of the definitions that use it,
  grouped in records: the ClickHouse driver (\<open>driver\<close>; its documented contract is \<open>driver_ok\<close>: a
  prepared batch starts empty, appending adds an accepted row, only \<open>Send\<close> changes the
  table; a server that answers is \<open>driver_up\<close>: connecting works, and so does sending a batch of
  rows that fit, while a batch with a row that does not fit may fail, as \<open>clickhouse-go\<close> makes it),
  the gonx parser, the expr compiler and runner, the JSON decoder, float parsing and
  printing, \<open>url.Parse\<close>, the Unicode case tables, the user-agent parser (\<open>row_lib\<close>, \<open>json_lib\<close>,
  \<open>ua_lib\<close>), the YAML decoder, the file system's failures (\<open>disk_io\<close>), the random numbers and the
  clock.  Where a theorem needs one of these hypotheses a witness discharges it for a concrete
  instance.

  \<^bold>\<open>What the lemmas show.\<close>  Safety of the data path: a failed save puts the lines back in order, a
  successful one stores the rows of all kept entries; whatever the server, the breaker and the
  interleaving of the goroutines do, every row of an accepted line is stored or its line is still
  held or was rejected by a full buffer, the counters account for every line, and after a kill at
  any point a restart recovers all but the batches in flight; duplicates come only from inserts
  that fail after having stored rows; a failed save has closed its connections but those that did
  not answer a ping.  Liveness: once the server answers, the next flush, or a
  restart on the segments after a crash, stores what is buffered; no goroutine is blocked or loops
  for ever, and the program can always be stopped; against an answering server a
  run whose operations do not overlap stores every line once and in order, from the bytes of the log
  file, and from the segments an earlier session left, to the table.  (When operations overlap, lines
  can be dropped or cut off by the exit: a theorem of Concurrency has the two runs.)
  Functional specifications: the breaker refines a trailing-failure count, \<open>Backoff\<close> and \<open>Do\<close> for
  every input, filter chains against \<open>filter\<close>, the environments of filters against the cells of rows,
  the rows of a batch against its \<open>INSERT\<close> statement, the user-agent cache against the
  pure parser, environment overrides, the accepted command lines, time and JSON round trips.
  Failures of the operating system: no buffered line is damaged by a failed read, removal or
  write, and exactly the segments whose removal failed are read again.  And the limits: negative retry counts, lines of 64 KB, a million segments, a crash during
  a flush, a failed replay, a torn write that spoils the next line,
  interleavings in which a full buffer drops lines, each a theorem.

  \<^bold>\<open>Bounds and termination.\<close>  All loops are total functions: the retry loop recurses on the attempts
  left, scanning recurses on the bytes, draining and re-buffering on the lines.  No fuel is used.
  The 64 KB and 1 MB line limits are those of \<open>bufio.Scanner\<close>; six-digit segment numbers are ordered
  up to 999999, stated as a bound on the number of operations in a session.

  \<^bold>\<open>Not modelled.\<close>  The usage text \<open>flag\<close> prints, log output, the Prometheus registry and HTTP serving beyond the counters and the \<open>/healthz\<close> answer,
  the durations observed in histograms, and time itself (\<open>time.Sleep\<close> is recorded as a duration).
  The theorems on delivery need parsing and filtering to work line by line: JSON lines and
  filters without sampling do; for the text format it is an assumption on the \<open>gonx\<close> reader; with
  sampling the theorems on one flush and on filter chains apply.  Tests, charts and build files are not part of the program.
\<close>

end
